(* ===== verification/Prelude.thy ===== *)
theory Prelude
  imports Main "HOL-Library.Word"
begin

text \<open>
  Shared vocabulary of the xv6 development: the C integer types of \<^verbatim>\<open>types.h\<close>, the
  scan loops that most kernel tables use, and the list lemmas that every component needs.
  The collection \<open>scan\<close> holds the characterisations of the scan loops, the collection
  \<open>kstep\<close> the symbolic-execution rules of the kernel monad, and \<open>frame\<close> the rules that show what an operation leaves unchanged;
  \<open>through\<close> the rules that show that it never gives up the CPU.
\<close>

named_theorems scan
named_theorems kstep
named_theorems frame
named_theorems through

type_synonym byte = "8 word"
type_synonym ushort = "16 word"
type_synonym uint = "32 word"

text \<open>A C \<^verbatim>\<open>int\<close> is a 32-bit word read with \<^const>\<open>sint\<close>.\<close>

type_synonym cint = "32 word"

lemma unat32_less: "unat (w :: uint) < 2 ^ 32"
proof -
  have "unat w < 2 ^ LENGTH(32)" by (rule unsigned_less)
  then show ?thesis by simp
qed

lemma unat32_eqI: "unat (v :: uint) = unat w \<Longrightarrow> v = w"
  by (rule unsigned_word_eqI)

subsection \<open>Scanning a table for the first matching slot\<close>

text \<open>
  \<^verbatim>\<open>for(p = table; p < &table[N]; p++) if(P(p)) { ... break; }\<close>: the index of the first slot
  that satisfies the test, or none.
\<close>

fun find_slot :: "('a \<Rightarrow> bool) \<Rightarrow> 'a list \<Rightarrow> nat option" where
  "find_slot P [] = None"
| "find_slot P (x # xs) = (if P x then Some 0 else map_option Suc (find_slot P xs))"

lemma find_slot_None [scan]: "find_slot P xs = None \<longleftrightarrow> (\<forall>x\<in>set xs. \<not> P x)"
  by (induction xs) auto

lemma find_slot_Some [scan]:
  "find_slot P xs = Some i \<longleftrightarrow> i < length xs \<and> P (xs ! i) \<and> (\<forall>j<i. \<not> P (xs ! j))"
proof (induction xs arbitrary: i)
  case (Cons x xs)
  show ?case
  proof (cases i)
    case (Suc k)
    then show ?thesis using Cons.IH [of k] by (auto simp: less_Suc_eq_0_disj)
  qed auto
qed simp

lemma find_slot_bound: "find_slot P xs = Some i \<Longrightarrow> i < length xs"
  by (simp add: find_slot_Some)

lemma find_slot_sat: "find_slot P xs = Some i \<Longrightarrow> P (xs ! i)"
  by (simp add: find_slot_Some)

lemma find_slot_exists: "x \<in> set xs \<Longrightarrow> P x \<Longrightarrow> \<exists>i. find_slot P xs = Some i"
  by (cases "find_slot P xs") (auto simp: find_slot_None)

lemma find_slot_nth: "i < length xs \<Longrightarrow> P (xs ! i) \<Longrightarrow> \<exists>j\<le>i. find_slot P xs = Some j"
  by (cases "find_slot P xs") (force simp: find_slot_None, metis find_slot_Some not_le_imp_less)

subsection \<open>Updating one slot of a table\<close>

definition upd_nth :: "nat \<Rightarrow> ('a \<Rightarrow> 'a) \<Rightarrow> 'a list \<Rightarrow> 'a list" where
  "upd_nth i f xs = xs[i := f (xs ! i)]"

lemma length_upd_nth [simp]: "length (upd_nth i f xs) = length xs"
  by (simp add: upd_nth_def)

lemma nth_upd_nth [simp]:
  "j < length xs \<Longrightarrow> upd_nth i f xs ! j = (if i = j then f (xs ! j) else xs ! j)"
  by (simp add: upd_nth_def nth_list_update)

lemma upd_nth_upd_nth_same [simp]:
  "i < length xs \<Longrightarrow> upd_nth i f (upd_nth i g xs) = upd_nth i (f \<circ> g) xs"
  by (simp add: upd_nth_def)

lemma upd_nth_id: "f (xs ! i) = xs ! i \<Longrightarrow> upd_nth i f xs = xs"
  by (simp add: upd_nth_def)

lemma set_upd_nth_subset: "set (upd_nth i f xs) \<subseteq> insert (f (xs ! i)) (set xs)"
  by (simp add: upd_nth_def set_update_subset_insert)

subsection \<open>Constants of \<^verbatim>\<open>param.h\<close>\<close>

definition NPROC :: nat where "NPROC = 64"
definition NCPU :: nat where "NCPU = 8"
definition NOFILE :: nat where "NOFILE = 16"
definition NFILE :: nat where "NFILE = 100"
definition NINODE :: nat where "NINODE = 50"
definition NDEV :: nat where "NDEV = 10"
definition MAXOPBLOCKS :: nat where "MAXOPBLOCKS = 10"
definition LOGSIZE :: nat where "LOGSIZE = MAXOPBLOCKS * 3"
definition NBUF :: nat where "NBUF = MAXOPBLOCKS * 3"
definition BSIZE :: nat where "BSIZE = 512"

text \<open>Ring buffers with free-running 32-bit counters: the size divides \<open>2 ^ 32\<close>, so an index survives the wrap.\<close>

lemma ring_index:
  assumes "n dvd 2 ^ 32"
  shows "unat (a + of_nat k :: uint) mod n = (unat a + k) mod n"
proof -
  have "unat (a + of_nat k :: uint) = (unat a + k) mod 2 ^ 32"
    by (simp add: unat_word_ariths(1) unat_of_nat take_bit_eq_mod mod_add_right_eq)
  then show ?thesis using mod_mod_cancel [OF assms, of "unat a + k"] by simp
qed

lemma mod_window: "i < d \<Longrightarrow> d < (n :: nat) \<Longrightarrow> (a + i) mod n \<noteq> (a + d) mod n"
proof
  assume "i < d" "d < n" "(a + i) mod n = (a + d) mod n"
  then have "n dvd (a + d) - (a + i)" by (metis mod_eq_dvd_iff_nat add_left_mono less_imp_le)
  then show False using \<open>i < d\<close> \<open>d < n\<close> by (simp add: nat_dvd_not_less)
qed

end
