(* ===== verification/Kernel_Monad.thy ===== *)
theory Kernel_Monad
  imports Prelude
begin

text \<open>
  Kernel code as state transformers. A kernel routine run by one kernel thread either returns
  a value and the new state, stops the machine (\<^verbatim>\<open>panic\<close> of console.c), hands the CPU to the
  scheduler (\<^verbatim>\<open>sched\<close> of proc.c, with the state at the switch), or spins for ever on a lock that
  another CPU holds. The state type is a record that every component extends with its own
  fields, so that the routines of a lower layer run unchanged in the state of a higher one.

  The second half is the contract of spin locks as their clients see it: the set of locks this
  kernel thread holds. Spinlock.thy shows that the code of spinlock.c meets it.
\<close>

datatype ('a, 's) outcome = Ok 'a 's | Panic string | Sched 's | Spin

type_synonym ('s, 'a) kern = "'s \<Rightarrow> ('a, 's) outcome"

definition ret :: "'a \<Rightarrow> ('s, 'a) kern" where
  "ret x = (\<lambda>s. Ok x s)"

definition kbind :: "('s, 'a) kern \<Rightarrow> ('a \<Rightarrow> ('s, 'b) kern) \<Rightarrow> ('s, 'b) kern" where
  "kbind m f = (\<lambda>s. case m s of Ok x s' \<Rightarrow> f x s' | Panic e \<Rightarrow> Panic e | Sched s' \<Rightarrow> Sched s' | Spin \<Rightarrow> Spin)"

definition kseq :: "('s, unit) kern \<Rightarrow> ('s, 'b) kern \<Rightarrow> ('s, 'b) kern" where
  "kseq m n = kbind m (\<lambda>_. n)"

definition gets :: "('s \<Rightarrow> 'a) \<Rightarrow> ('s, 'a) kern" where
  "gets f = (\<lambda>s. Ok (f s) s)"

definition modify :: "('s \<Rightarrow> 's) \<Rightarrow> ('s, unit) kern" where
  "modify f = (\<lambda>s. Ok () (f s))"

definition panic :: "string \<Rightarrow> ('s, 'a) kern" where
  "panic e = (\<lambda>_. Panic e)"

definition kif :: "('s \<Rightarrow> bool) \<Rightarrow> ('s, 'a) kern \<Rightarrow> ('s, 'a) kern \<Rightarrow> ('s, 'a) kern" where
  "kif c m n = (\<lambda>s. if c s then m s else n s)"

definition kwhen :: "('s \<Rightarrow> bool) \<Rightarrow> ('s, unit) kern \<Rightarrow> ('s, unit) kern" where
  "kwhen c m = kif c m (ret ())"

lemma ret_run [kstep, simp]: "ret x s = Ok x s"
  by (simp add: ret_def)

lemma gets_run [kstep, simp]: "gets f s = Ok (f s) s"
  by (simp add: gets_def)

lemma modify_run [kstep, simp]: "modify f s = Ok () (f s)"
  by (simp add: modify_def)

lemma panic_run [kstep, simp]: "panic e s = Panic e"
  by (simp add: panic_def)

lemma kbind_Ok [kstep]: "m s = Ok x s' \<Longrightarrow> kbind m f s = f x s'"
  by (simp add: kbind_def)

lemma kbind_Panic [kstep]: "m s = Panic e \<Longrightarrow> kbind m f s = Panic e"
  by (simp add: kbind_def)

lemma kbind_Sched [kstep]: "m s = Sched s' \<Longrightarrow> kbind m f s = Sched s'"
  by (simp add: kbind_def)

lemma kseq_Ok [kstep]: "m s = Ok () s' \<Longrightarrow> kseq m n s = n s'"
  by (simp add: kseq_def kbind_def)

lemma kseq_Panic [kstep]: "m s = Panic e \<Longrightarrow> kseq m n s = Panic e"
  by (simp add: kseq_def kbind_def)

lemma kseq_Sched [kstep]: "m s = Sched s' \<Longrightarrow> kseq m n s = Sched s'"
  by (simp add: kseq_def kbind_def)

lemma kif_True [kstep]: "c s \<Longrightarrow> kif c m n s = m s"
  by (simp add: kif_def)

lemma kif_False [kstep]: "\<not> c s \<Longrightarrow> kif c m n s = n s"
  by (simp add: kif_def)

lemma kwhen_True [kstep]: "c s \<Longrightarrow> kwhen c m s = m s"
  by (simp add: kwhen_def kif_def)

lemma kwhen_False [kstep]: "\<not> c s \<Longrightarrow> kwhen c m s = Ok () s"
  by (simp add: kwhen_def kif_def)

lemma kbind_eq_Ok: "kbind m f s = Ok y s'' \<longleftrightarrow> (\<exists>x s'. m s = Ok x s' \<and> f x s' = Ok y s'')"
  by (cases "m s") (auto simp: kbind_def)

lemma kseq_eq_Ok: "kseq m n s = Ok y s'' \<longleftrightarrow> (\<exists>s'. m s = Ok () s' \<and> n s' = Ok y s'')"
  by (simp add: kseq_def kbind_eq_Ok)

lemma kbind_ret [simp]: "kbind (ret x) f = f x"
  by (simp add: kbind_def ret_def)

lemma kbind_assoc: "kbind (kbind m f) g = kbind m (\<lambda>x. kbind (f x) g)"
  by (rule ext) (simp add: kbind_def split: outcome.split)

subsection \<open>Loops\<close>

text \<open>
  A C loop as its body: the body maps the loop variables either to their next values (\<open>Inl\<close>) or
  out of the loop with a result (\<open>Inr\<close>). The first argument bounds the number of iterations;
  a loop that is still running then counts as spinning for ever. \<open>kloop_rule\<close> is the total
  correctness rule: an invariant and a measure below the bound show that the loop ends.
\<close>

fun kloop :: "nat \<Rightarrow> ('v \<Rightarrow> ('s, 'v + 'a) kern) \<Rightarrow> 'v \<Rightarrow> ('s, 'a) kern" where
  "kloop 0 b v = (\<lambda>_. Spin)"
| "kloop (Suc k) b v = kbind (b v) (\<lambda>r. case r of Inl v' \<Rightarrow> kloop k b v' | Inr x \<Rightarrow> ret x)"

lemma kloop_done [kstep]: "b v s = Ok (Inr x) s' \<Longrightarrow> 0 < k \<Longrightarrow> kloop k b v s = Ok x s'"
  by (cases k) (simp_all add: kbind_def)

lemma kloop_next: "b v s = Ok (Inl v') s' \<Longrightarrow> kloop (Suc k) b v s = kloop k b v' s'"
  by (simp add: kbind_def)

lemma kloop_rule:
  assumes "I v s" "m v < k"
    and step: "\<And>v s. I v s \<Longrightarrow>
      (\<exists>v' s'. b v s = Ok (Inl v') s' \<and> I v' s' \<and> m v' < m v) \<or>
      (\<exists>x s'. b v s = Ok (Inr x) s' \<and> Q x s')"
  shows "\<exists>x s'. kloop k b v s = Ok x s' \<and> Q x s'"
  using assms(1,2)
proof (induction k arbitrary: v s)
  case (Suc k)
  from step [OF Suc.prems(1)] show ?case
  proof (elim disjE exE conjE)
    fix v' s' assume "b v s = Ok (Inl v') s'" "I v' s'" "m v' < m v"
    then show ?thesis using Suc.IH [of v' s'] Suc.prems(2) by (simp add: kbind_def)
  next
    fix x s' assume "b v s = Ok (Inr x) s'" "Q x s'"
    then show ?thesis by (simp add: kbind_def)
  qed
qed simp

text \<open>More iterations than a finished loop needs change nothing.\<close>

lemma kloop_mono: "kloop k b v s = r \<Longrightarrow> r \<noteq> Spin \<Longrightarrow> k \<le> k' \<Longrightarrow> kloop k' b v s = r"
proof (induction k arbitrary: k' v s)
  case (Suc k)
  then obtain j where j: "k' = Suc j" "k \<le> j" by (cases k') auto
  show ?case
  proof (cases "b v s")
    case (Ok x s')
    then show ?thesis using Suc.prems Suc.IH [of "projl x" s' j] j by (cases x) (simp_all add: kbind_def)
  qed (use Suc.prems j in \<open>simp_all add: kbind_def\<close>)
qed simp

text \<open>A loop over a fixed list of slots, carrying a local variable.\<close>

fun kfold :: "('v \<Rightarrow> 'a \<Rightarrow> ('s, 'a) kern) \<Rightarrow> 'v list \<Rightarrow> 'a \<Rightarrow> ('s, 'a) kern" where
  "kfold f [] a = ret a"
| "kfold f (v # vs) a = kbind (f v a) (kfold f vs)"

definition kfor :: "('v \<Rightarrow> ('s, unit) kern) \<Rightarrow> 'v list \<Rightarrow> ('s, unit) kern" where
  "kfor f vs = kfold (\<lambda>v _. f v) vs ()"

lemma kfor_simps [simp]: "kfor f [] = ret ()" "kfor f (v # vs) = kseq (f v) (kfor f vs)"
  by (simp_all add: kfor_def kseq_def)

lemma kfold_rule:
  assumes "I [] a s"
    and step: "\<And>us v ws a s. vs = us @ v # ws \<Longrightarrow> I us a s \<Longrightarrow>
      \<exists>a' s'. f v a s = Ok a' s' \<and> I (us @ [v]) a' s'"
  shows "\<exists>a' s'. kfold f vs a s = Ok a' s' \<and> I vs a' s'"
proof -
  have "\<exists>a' s'. kfold f ws a s = Ok a' s' \<and> I vs a' s'" if "vs = us @ ws" "I us a s" for us ws a s
    using that
  proof (induction ws arbitrary: us a s)
    case (Cons w ws)
    obtain a' s' where 1: "f w a s = Ok a' s'" "I (us @ [w]) a' s'" using step Cons.prems by blast
    then show ?case using Cons.IH [of "us @ [w]" a' s'] Cons.prems(1) by (simp add: kbind_def)
  qed simp
  from this [of "[]" vs a s] assms(1) show ?thesis by simp
qed

lemma kfor_rule:
  assumes "I [] s"
    and "\<And>us v ws s. vs = us @ v # ws \<Longrightarrow> I us s \<Longrightarrow> \<exists>s'. f v s = Ok () s' \<and> I (us @ [v]) s'"
  shows "\<exists>s'. kfor f vs s = Ok () s' \<and> I vs s'"
  unfolding kfor_def using kfold_rule [of "\<lambda>us _ s. I us s" "()" s vs "\<lambda>v _. f v"] assms by auto

subsection \<open>What an operation leaves unchanged\<close>

text \<open>\<open>keeps f m\<close>: running \<open>m\<close>, to its end or to a switch, does not change the part \<open>f\<close> of the state.\<close>

definition keeps :: "('s \<Rightarrow> 'b) \<Rightarrow> ('s, 'a) kern \<Rightarrow> bool" where
  "keeps f m \<longleftrightarrow> (\<forall>s. case m s of Ok x s' \<Rightarrow> f s' = f s | Sched s' \<Rightarrow> f s' = f s | _ \<Rightarrow> True)"

lemma keepsD: "keeps f m \<Longrightarrow> m s = Ok x s' \<Longrightarrow> f s' = f s"
  by (drule keeps_def [THEN iffD1, THEN spec [of _ s]]) simp

lemma keepsD_Sched: "keeps f m \<Longrightarrow> m s = Sched s' \<Longrightarrow> f s' = f s"
  by (drule keeps_def [THEN iffD1, THEN spec [of _ s]]) simp

lemma keepsI:
  "(\<And>s x s'. m s = Ok x s' \<Longrightarrow> f s' = f s) \<Longrightarrow> (\<And>s s'. m s = Sched s' \<Longrightarrow> f s' = f s) \<Longrightarrow> keeps f m"
  by (auto simp: keeps_def split: outcome.split)

lemma keeps_weaken:
  assumes "keeps f m" "\<And>s s'. f s' = f s \<Longrightarrow> g s' = g s"
  shows "keeps g m"
  by (rule keepsI; rule assms(2)) (rule keepsD [OF assms(1)] keepsD_Sched [OF assms(1)], assumption)+

lemma keeps_pure [frame]: "keeps f (ret x)" "keeps f (gets g)" "keeps f (panic e)"
  by (simp_all add: keeps_def)

lemma keeps_modify: "(\<And>s. f (g s) = f s) \<Longrightarrow> keeps f (modify g)"
  by (simp add: keeps_def)

lemma keeps_bind [frame]: "keeps f m \<Longrightarrow> (\<And>x. keeps f (k x)) \<Longrightarrow> keeps f (kbind m k)"
proof (rule keepsI)
  fix s y t
  assume a: "keeps f m" "\<And>x. keeps f (k x)" and r: "kbind m k s = Ok y t"
  then obtain x s' where "m s = Ok x s'" "k x s' = Ok y t" by (auto simp: kbind_eq_Ok)
  then show "f t = f s" using a keepsD by metis
next
  fix s t
  assume a: "keeps f m" "\<And>x. keeps f (k x)" and r: "kbind m k s = Sched t"
  show "f t = f s"
  proof (cases "m s")
    case (Ok x s')
    then have "k x s' = Sched t" using r by (simp add: kbind_def)
    then show ?thesis using keepsD [OF a(1) Ok] keepsD_Sched [OF a(2)] by metis
  qed (use r a(1) in \<open>auto simp: kbind_def dest: keepsD_Sched\<close>)
qed

lemma keeps_seq [frame]: "keeps f m \<Longrightarrow> keeps f k \<Longrightarrow> keeps f (kseq m k)"
  unfolding kseq_def by (intro frame)

lemma keeps_kif [frame]: "keeps f m \<Longrightarrow> keeps f k \<Longrightarrow> keeps f (kif c m k)"
  by (simp add: keeps_def kif_def)

lemma keeps_if [frame]: "(c \<Longrightarrow> keeps f m) \<Longrightarrow> (\<not> c \<Longrightarrow> keeps f k) \<Longrightarrow> keeps f (if c then m else k)"
  by simp

lemma keeps_kwhen [frame]: "keeps f m \<Longrightarrow> keeps f (kwhen c m)"
  unfolding kwhen_def by (intro frame)

lemma keeps_state: "(\<And>x. keeps f (m x)) \<Longrightarrow> keeps f (\<lambda>s. m (g s) s)"
  by (simp add: keeps_def)

lemma keeps_kloop [frame]: "(\<And>v. keeps f (b v)) \<Longrightarrow> keeps f (kloop k b v)"
proof (induction k arbitrary: v)
  case (Suc k)
  then show ?case by (auto intro!: frame split: sum.split)
qed (simp add: keeps_def)

lemma keeps_kfold [frame]: "(\<And>v a. keeps f (b v a)) \<Longrightarrow> keeps f (kfold b vs a)"
  by (induction vs arbitrary: a) (auto intro!: frame)

lemma keeps_kfor [frame]: "(\<And>v. keeps f (b v)) \<Longrightarrow> keeps f (kfor b vs)"
  unfolding kfor_def by (intro frame)

text \<open>\<open>nosched m\<close>: \<open>m\<close> runs without giving up the CPU.\<close>

definition nosched :: "('s, 'a) kern \<Rightarrow> bool" where
  "nosched m \<longleftrightarrow> (\<forall>s t. m s \<noteq> Sched t)"

lemma noschedD: "nosched m \<Longrightarrow> m s = Sched t \<Longrightarrow> R"
  by (simp add: nosched_def)

lemma nosched_pure [through]: "nosched (ret x)" "nosched (gets g)" "nosched (panic e)" "nosched (modify h)"
  by (simp_all add: nosched_def)

lemma nosched_bind [through]: "nosched m \<Longrightarrow> (\<And>x. nosched (k x)) \<Longrightarrow> nosched (kbind m k)"
  by (auto simp: nosched_def kbind_def split: outcome.split)

lemma nosched_seq [through]: "nosched m \<Longrightarrow> nosched k \<Longrightarrow> nosched (kseq m k)"
  unfolding kseq_def by (intro through)

lemma nosched_kif [through]: "nosched m \<Longrightarrow> nosched k \<Longrightarrow> nosched (kif c m k)"
  by (simp add: nosched_def kif_def)

lemma nosched_if [through]: "(c \<Longrightarrow> nosched m) \<Longrightarrow> (\<not> c \<Longrightarrow> nosched k) \<Longrightarrow> nosched (if c then m else k)"
  by simp

lemma nosched_kwhen [through]: "nosched m \<Longrightarrow> nosched (kwhen c m)"
  unfolding kwhen_def by (intro through)

lemma nosched_kloop [through]: "(\<And>v. nosched (b v)) \<Longrightarrow> nosched (kloop k b v)"
proof (induction k arbitrary: v)
  case (Suc k)
  then show ?case by (auto intro!: through split: sum.split)
qed (simp add: nosched_def)

lemma nosched_state: "(\<And>x. nosched (m x)) \<Longrightarrow> nosched (\<lambda>s. m (g s) s)"
  by (simp add: nosched_def)

lemma nosched_kfold [through]: "(\<And>v a. nosched (b v a)) \<Longrightarrow> nosched (kfold b vs a)"
  by (induction vs arbitrary: a) (auto intro!: through)

lemma nosched_kfor [through]: "(\<And>v. nosched (b v)) \<Longrightarrow> nosched (kfor b vs)"
  unfolding kfor_def by (intro through)

subsection \<open>The spin-lock contract\<close>

text \<open>The spin locks of the kernel, by the object that embeds them.\<close>

datatype lockid =
    PtableLock | KmemLock | BcacheLock | IcacheLock | FtableLock | LogLock | IdeLock | ConsLock
  | PipeLock nat      \<comment> \<open>\<^verbatim>\<open>p->lock\<close> of pipe.c\<close>
  | BufLk nat         \<comment> \<open>\<^verbatim>\<open>b->lock.lk\<close>, the spin lock inside a buffer's sleep lock\<close>
  | InodeLk nat       \<comment> \<open>\<^verbatim>\<open>ip->lock.lk\<close>\<close>

text \<open>
  What a client relies on: acquiring a lock not held adds it to the held set, releasing a held
  one takes it away, and the two misuses stop the machine.
\<close>

locale lock_service =
  fixes acq rel :: "lockid \<Rightarrow> ('s, unit) kern"
    and holds :: "'s \<Rightarrow> lockid set"
    and inv :: "'s \<Rightarrow> bool"
  assumes acq_free: "inv s \<Longrightarrow> l \<notin> holds s \<Longrightarrow>
      \<exists>s'. acq l s = Ok () s' \<and> inv s' \<and> holds s' = insert l (holds s)"
    and acq_held: "inv s \<Longrightarrow> l \<in> holds s \<Longrightarrow> acq l s = Panic ''acquire''"
    and rel_held: "inv s \<Longrightarrow> l \<in> holds s \<Longrightarrow>
      \<exists>s'. rel l s = Ok () s' \<and> inv s' \<and> holds s' = holds s - {l}"
    and rel_free: "inv s \<Longrightarrow> l \<notin> holds s \<Longrightarrow> rel l s = Panic ''release''"
begin

text \<open>A critical section whose body keeps the held set leaves no lock behind.\<close>

lemma critical_section:
  assumes "inv s" "l \<notin> holds s"
    and body: "\<And>t. inv t \<Longrightarrow> holds t = insert l (holds s) \<Longrightarrow>
      \<exists>x t'. m t = Ok x t' \<and> inv t' \<and> holds t' = holds t"
  shows "\<exists>x s'. kseq (acq l) (kbind m (\<lambda>x. kseq (rel l) (ret x))) s = Ok x s' \<and>
    inv s' \<and> holds s' = holds s"
proof -
  obtain s1 where s1: "acq l s = Ok () s1" "inv s1" "holds s1 = insert l (holds s)"
    using acq_free [OF assms(1,2)] by blast
  obtain x s2 where s2: "m s1 = Ok x s2" "inv s2" "holds s2 = holds s1"
    using body [OF s1(2,3)] by blast
  obtain s3 where s3: "rel l s2 = Ok () s3" "inv s3" "holds s3 = holds s2 - {l}"
    using rel_held [OF s2(2), of l] s1(3) s2(3) by auto
  have "kseq (acq l) (kbind m (\<lambda>x. kseq (rel l) (ret x))) s = Ok x s3"
    using s1(1) s2(1) s3(1) by (simp add: kstep)
  moreover have "holds s3 = holds s" using s1(3) s2(3) s3(3) assms(2) by auto
  ultimately show ?thesis using s3(2) by blast
qed

text \<open>Locks nest: two locks taken and dropped in the opposite order leave the held set as it was.\<close>

lemma nested_sections:
  assumes "inv s" "l \<notin> holds s" "k \<notin> holds s" "l \<noteq> k"
  shows "\<exists>s'. kseq (acq l) (kseq (acq k) (kseq (rel k) (rel l))) s = Ok () s' \<and>
    inv s' \<and> holds s' = holds s"
proof -
  obtain s1 where s1: "acq l s = Ok () s1" "inv s1" "holds s1 = insert l (holds s)"
    using acq_free assms(1,2) by blast
  obtain s2 where s2: "acq k s1 = Ok () s2" "inv s2" "holds s2 = insert k (holds s1)"
    using acq_free [OF s1(2), of k] s1(3) assms(3,4) by auto
  obtain s3 where s3: "rel k s2 = Ok () s3" "inv s3" "holds s3 = holds s2 - {k}"
    using rel_held [OF s2(2), of k] s2(3) by auto
  obtain s4 where s4: "rel l s3 = Ok () s4" "inv s4" "holds s4 = holds s3 - {l}"
    using rel_held [OF s3(2), of l] s1(3) s2(3) s3(3) assms(4) by auto
  have "kseq (acq l) (kseq (acq k) (kseq (rel k) (rel l))) s = Ok () s4"
    using s1(1) s2(1) s3(1) s4(1) by (simp add: kstep)
  moreover have "holds s4 = holds s" using s1(3) s2(3) s3(3) s4(3) assms(2,3) by auto
  ultimately show ?thesis using s4(2) by blast
qed

end

text \<open>
  The state every component extends: the spin locks this kernel thread holds. Their number is
  \<^verbatim>\<open>mycpu()->ncli\<close>.
\<close>

record klocks =
  held :: "lockid set"

definition acquire :: "lockid \<Rightarrow> ('z klocks_scheme, unit) kern" where
  "acquire l = (\<lambda>s. if l \<in> held s then Panic ''acquire'' else Ok () (s\<lparr>held := insert l (held s)\<rparr>))"

definition release :: "lockid \<Rightarrow> ('z klocks_scheme, unit) kern" where
  "release l = (\<lambda>s. if l \<in> held s then Ok () (s\<lparr>held := held s - {l}\<rparr>) else Panic ''release'')"

lemma acquire_free [kstep]:
  "l \<notin> held s \<Longrightarrow> acquire l s = Ok () (s\<lparr>held := insert l (held s)\<rparr>)"
  by (simp add: acquire_def)

lemma acquire_held [kstep]: "l \<in> held s \<Longrightarrow> acquire l s = Panic ''acquire''"
  by (simp add: acquire_def)

lemma release_held [kstep]:
  "l \<in> held s \<Longrightarrow> release l s = Ok () (s\<lparr>held := held s - {l}\<rparr>)"
  by (simp add: release_def)

lemma release_free [kstep]: "l \<notin> held s \<Longrightarrow> release l s = Panic ''release''"
  by (simp add: release_def)

lemma held_update_id [simp]: "held s = h \<Longrightarrow> s\<lparr>held := h\<rparr> = s"
  by auto

lemma nosched_locks [through]: "nosched (acquire l)" "nosched (release l)"
  by (simp_all add: nosched_def acquire_def release_def)

interpretation hs: lock_service acquire release held "\<lambda>_. True"
  by unfold_locales (auto simp: kstep)

end
