(* ===== verification/Spinlock.thy ===== *)
theory Spinlock
  imports Kernel_Monad
begin

text \<open>
  spinlock.c on a multiprocessor: the per-CPU interrupt nesting of \<^verbatim>\<open>pushcli\<close> and \<^verbatim>\<open>popcli\<close>, and
  \<^verbatim>\<open>acquire\<close> and \<^verbatim>\<open>release\<close> cut at the points where another CPU can run between them (the atomic
  \<^verbatim>\<open>xchg\<close>, the store to \<^verbatim>\<open>lk->cpu\<close>, the store that unlocks). Two results: any interleaving of the
  CPUs keeps mutual exclusion and never reaches a panic of the lock code, and one CPU's
  \<^verbatim>\<open>acquire\<close>/\<^verbatim>\<open>release\<close> implements the held-set contract of Kernel_Monad and puts the interrupt flag
  back. The debugging call stack \<^verbatim>\<open>lk->pcs\<close> is left out.
\<close>

subsection \<open>CPUs and locks\<close>

text \<open>\<open>eflags_if\<close> is the bit FL_IF of the CPU's eflags register.\<close>

record cpu =
  apicid :: byte
  ncli :: int
  intena :: bool
  eflags_if :: bool

record spinlock =
  locked :: bool
  lcpu :: "nat option"

record smp =
  cpus :: "cpu list"
  locks :: "lockid \<Rightarrow> spinlock"

definition upd_cpu :: "nat \<Rightarrow> (cpu \<Rightarrow> cpu) \<Rightarrow> smp \<Rightarrow> smp" where
  "upd_cpu i f s = s\<lparr>cpus := upd_nth i f (cpus s)\<rparr>"

definition upd_lock :: "lockid \<Rightarrow> (spinlock \<Rightarrow> spinlock) \<Rightarrow> smp \<Rightarrow> smp" where
  "upd_lock l f s = s\<lparr>locks := (locks s)(l := f (locks s l))\<rparr>"

definition initlock :: "lockid \<Rightarrow> (smp, unit) kern" where
  "initlock l = modify (upd_lock l (\<lambda>_. \<lparr>locked = False, lcpu = None\<rparr>))"

text \<open>The CPU that executes is \<open>me\<close>; its local APIC reports the id recorded for it by mpinit.\<close>

definition mycpu :: "nat \<Rightarrow> (smp, nat) kern" where
  "mycpu me = (\<lambda>s.
     if eflags_if (cpus s ! me) then Panic (''mycpu called with interrupts enabled'' @ [CHR 0x0A])
     else case find_slot (\<lambda>c. apicid c = apicid (cpus s ! me)) (cpus s) of
         Some i \<Rightarrow> Ok i s
       | None \<Rightarrow> Panic (''unknown apicid'' @ [CHR 0x0A]))"

definition cli :: "nat \<Rightarrow> (smp, unit) kern" where
  "cli me = modify (upd_cpu me (\<lambda>c. c\<lparr>eflags_if := False\<rparr>))"

definition sti :: "nat \<Rightarrow> (smp, unit) kern" where
  "sti me = modify (upd_cpu me (\<lambda>c. c\<lparr>eflags_if := True\<rparr>))"

definition pushcli :: "nat \<Rightarrow> (smp, unit) kern" where
  "pushcli me =
     kbind (gets (\<lambda>s. eflags_if (cpus s ! me))) (\<lambda>eflags.
     kseq (cli me)
     (kbind (mycpu me) (\<lambda>c.
     kseq (kwhen (\<lambda>s. ncli (cpus s ! c) = 0) (modify (upd_cpu c (\<lambda>x. x\<lparr>intena := eflags\<rparr>))))
     (modify (upd_cpu c (\<lambda>x. x\<lparr>ncli := ncli x + 1\<rparr>))))))"

definition popcli :: "nat \<Rightarrow> (smp, unit) kern" where
  "popcli me =
     kif (\<lambda>s. eflags_if (cpus s ! me)) (panic ''popcli - interruptible'')
     (kbind (mycpu me) (\<lambda>c.
      kseq (modify (upd_cpu c (\<lambda>x. x\<lparr>ncli := ncli x - 1\<rparr>)))
      (kif (\<lambda>s. ncli (cpus s ! c) < 0) (panic ''popcli'')
      (kwhen (\<lambda>s. ncli (cpus s ! c) = 0 \<and> intena (cpus s ! c)) (sti me)))))"

definition holding :: "nat \<Rightarrow> lockid \<Rightarrow> (smp, bool) kern" where
  "holding me l =
     kseq (pushcli me)
     (kbind (mycpu me) (\<lambda>c.
      kbind (gets (\<lambda>s. locked (locks s l) \<and> lcpu (locks s l) = Some c)) (\<lambda>r.
      kseq (popcli me) (ret r))))"

text \<open>\<^verbatim>\<open>acquire\<close> up to the spin loop.\<close>

definition acq_enter :: "nat \<Rightarrow> lockid \<Rightarrow> (smp, unit) kern" where
  "acq_enter me l =
     kseq (pushcli me)
     (kbind (holding me l) (\<lambda>h. if h then panic ''acquire'' else ret ()))"

text \<open>One turn of the loop: \<^verbatim>\<open>xchg(&lk->locked, 1)\<close> stores 1 and yields the old value.\<close>

definition xchg_locked :: "lockid \<Rightarrow> (smp, bool) kern" where
  "xchg_locked l =
     kbind (gets (\<lambda>s. locked (locks s l))) (\<lambda>old.
     kseq (modify (upd_lock l (\<lambda>k. k\<lparr>locked := True\<rparr>))) (ret old))"

definition acq_own :: "nat \<Rightarrow> lockid \<Rightarrow> (smp, unit) kern" where
  "acq_own me l =
     kbind (mycpu me) (\<lambda>c. modify (upd_lock l (\<lambda>k. k\<lparr>lcpu := Some c\<rparr>)))"

text \<open>
  The whole routine as one CPU runs it while no other CPU moves: a lock found taken stays
  taken, so the loop spins for ever.
\<close>

definition acquire_spin :: "nat \<Rightarrow> lockid \<Rightarrow> (smp, unit) kern" where
  "acquire_spin me l =
     kseq (acq_enter me l)
     (kbind (xchg_locked l) (\<lambda>old. if old then (\<lambda>_. Spin) else acq_own me l))"

definition rel_enter :: "nat \<Rightarrow> lockid \<Rightarrow> (smp, unit) kern" where
  "rel_enter me l =
     kbind (holding me l) (\<lambda>h.
     if \<not> h then panic ''release'' else modify (upd_lock l (\<lambda>k. k\<lparr>lcpu := None\<rparr>)))"

definition rel_unlock :: "lockid \<Rightarrow> (smp, unit) kern" where
  "rel_unlock l = modify (upd_lock l (\<lambda>k. k\<lparr>locked := False\<rparr>))"

definition release_spin :: "nat \<Rightarrow> lockid \<Rightarrow> (smp, unit) kern" where
  "release_spin me l = kseq (rel_enter me l) (kseq (rel_unlock l) (popcli me))"

subsection \<open>What each routine does to the CPU\<close>

definition cpu_wf :: "nat \<Rightarrow> smp \<Rightarrow> bool" where
  "cpu_wf me s \<longleftrightarrow> me < length (cpus s) \<and> distinct (map apicid (cpus s))"

definition pushed :: "cpu \<Rightarrow> cpu" where
  "pushed c = c\<lparr>eflags_if := False, intena := (if ncli c = 0 then eflags_if c else intena c),
     ncli := ncli c + 1\<rparr>"

definition popped :: "cpu \<Rightarrow> cpu" where
  "popped c = c\<lparr>ncli := ncli c - 1, eflags_if := (ncli c = 1 \<and> intena c)\<rparr>"

lemma upd_cpu_simps [simp]:
  "locks (upd_cpu i f s) = locks s"
  "cpus (upd_cpu i f s) = upd_nth i f (cpus s)"
  "cpus (upd_lock l g s) = cpus s"
  "locks (upd_lock l g s) = (locks s)(l := g (locks s l))"
  by (simp_all add: upd_cpu_def upd_lock_def)

lemma upd_cpu_comp [simp]:
  "i < length (cpus s) \<Longrightarrow> upd_cpu i f (upd_cpu i g s) = upd_cpu i (f \<circ> g) s"
  by (simp add: upd_cpu_def)

lemma map_apicid_upd_nth:
  "(\<And>c. apicid (f c) = apicid c) \<Longrightarrow> map apicid (upd_nth i f cs) = map apicid cs"
  by (simp add: upd_nth_def map_update list_update_same_conv nth_equalityI)
    (metis length_map list_update_beyond list_update_id map_update not_le nth_map)

lemma cpu_wf_upd [simp]:
  "(\<And>c. apicid (f c) = apicid c) \<Longrightarrow> cpu_wf i (upd_cpu j f s) = cpu_wf i s"
  "cpu_wf i (upd_lock l g s) = cpu_wf i s"
  by (simp_all add: cpu_wf_def map_apicid_upd_nth)

lemma apicid_pushed [simp]: "apicid (pushed c) = apicid c"
  by (simp add: pushed_def)

lemma apicid_popped [simp]: "apicid (popped c) = apicid c"
  by (simp add: popped_def)

lemma mycpu_self:
  assumes "cpu_wf me s" "\<not> eflags_if (cpus s ! me)"
  shows "mycpu me s = Ok me s"
proof -
  have "find_slot (\<lambda>c. apicid c = apicid (cpus s ! me)) (cpus s) = Some me"
    using assms(1) by (auto simp: cpu_wf_def find_slot_Some distinct_conv_nth)
  then show ?thesis using assms(2) by (simp add: mycpu_def)
qed

lemma pushcli_run:
  assumes "cpu_wf me s"
  shows "pushcli me s = Ok () (upd_cpu me pushed s)"
proof -
  let ?s1 = "upd_cpu me (\<lambda>c. c\<lparr>eflags_if := False\<rparr>) s"
  have me: "me < length (cpus s)" using assms by (simp add: cpu_wf_def)
  have m: "mycpu me ?s1 = Ok me ?s1" using assms me by (intro mycpu_self) simp_all
  show ?thesis
  proof (cases "ncli (cpus s ! me) = 0")
    case True
    then show ?thesis using me
      by (simp add: pushcli_def cli_def kstep m)
        (simp add: upd_cpu_def upd_nth_def pushed_def)
  next
    case False
    then show ?thesis using me
      by (simp add: pushcli_def cli_def kstep m)
        (simp add: upd_cpu_def upd_nth_def pushed_def)
  qed
qed

lemma popcli_run:
  assumes "cpu_wf me s" "\<not> eflags_if (cpus s ! me)" "0 < ncli (cpus s ! me)"
  shows "popcli me s = Ok () (upd_cpu me popped s)"
proof -
  have me: "me < length (cpus s)" using assms by (simp add: cpu_wf_def)
  show ?thesis
  proof (cases "ncli (cpus s ! me) = 1 \<and> intena (cpus s ! me)")
    case True
    then show ?thesis using assms me
      by (simp add: popcli_def sti_def kstep mycpu_self)
        (simp add: upd_cpu_def upd_nth_def popped_def)
  next
    case False
    then show ?thesis using assms me
      by (simp add: popcli_def sti_def kstep mycpu_self kwhen_def kif_def)
        (cases "cpus s ! me"; auto simp add: upd_cpu_def upd_nth_def popped_def)
  qed
qed

text \<open>\<^verbatim>\<open>pushcli\<close> then \<^verbatim>\<open>popcli\<close> leaves the interrupt flag and the nesting depth as they were.\<close>

lemma pop_push:
  "0 \<le> ncli c \<Longrightarrow> (ncli c > 0 \<longrightarrow> \<not> eflags_if c) \<Longrightarrow>
    popped (pushed c) = c\<lparr>intena := (if ncli c = 0 then eflags_if c else intena c)\<rparr>"
  by (simp add: popped_def pushed_def)

definition cli_ok :: "nat \<Rightarrow> smp \<Rightarrow> bool" where
  "cli_ok me s \<longleftrightarrow> cpu_wf me s \<and> 0 \<le> ncli (cpus s ! me) \<and>
     (0 < ncli (cpus s ! me) \<longrightarrow> \<not> eflags_if (cpus s ! me))"

lemma holding_run:
  assumes "cli_ok me s"
  shows "holding me l s =
    Ok (locked (locks s l) \<and> lcpu (locks s l) = Some me) (upd_cpu me (popped \<circ> pushed) s)"
proof -
  let ?s1 = "upd_cpu me pushed s"
  have wf: "cpu_wf me s" "me < length (cpus s)" using assms by (auto simp: cli_ok_def cpu_wf_def)
  have "mycpu me ?s1 = Ok me ?s1" using wf by (intro mycpu_self) (simp_all add: pushed_def)
  moreover have "popcli me ?s1 = Ok () (upd_cpu me popped ?s1)"
    using wf assms by (intro popcli_run) (simp_all add: pushed_def cli_ok_def)
  ultimately show ?thesis using wf
    by (simp add: holding_def kstep pushcli_run)
qed


subsection \<open>One CPU: the held-set contract\<close>

text \<open>The locks a CPU owns, and the state of the lock code between two calls by that CPU while no
  other CPU owns a lock; \<open>b\<close> is the interrupt flag outside every critical section.\<close>

definition owned :: "nat \<Rightarrow> smp \<Rightarrow> lockid set" where
  "owned me s = {l. locked (locks s l) \<and> lcpu (locks s l) = Some me}"

definition lk_inv :: "nat \<Rightarrow> bool \<Rightarrow> smp \<Rightarrow> bool" where
  "lk_inv me b s \<longleftrightarrow> cpu_wf me s \<and> finite (owned me s) \<and>
     (\<forall>l. if locked (locks s l) then lcpu (locks s l) = Some me else lcpu (locks s l) = None) \<and>
     ncli (cpus s ! me) = int (card (owned me s)) \<and>
     (if owned me s = {} then eflags_if (cpus s ! me) = b
      else \<not> eflags_if (cpus s ! me) \<and> intena (cpus s ! me) = b)"

lemma lk_inv_cli_ok: "lk_inv me b s \<Longrightarrow> cli_ok me s"
  by (auto simp: lk_inv_def cli_ok_def card_gt_0_iff)

lemma lk_inv_len: "lk_inv me b s \<Longrightarrow> me < length (cpus s)"
  by (simp add: lk_inv_def cpu_wf_def)

lemma owned_upd_cpu [simp]: "owned me (upd_cpu i f s) = owned me s"
  by (simp add: owned_def)

lemma cli_ok_pushed: "cli_ok me s \<Longrightarrow> cli_ok me (upd_cpu me pushed s)"
  by (auto simp: cli_ok_def cpu_wf_def pushed_def map_apicid_upd_nth)

lemma acq_enter_run:
  assumes "cli_ok me s"
  shows "acq_enter me l s =
    (if locked (locks s l) \<and> lcpu (locks s l) = Some me then Panic ''acquire''
     else Ok () (upd_cpu me (popped \<circ> pushed \<circ> pushed) s))"
proof -
  have "cpu_wf me s" "me < length (cpus s)" using assms by (auto simp: cli_ok_def cpu_wf_def)
  then show ?thesis
    using holding_run [OF cli_ok_pushed [OF assms]]
    by (simp add: acq_enter_def kstep pushcli_run comp_assoc)
qed

lemma pop_push_push:
  "0 \<le> ncli c \<Longrightarrow> popped (pushed (pushed c)) = pushed c"
  by (simp add: popped_def pushed_def)

lemma acq_enter_free:
  assumes "cli_ok me s" "\<not> (locked (locks s l) \<and> lcpu (locks s l) = Some me)"
  shows "acq_enter me l s = Ok () (upd_cpu me pushed s)"
proof -
  have "upd_cpu me (popped \<circ> pushed \<circ> pushed) s = upd_cpu me pushed s"
    using assms(1) by (simp add: upd_cpu_def upd_nth_def pop_push_push cli_ok_def)
  then show ?thesis using acq_enter_run [OF assms(1)] assms(2) by simp
qed

lemma xchg_locked_run:
  "xchg_locked l s = Ok (locked (locks s l)) (upd_lock l (\<lambda>k. k\<lparr>locked := True\<rparr>) s)"
  by (simp add: xchg_locked_def kstep)

lemma acq_own_run:
  "cpu_wf me s \<Longrightarrow> \<not> eflags_if (cpus s ! me) \<Longrightarrow>
    acq_own me l s = Ok () (upd_lock l (\<lambda>k. k\<lparr>lcpu := Some me\<rparr>) s)"
  by (simp add: acq_own_def kstep mycpu_self)

lemma acquire_spin_free:
  assumes inv: "lk_inv me b s" and l: "l \<notin> owned me s"
  shows "\<exists>s'. acquire_spin me l s = Ok () s' \<and> lk_inv me b s' \<and> owned me s' = insert l (owned me s)"
proof -
  let ?s1 = "upd_cpu me pushed s"
  let ?s2 = "upd_lock l (\<lambda>k. k\<lparr>locked := True\<rparr>) ?s1"
  let ?s3 = "upd_lock l (\<lambda>k. k\<lparr>lcpu := Some me\<rparr>) ?s2"
  have me: "me < length (cpus s)" using inv by (rule lk_inv_len)
  have free: "\<not> locked (locks s l)" using inv l by (auto simp: lk_inv_def owned_def split: if_splits)
  have "acq_enter me l s = Ok () ?s1"
    using lk_inv_cli_ok [OF inv] free by (intro acq_enter_free) simp_all
  moreover have "acq_own me l ?s2 = Ok () ?s3"
    using inv me by (intro acq_own_run) (simp_all add: pushed_def lk_inv_def)
  ultimately have run: "acquire_spin me l s = Ok () ?s3"
    using free by (simp add: acquire_spin_def kstep xchg_locked_run)
  have own: "owned me ?s3 = insert l (owned me s)" by (auto simp: owned_def)
  have "lk_inv me b ?s3"
    unfolding lk_inv_def own using inv me l
    by (auto simp: lk_inv_def pushed_def split: if_splits)
  with run own show ?thesis by blast
qed

lemma acquire_spin_held:
  assumes "lk_inv me b s" "l \<in> owned me s"
  shows "acquire_spin me l s = Panic ''acquire''"
  using acq_enter_run [OF lk_inv_cli_ok [OF assms(1)], of l] assms(2)
  by (simp add: acquire_spin_def kstep owned_def)

lemma rel_enter_run:
  assumes "cli_ok me s"
  shows "rel_enter me l s =
    (if locked (locks s l) \<and> lcpu (locks s l) = Some me
     then Ok () (upd_lock l (\<lambda>k. k\<lparr>lcpu := None\<rparr>) (upd_cpu me (popped \<circ> pushed) s))
     else Panic ''release'')"
  by (simp add: rel_enter_def kstep holding_run [OF assms])

lemma pop_push_id:
  "cli_ok me s \<Longrightarrow> 0 < ncli (cpus s ! me) \<Longrightarrow> upd_cpu me (popped \<circ> pushed) s = s"
  by (simp add: upd_cpu_def cli_ok_def cpu_wf_def upd_nth_def pop_push)

lemma release_spin_held:
  assumes inv: "lk_inv me b s" and l: "l \<in> owned me s"
  shows "\<exists>s'. release_spin me l s = Ok () s' \<and> lk_inv me b s' \<and> owned me s' = owned me s - {l}"
proof -
  let ?s1 = "upd_lock l (\<lambda>k. k\<lparr>lcpu := None\<rparr>) s"
  let ?s2 = "upd_lock l (\<lambda>k. k\<lparr>locked := False\<rparr>) ?s1"
  let ?s3 = "upd_cpu me popped ?s2"
  have me: "me < length (cpus s)" using inv by (rule lk_inv_len)
  have pos: "0 < ncli (cpus s ! me)" using inv l by (auto simp: lk_inv_def card_gt_0_iff)
  have off: "\<not> eflags_if (cpus s ! me)" using inv l by (auto simp: lk_inv_def split: if_splits)
  have "rel_enter me l s = Ok () ?s1"
    using rel_enter_run [OF lk_inv_cli_ok [OF inv], of l] l pop_push_id [OF lk_inv_cli_ok [OF inv] pos]
    by (simp add: owned_def)
  moreover have "popcli me ?s2 = Ok () ?s3"
    using inv pos off by (intro popcli_run) (simp_all add: lk_inv_def)
  ultimately have run: "release_spin me l s = Ok () ?s3"
    by (simp add: release_spin_def rel_unlock_def kstep)
  have own: "owned me ?s3 = owned me s - {l}" by (auto simp: owned_def)
  have card: "int (card (owned me s - {l})) = int (card (owned me s)) - 1"
    using inv l pos by (auto simp: lk_inv_def card_Diff_singleton)
  have "owned me s - {l} = {} \<longleftrightarrow> card (owned me s) = 1"
    using inv l card by (auto simp: lk_inv_def card_1_singleton_iff)
  then have "lk_inv me b ?s3"
    unfolding lk_inv_def own card using inv me l card
    by (auto simp: lk_inv_def popped_def split: if_splits)
  with run own show ?thesis by blast
qed

lemma release_spin_free:
  assumes "lk_inv me b s" "l \<notin> owned me s"
  shows "release_spin me l s = Panic ''release''"
  using rel_enter_run [OF lk_inv_cli_ok [OF assms(1)], of l] assms(2)
  by (auto simp: release_spin_def kstep owned_def)

interpretation spin: lock_service "acquire_spin me" "release_spin me" "owned me" "lk_inv me b"
  for me b
  by unfold_locales
    (simp_all add: acquire_spin_free acquire_spin_held release_spin_held release_spin_free)

subsection \<open>Several CPUs: mutual exclusion\<close>

text \<open>Where a CPU is in the code that uses lock \<open>l\<close>.\<close>

datatype lkpc =
    Outside    \<comment> \<open>before \<^verbatim>\<open>acquire\<close>\<close>
  | Spinning   \<comment> \<open>in the \<^verbatim>\<open>xchg\<close> loop\<close>
  | Won        \<comment> \<open>\<^verbatim>\<open>xchg\<close> returned 0, \<^verbatim>\<open>lk->cpu\<close> not yet set\<close>
  | Critical   \<comment> \<open>between \<^verbatim>\<open>acquire\<close> and \<^verbatim>\<open>release\<close>\<close>
  | Leaving    \<comment> \<open>\<^verbatim>\<open>lk->cpu\<close> cleared, lock word still 1\<close>
  | Unlocked   \<comment> \<open>lock word 0, \<^verbatim>\<open>popcli\<close> still to run\<close>

text \<open>
  A step is one atomic piece of lock code on one CPU, or a CPU outside the lock code changing
  its interrupt flag. Any CPU may move next.
\<close>

inductive lk_step :: "lockid \<Rightarrow> smp \<times> (nat \<Rightarrow> lkpc) \<Rightarrow> smp \<times> (nat \<Rightarrow> lkpc) \<Rightarrow> bool" for l where
  intr: "pc i = Outside \<Longrightarrow> i < length (cpus s) \<Longrightarrow>
    lk_step l (s, pc) (upd_cpu i (\<lambda>c. c\<lparr>eflags_if := b\<rparr>) s, pc)"
| enter: "pc i = Outside \<Longrightarrow> i < length (cpus s) \<Longrightarrow> acq_enter i l s = Ok () s' \<Longrightarrow>
    lk_step l (s, pc) (s', pc(i := Spinning))"
| spin: "pc i = Spinning \<Longrightarrow> xchg_locked l s = Ok True s' \<Longrightarrow> lk_step l (s, pc) (s', pc)"
| win: "pc i = Spinning \<Longrightarrow> xchg_locked l s = Ok False s' \<Longrightarrow>
    lk_step l (s, pc) (s', pc(i := Won))"
| own: "pc i = Won \<Longrightarrow> acq_own i l s = Ok () s' \<Longrightarrow> lk_step l (s, pc) (s', pc(i := Critical))"
| leave: "pc i = Critical \<Longrightarrow> rel_enter i l s = Ok () s' \<Longrightarrow>
    lk_step l (s, pc) (s', pc(i := Leaving))"
| unlock: "pc i = Leaving \<Longrightarrow> rel_unlock l s = Ok () s' \<Longrightarrow>
    lk_step l (s, pc) (s', pc(i := Unlocked))"
| pop: "pc i = Unlocked \<Longrightarrow> popcli i s = Ok () s' \<Longrightarrow> lk_step l (s, pc) (s', pc(i := Outside))"

text \<open>A boot state: distinct APIC ids, no nesting, the lock initialised by \<^verbatim>\<open>initlock\<close>.\<close>

definition lk_boot :: "lockid \<Rightarrow> smp \<Rightarrow> bool" where
  "lk_boot l s \<longleftrightarrow> distinct (map apicid (cpus s)) \<and> (\<forall>c\<in>set (cpus s). ncli c = 0) \<and>
     locks s l = \<lparr>locked = False, lcpu = None\<rparr>"

inductive lk_reachable :: "lockid \<Rightarrow> smp \<times> (nat \<Rightarrow> lkpc) \<Rightarrow> bool" for l where
  boot: "lk_boot l s \<Longrightarrow> lk_reachable l (s, \<lambda>_. Outside)"
| step: "lk_reachable l c \<Longrightarrow> lk_step l c c' \<Longrightarrow> lk_reachable l c'"

definition owns_word :: "lkpc \<Rightarrow> bool" where
  "owns_word p \<longleftrightarrow> p \<in> {Won, Critical, Leaving}"

definition lk_sys_inv :: "lockid \<Rightarrow> smp \<times> (nat \<Rightarrow> lkpc) \<Rightarrow> bool" where
  "lk_sys_inv l c \<longleftrightarrow> (case c of (s, pc) \<Rightarrow>
     distinct (map apicid (cpus s)) \<and>
     (\<forall>i. pc i \<noteq> Outside \<longrightarrow> i < length (cpus s)) \<and>
     (\<forall>i < length (cpus s). if pc i = Outside then ncli (cpus s ! i) = 0
        else ncli (cpus s ! i) = 1 \<and> \<not> eflags_if (cpus s ! i)) \<and>
     (locked (locks s l) \<longleftrightarrow> (\<exists>i. owns_word (pc i))) \<and>
     (\<forall>i j. owns_word (pc i) \<longrightarrow> owns_word (pc j) \<longrightarrow> i = j) \<and>
     (\<forall>i. lcpu (locks s l) = Some i \<longleftrightarrow> pc i = Critical))"

lemma lk_sys_inv_boot: "lk_boot l s \<Longrightarrow> lk_sys_inv l (s, \<lambda>_. Outside)"
  by (simp add: lk_boot_def lk_sys_inv_def owns_word_def)

lemma lk_sys_inv_cli_ok: "lk_sys_inv l (s, pc) \<Longrightarrow> i < length (cpus s) \<Longrightarrow> cli_ok i s"
  by (auto simp: lk_sys_inv_def cli_ok_def cpu_wf_def split: if_splits)

lemma lk_sys_inv_outside: "lk_sys_inv l (s, pc) \<Longrightarrow> pc i = Outside \<Longrightarrow> lcpu (locks s l) \<noteq> Some i"
  by (simp add: lk_sys_inv_def)

lemma lk_sys_inv_critical:
  "lk_sys_inv l (s, pc) \<Longrightarrow> pc i = Critical \<Longrightarrow>
    i < length (cpus s) \<and> locked (locks s l) \<and> lcpu (locks s l) = Some i \<and>
    0 < ncli (cpus s ! i) \<and> \<not> eflags_if (cpus s ! i)"
  by (force simp: lk_sys_inv_def owns_word_def)

lemma lk_step_inv:
  assumes "lk_step l c c'" "lk_sys_inv l c"
  shows "lk_sys_inv l c'"
  using assms
proof (induction rule: lk_step.induct)
  case (intr pc i s b)
  then show ?case by (auto simp: lk_sys_inv_def map_apicid_upd_nth split: if_splits)
next
  case (enter pc i s s')
  then have s': "s' = upd_cpu i pushed s"
    using acq_enter_free [OF lk_sys_inv_cli_ok] lk_sys_inv_outside by fastforce
  show ?case using enter(1,2,4) unfolding s'
    by (auto simp: lk_sys_inv_def map_apicid_upd_nth pushed_def owns_word_def split: if_splits)
next
  case (spin pc i s s')
  then show ?case
    by (auto simp: lk_sys_inv_def xchg_locked_run split: if_splits)
next
  case (win pc i s s')
  then have "\<not> locked (locks s l)" "s' = upd_lock l (\<lambda>k. k\<lparr>locked := True\<rparr>) s"
    by (auto simp: xchg_locked_run)
  with win show ?case
    by (auto simp: lk_sys_inv_def owns_word_def split: if_splits)
next
  case (own pc i s s')
  then have "cpu_wf i s" "\<not> eflags_if (cpus s ! i)"
    by (auto simp: lk_sys_inv_def cpu_wf_def split: if_splits)
  with own have s': "s' = upd_lock l (\<lambda>k. k\<lparr>lcpu := Some i\<rparr>) s" by (simp add: acq_own_run)
  have "\<forall>j. pc j = Critical \<longrightarrow> j = i" using own(1,3) by (auto simp: lk_sys_inv_def owns_word_def)
  with own(1,3) show ?case unfolding s'
    by (auto simp: lk_sys_inv_def owns_word_def split: if_splits)
next
  case (leave pc i s s')
  note c = lk_sys_inv_critical [OF leave(3,1)]
  have s': "s' = upd_lock l (\<lambda>k. k\<lparr>lcpu := None\<rparr>) s"
    using leave(2) c rel_enter_run [OF lk_sys_inv_cli_ok [OF leave(3)], of i l]
      pop_push_id [OF lk_sys_inv_cli_ok [OF leave(3)], of i] by simp
  have "\<forall>j. pc j = Critical \<longrightarrow> j = i" using leave(1,3) by (auto simp: lk_sys_inv_def owns_word_def)
  with leave(1,3) show ?case unfolding s'
    by (auto simp: lk_sys_inv_def owns_word_def split: if_splits)
next
  case (unlock pc i s s')
  then have s': "s' = upd_lock l (\<lambda>k. k\<lparr>locked := False\<rparr>) s" by (simp add: rel_unlock_def)
  have "\<forall>j. owns_word (pc j) \<longrightarrow> j = i" using unlock(1,3) by (auto simp: lk_sys_inv_def owns_word_def)
  with unlock(1,3) show ?case unfolding s'
    by (auto simp: lk_sys_inv_def owns_word_def split: if_splits)
next
  case (pop pc i s s')
  then have i: "i < length (cpus s)" "cpu_wf i s" "\<not> eflags_if (cpus s ! i)" "ncli (cpus s ! i) = 1"
    by (auto simp: lk_sys_inv_def cpu_wf_def split: if_splits)
  with pop have s': "s' = upd_cpu i popped s" by (simp add: popcli_run)
  have "\<not> owns_word (pc i)" using pop(1) by (simp add: owns_word_def)
  then have w: "(\<exists>j. owns_word ((pc(i := Outside)) j)) = (\<exists>j. owns_word (pc j))"
    by (auto simp: owns_word_def)
  have "\<not> owns_word Outside" by (simp add: owns_word_def)
  then show ?case using pop(1,3) i w unfolding s'
    by (auto simp: lk_sys_inv_def map_apicid_upd_nth popped_def split: if_splits)
qed

lemma lk_reachable_inv: "lk_reachable l c \<Longrightarrow> lk_sys_inv l c"
  by (induction rule: lk_reachable.induct) (auto intro: lk_sys_inv_boot lk_step_inv)

subsection \<open>Properties\<close>

text \<open>
  C1: In every state that any interleaving of the CPUs' acquire and release code can reach, two
  CPUs between acquire and release of the same lock are the same CPU; while a CPU is there the
  lock word is set, \<^verbatim>\<open>lk->cpu\<close> names it, and its interrupts are off.
\<close>

theorem mutual_exclusion:
  assumes "lk_reachable l (s, pc)" "pc i = Critical"
  shows "(pc j = Critical \<longrightarrow> i = j) \<and> locked (locks s l) \<and> lcpu (locks s l) = Some i \<and>
    \<not> eflags_if (cpus s ! i)"
proof -
  have inv: "lk_sys_inv l (s, pc)" using lk_reachable_inv [OF assms(1)] .
  have "pc j = Critical \<longrightarrow> i = j" using inv assms(2) by (auto simp: lk_sys_inv_def owns_word_def)
  then show ?thesis using lk_sys_inv_critical [OF inv assms(2)] by simp
qed

definition two_cpus :: smp where
  "two_cpus = \<lparr>cpus = [\<lparr>apicid = 0, ncli = 0, intena = False, eflags_if = True\<rparr>,
     \<lparr>apicid = 1, ncli = 0, intena = False, eflags_if = True\<rparr>],
     locks = (\<lambda>_. \<lparr>locked = False, lcpu = None\<rparr>)\<rparr>"

definition two_cpus_locked :: smp where
  "two_cpus_locked = \<lparr>cpus = [\<lparr>apicid = 0, ncli = 1, intena = True, eflags_if = False\<rparr>,
     \<lparr>apicid = 1, ncli = 0, intena = False, eflags_if = True\<rparr>],
     locks = (\<lambda>_. \<lparr>locked = False, lcpu = None\<rparr>)
       (PtableLock := \<lparr>locked = True, lcpu = Some 0\<rparr>)\<rparr>"

lemma two_cpus_locked_reachable:
  "lk_reachable PtableLock (two_cpus_locked, (\<lambda>_. Outside)(0 := Critical))"
proof -
  let ?l = PtableLock
  let ?s1 = "upd_cpu 0 pushed two_cpus"
  let ?s2 = "upd_lock ?l (\<lambda>k. k\<lparr>locked := True\<rparr>) ?s1"
  have ok: "lk_boot ?l two_cpus" "cli_ok 0 two_cpus"
    by (simp_all add: lk_boot_def two_cpus_def cli_ok_def cpu_wf_def)
  have r0: "lk_reachable ?l (two_cpus, \<lambda>_. Outside)" using ok(1) by (rule lk_reachable.boot)
  have "acq_enter 0 ?l two_cpus = Ok () ?s1"
    using ok(2) by (rule acq_enter_free) (simp add: two_cpus_def)
  then have r1: "lk_reachable ?l (?s1, (\<lambda>_. Outside)(0 := Spinning))"
    by (rule lk_reachable.step [OF r0 lk_step.enter, rotated 2]) (simp_all add: two_cpus_def)
  have "xchg_locked ?l ?s1 = Ok False ?s2" by (simp add: xchg_locked_run two_cpus_def)
  then have r2: "lk_reachable ?l (?s2, (\<lambda>_. Outside)(0 := Won))"
    using lk_reachable.step [OF r1 lk_step.win, of 0 ?s2] by simp
  have "acq_own 0 ?l ?s2 = Ok () two_cpus_locked"
    by (subst acq_own_run)
      (simp_all add: cpu_wf_def two_cpus_def two_cpus_locked_def upd_cpu_def upd_lock_def upd_nth_def pushed_def)
  then show ?thesis
    using lk_reachable.step [OF r2 lk_step.own, of 0 two_cpus_locked] by simp
qed

theorem mutual_exclusion_witness:
  "lk_reachable PtableLock (two_cpus_locked, (\<lambda>_. Outside)(0 := Critical)) \<and>
   \<not> eflags_if (cpus two_cpus_locked ! 0)"
  using two_cpus_locked_reachable mutual_exclusion [OF two_cpus_locked_reachable, of 0 0] by simp

text \<open>
  C2: No interleaving makes the lock code panic or get stuck: in every reachable state, a CPU
  outside can enter acquire, the CPU that won the exchange can record itself, the CPU in the
  critical section can release, and the CPU that has unlocked can restore its interrupts.
\<close>

theorem lock_code_never_panics:
  assumes "lk_reachable l (s, pc)" "i < length (cpus s)"
  shows "(pc i = Outside \<longrightarrow> (\<exists>s'. acq_enter i l s = Ok () s')) \<and>
    (pc i = Won \<longrightarrow> (\<exists>s'. acq_own i l s = Ok () s')) \<and>
    (pc i = Critical \<longrightarrow> (\<exists>s'. rel_enter i l s = Ok () s')) \<and>
    (pc i = Unlocked \<longrightarrow> (\<exists>s'. popcli i s = Ok () s'))"
proof -
  have inv: "lk_sys_inv l (s, pc)" using lk_reachable_inv [OF assms(1)] .
  have ok: "cli_ok i s" using inv assms(2) by (rule lk_sys_inv_cli_ok)
  have off: "pc i \<noteq> Outside \<Longrightarrow> ncli (cpus s ! i) = 1 \<and> \<not> eflags_if (cpus s ! i)"
    using inv assms(2) by (auto simp: lk_sys_inv_def split: if_splits)
  have wf: "cpu_wf i s" using ok by (simp add: cli_ok_def)
  show ?thesis
    using acq_enter_free [OF ok, of l] lk_sys_inv_outside [OF inv, of i] rel_enter_run [OF ok, of l]
      lk_sys_inv_critical [OF inv, of i] acq_own_run [OF wf, of l] popcli_run [OF wf] off
    by auto
qed

theorem lock_code_never_panics_witness:
  "\<exists>s'. rel_enter 0 PtableLock two_cpus_locked = Ok () s'"
  using lock_code_never_panics [OF two_cpus_locked_reachable, of 0] by (simp add: two_cpus_locked_def)

text \<open>
  C3: acquire and release of spinlock.c implement the held-set locks the rest of the kernel is
  modelled with: from related states the code returns in related states, panics exactly when the
  held-set locks do, and when the last lock is dropped the interrupt flag is the one from before
  the first was taken.
\<close>

theorem spinlock_refines_held_set:
  assumes "lk_inv me b s" "owned me s = held t"
  shows "(case acquire l t of
        Ok _ t' \<Rightarrow> \<exists>s'. acquire_spin me l s = Ok () s' \<and> lk_inv me b s' \<and> owned me s' = held t'
      | Panic e \<Rightarrow> acquire_spin me l s = Panic e | _ \<Rightarrow> False) \<and>
    (case release l t of
        Ok _ t' \<Rightarrow> \<exists>s'. release_spin me l s = Ok () s' \<and> lk_inv me b s' \<and> owned me s' = held t' \<and>
          (held t' = {} \<longrightarrow> eflags_if (cpus s' ! me) = b)
      | Panic e \<Rightarrow> release_spin me l s = Panic e | _ \<Rightarrow> False)"
proof (cases "l \<in> held t")
  case True
  obtain s' where "release_spin me l s = Ok () s'" "lk_inv me b s'" "owned me s' = owned me s - {l}"
    using spin.rel_held [OF assms(1)] True assms(2) by blast
  then show ?thesis using True assms spin.acq_held [OF assms(1), of l]
    by (auto simp: kstep lk_inv_def)
next
  case False
  then show ?thesis using assms spin.acq_free [OF assms(1), of l] spin.rel_free [OF assms(1), of l]
    by (simp add: kstep)
qed

theorem spinlock_refines_held_set_witness:
  "\<exists>s'. acquire_spin 0 KmemLock two_cpus = Ok () s' \<and> lk_inv 0 True s' \<and> owned 0 s' = {KmemLock}"
proof -
  have "lk_inv 0 True two_cpus" "owned 0 two_cpus = {}"
    by (auto simp: lk_inv_def owned_def two_cpus_def cpu_wf_def)
  then show ?thesis
    using spinlock_refines_held_set [of 0 True two_cpus "\<lparr>held = {}\<rparr>" KmemLock]
    by (simp add: acquire_def)
qed

end
