(* ===== verification/Memory.thy ===== *)
theory Memory
  imports Prelude
begin

text \<open>
  Byte-addressed memory: little-endian loads and stores, the x86 string stores of x86.h, and
  the memory routines of string.c and ulib.c over it. The routines are loops over pointers, so
  aliasing and overlap are visible; the theorems give what they compute.
\<close>

unbundle bit_operations_syntax

type_synonym mem = "uint \<Rightarrow> byte"

subsection \<open>Loads, stores, ranges\<close>

definition byte_of :: "nat \<Rightarrow> uint \<Rightarrow> byte" where
  "byte_of i w = ucast (drop_bit (8 * i) w)"

definition load32 :: "mem \<Rightarrow> uint \<Rightarrow> uint" where
  "load32 m a = ucast (m a) OR push_bit 8 (ucast (m (a + 1))) OR
     push_bit 16 (ucast (m (a + 2))) OR push_bit 24 (ucast (m (a + 3)))"

definition store32 :: "uint \<Rightarrow> uint \<Rightarrow> mem \<Rightarrow> mem" where
  "store32 a w m = m(a := byte_of 0 w, a + 1 := byte_of 1 w, a + 2 := byte_of 2 w, a + 3 := byte_of 3 w)"

text \<open>\<open>in_range a n x\<close>: the address \<open>x\<close> lies in the \<open>n\<close> bytes from \<open>a\<close> (modulo the address space).\<close>

definition in_range :: "uint \<Rightarrow> uint \<Rightarrow> uint \<Rightarrow> bool" where
  "in_range a n x \<longleftrightarrow> x - a < n"

definition fill :: "uint \<Rightarrow> byte \<Rightarrow> uint \<Rightarrow> mem \<Rightarrow> mem" where
  "fill a b n m = (\<lambda>x. if in_range a n x then b else m x)"

definition copy :: "uint \<Rightarrow> uint \<Rightarrow> uint \<Rightarrow> mem \<Rightarrow> mem" where
  "copy d s n m = (\<lambda>x. if in_range d n x then m (s + (x - d)) else m x)"

lemma word_add_neq [simp]:
  "(a::uint) + 1 \<noteq> a" "a + 2 \<noteq> a" "a + 3 \<noteq> a" "a \<noteq> a + 1" "a \<noteq> a + 2" "a \<noteq> a + 3"
  by simp_all

lemma join_bytes:
  "(ucast (byte_of 0 w) :: uint) OR push_bit 8 (ucast (byte_of (Suc 0) w)) OR
    push_bit 16 (ucast (byte_of 2 w)) OR push_bit 24 (ucast (byte_of 3 w)) = w"
proof (rule bit_word_eqI)
  fix n :: nat
  assume "n < LENGTH(32)"
  then have n: "n < 32" by simp
  consider "n < 8" | "8 \<le> n" "n < 16" | "16 \<le> n" "n < 24" | "24 \<le> n" by linarith
  then show "bit ((ucast (byte_of 0 w) :: uint) OR push_bit 8 (ucast (byte_of (Suc 0) w)) OR
    push_bit 16 (ucast (byte_of 2 w)) OR push_bit 24 (ucast (byte_of 3 w))) n = bit w n"
    by cases (use n in \<open>auto simp: byte_of_def bit_simps\<close>)
qed

lemma load32_store32 [simp]: "load32 (store32 a w m) a = w"
  by (simp add: load32_def store32_def join_bytes)

lemma store32_other: "\<not> in_range a 4 x \<Longrightarrow> store32 a w m x = m x"
proof -
  assume "\<not> in_range a 4 x"
  then have "x - a \<noteq> 0" "x - a \<noteq> 1" "x - a \<noteq> 2" "x - a \<noteq> 3"
    by (auto simp: in_range_def)
  then show ?thesis by (auto simp: store32_def)
qed

lemma load32_cong:
  assumes "\<And>i. i < 4 \<Longrightarrow> m (a + i) = m' (a + i)"
  shows "load32 m a = load32 m' a"
  using assms [of 0] assms [of 1] assms [of 2] assms [of 3] by (simp add: load32_def)

text \<open>Two ranges are apart when neither start lies in the other.\<close>

definition apart :: "uint \<Rightarrow> uint \<Rightarrow> uint \<Rightarrow> uint \<Rightarrow> bool" where
  "apart a n b k \<longleftrightarrow> (\<forall>x. \<not> (in_range a n x \<and> in_range b k x))"

lemma load32_store32_apart: "apart a 4 b 4 \<Longrightarrow> load32 (store32 a w m) b = load32 m b"
  by (rule load32_cong, rule store32_other) (auto simp: apart_def in_range_def)

lemma load32_fill_apart: "apart a n b 4 \<Longrightarrow> load32 (fill a c n m) b = load32 m b"
  by (rule load32_cong) (auto simp: apart_def fill_def in_range_def)

lemma load32_copy_apart: "apart a n b 4 \<Longrightarrow> load32 (copy a c n m) b = load32 m b"
  by (rule load32_cong) (auto simp: apart_def copy_def in_range_def)

subsection \<open>String stores and the routines of string.c\<close>

text \<open>\<^verbatim>\<open>rep stosb\<close> and \<^verbatim>\<open>rep stosl\<close> of x86.h, with the direction flag clear.\<close>

fun stosb :: "uint \<Rightarrow> byte \<Rightarrow> nat \<Rightarrow> mem \<Rightarrow> mem" where
  "stosb a b 0 m = m"
| "stosb a b (Suc n) m = stosb (a + 1) b n (m(a := b))"

fun stosl :: "uint \<Rightarrow> uint \<Rightarrow> nat \<Rightarrow> mem \<Rightarrow> mem" where
  "stosl a w 0 m = m"
| "stosl a w (Suc n) m = stosl (a + 4) w n (store32 a w m)"

definition memset :: "uint \<Rightarrow> cint \<Rightarrow> uint \<Rightarrow> mem \<Rightarrow> mem" where
  "memset dst c n m =
     (if sint dst mod 4 = 0 \<and> n mod 4 = 0 then
        (let c = c AND 0xFF in
         stosl dst (push_bit 24 c OR push_bit 16 c OR push_bit 8 c OR c) (unat (n div 4)) m)
      else stosb dst (ucast c) (unat n) m)"

fun memcmp_loop :: "uint \<Rightarrow> uint \<Rightarrow> nat \<Rightarrow> mem \<Rightarrow> int" where
  "memcmp_loop s1 s2 0 m = 0"
| "memcmp_loop s1 s2 (Suc n) m =
     (if m s1 \<noteq> m s2 then uint (m s1) - uint (m s2) else memcmp_loop (s1 + 1) (s2 + 1) n m)"

definition memcmp :: "uint \<Rightarrow> uint \<Rightarrow> uint \<Rightarrow> mem \<Rightarrow> int" where
  "memcmp v1 v2 n m = memcmp_loop v1 v2 (unat n) m"

fun move_down :: "uint \<Rightarrow> uint \<Rightarrow> nat \<Rightarrow> mem \<Rightarrow> mem" where
  "move_down d s 0 m = m"
| "move_down d s (Suc n) m = move_down (d - 1) (s - 1) n (m(d - 1 := m (s - 1)))"

fun move_up :: "uint \<Rightarrow> uint \<Rightarrow> nat \<Rightarrow> mem \<Rightarrow> mem" where
  "move_up d s 0 m = m"
| "move_up d s (Suc n) m = move_up (d + 1) (s + 1) n (m(d := m s))"

definition memmove :: "uint \<Rightarrow> uint \<Rightarrow> uint \<Rightarrow> mem \<Rightarrow> mem" where
  "memmove dst src n m =
     (if src < dst \<and> src + n > dst then move_down (dst + n) (src + n) (unat n) m
      else move_up dst src (unat n) m)"

definition memcpy :: "uint \<Rightarrow> uint \<Rightarrow> uint \<Rightarrow> mem \<Rightarrow> mem" where
  "memcpy dst src n m = memmove dst src n m"

text \<open>ulib.c has a forward-only \<^verbatim>\<open>memmove\<close> and a byte-wise \<^verbatim>\<open>memset\<close>.\<close>

definition ulib_memmove :: "uint \<Rightarrow> uint \<Rightarrow> cint \<Rightarrow> mem \<Rightarrow> mem" where
  "ulib_memmove vdst vsrc n m = move_up vdst vsrc (nat (sint n)) m"

definition ulib_memset :: "uint \<Rightarrow> cint \<Rightarrow> uint \<Rightarrow> mem \<Rightarrow> mem" where
  "ulib_memset dst c n m = stosb dst (ucast c) (unat n) m"

lemma in_range_Suc:
  assumes "Suc n < 2 ^ 32"
  shows "in_range a (of_nat (Suc n)) x \<longleftrightarrow> x = a \<or> in_range (a + 1) (of_nat n) x"
proof -
  define d where "d = x - a"
  have x: "x - a = d" "x - (a + 1) = d - 1" "(x = a) = (d = 0)" by (auto simp: d_def)
  have "unat (of_nat n :: uint) = n" "unat (of_nat (Suc n) :: uint) = Suc n"
    using assms by (simp_all add: unat_of_nat del: of_nat_Suc)
  moreover have "d \<noteq> 0 \<Longrightarrow> unat (d - 1) = unat d - 1" by (simp add: unat_minus_one)
  moreover have "\<not> (- 1 :: uint) < of_nat n" by (simp add: not_less)
  ultimately show ?thesis using assms
    unfolding in_range_def x
    by (cases "d = 0"; cases "unat d") (auto simp: word_less_nat_alt unat_eq_zero simp del: of_nat_Suc)
qed

lemma in_range_0 [simp]: "\<not> in_range a 0 x"
  by (simp add: in_range_def)

lemma stosb_fill: "n < 2 ^ 32 \<Longrightarrow> stosb a b n m = fill a b (of_nat n) m"
proof (induction n arbitrary: a m)
  case (Suc n)
  then have "stosb a b (Suc n) m = fill (a + 1) b (of_nat n) (m(a := b))" by simp
  also have "\<dots> = fill a b (of_nat (Suc n)) m"
    by (rule ext) (simp only: fill_def in_range_Suc [OF Suc.prems] fun_upd_apply, simp)
  finally show ?case .
qed (simp add: fill_def)

definition rep_byte :: "byte \<Rightarrow> uint" where
  "rep_byte b = push_bit 24 (ucast b) OR push_bit 16 (ucast b) OR push_bit 8 (ucast b) OR ucast b"

lemma byte_of_rep:
  "byte_of 0 (rep_byte b) = b" "byte_of (Suc 0) (rep_byte b) = b"
  "byte_of 2 (rep_byte b) = b" "byte_of 3 (rep_byte b) = b"
  by (rule bit_word_eqI; auto simp: byte_of_def rep_byte_def bit_simps dest: bit_imp_le_length)+

lemma stosl_stosb: "stosl a (rep_byte b) n m = stosb a b (4 * n) m"
proof (induction n arbitrary: a m)
  case (Suc n)
  have four: "4 * Suc n = Suc (Suc (Suc (Suc (4 * n))))" by simp
  have "stosb a b (4 * Suc n) m = stosb (a + 4) b (4 * n) (store32 a (rep_byte b) m)"
    unfolding four stosb.simps by (simp add: store32_def byte_of_rep add.assoc)
  then show ?case using Suc [of "a + 4" "store32 a (rep_byte b) m"] by simp
qed simp

lemma memset_fill: "memset d c n m = fill d (ucast c) n m"
proof -
  have "c AND 0xFF = take_bit 8 c" by (simp add: take_bit_eq_mask mask_eq_exp_minus_1)
  then have "ucast (ucast c :: byte) = c AND 0xFF"
    by simp (rule bit_word_eqI, auto simp: bit_simps)
  then have rep: "push_bit 24 (c AND 0xFF) OR push_bit 16 (c AND 0xFF) OR push_bit 8 (c AND 0xFF) OR
      (c AND 0xFF) = rep_byte (ucast c)"
    by (simp add: rep_byte_def)
  have "unat n < 2 ^ 32" by (rule unat32_less)
  moreover have "n mod 4 = 0 \<Longrightarrow> 4 * unat (n div 4) = unat n"
    using unat_mod [of n 4] by (auto simp: unat_div)
  ultimately show ?thesis
    unfolding memset_def Let_def rep by (simp add: stosl_stosb stosb_fill)
qed

subsection \<open>memmove copies, whatever the overlap\<close>

text \<open>
  The forward loop is right when the destination does not start inside the rest of the source,
  the backward loop when the source does not start inside the rest of the destination.
\<close>

lemma move_up_at:
  assumes "n < 2 ^ 32" "\<forall>j. 0 < j \<and> j < n \<longrightarrow> d \<noteq> s + of_nat j"
  shows "move_up d s n m x = copy d s (of_nat n) m x"
  using assms
proof (induction n arbitrary: d s m)
  case (Suc n)
  let ?m = "m(d := m s)"
  have "\<forall>j. 0 < j \<and> j < n \<longrightarrow> d + 1 \<noteq> s + 1 + of_nat j" using Suc.prems(2) by auto
  then have "move_up (d + 1) (s + 1) n ?m x = copy (d + 1) (s + 1) (of_nat n) ?m x"
    using Suc.prems(1) by (intro Suc.IH) auto
  then have IH: "move_up d s (Suc n) m x = copy (d + 1) (s + 1) (of_nat n) ?m x"
    by (simp only: move_up.simps)
  show ?case
  proof (cases "in_range (d + 1) (of_nat n) x")
    case True
    define k where "k = unat (x - (d + 1))"
    have k: "k < n" using True Suc.prems(1) by (simp add: k_def in_range_def word_less_nat_alt unat_of_nat)
    have x: "x = d + 1 + of_nat k" by (simp add: k_def)
    have "d \<noteq> s + of_nat (Suc k) \<or> Suc k = Suc n" using Suc.prems(2) k by auto
    then have "d \<noteq> s + 1 + of_nat k" using k by (auto simp: add.assoc)
    then show ?thesis
      unfolding IH copy_def in_range_Suc [OF Suc.prems(1)] using True by (simp add: x ac_simps)
  next
    case False
    then show ?thesis unfolding IH copy_def in_range_Suc [OF Suc.prems(1)] by auto
  qed
qed (simp add: copy_def)

lemma in_range_snoc:
  assumes "Suc n < 2 ^ 32"
  shows "in_range a (of_nat (Suc n)) x \<longleftrightarrow> in_range a (of_nat n) x \<or> x = a + of_nat n"
proof -
  have "unat (of_nat n :: uint) = n" "unat (of_nat (Suc n) :: uint) = Suc n"
    using assms by (simp_all add: unat_of_nat del: of_nat_Suc)
  moreover have "x = a + of_nat n \<longleftrightarrow> unat (x - a) = n"
    using assms by (auto simp: unat_of_nat)
  ultimately show ?thesis by (auto simp: in_range_def word_less_nat_alt simp del: of_nat_Suc)
qed

lemma move_down_at:
  assumes "n < 2 ^ 32" "\<forall>j. 0 < j \<and> j < n \<longrightarrow> s \<noteq> d + of_nat j"
  shows "move_down (d + of_nat n) (s + of_nat n) n m x = copy d s (of_nat n) m x"
  using assms
proof (induction n arbitrary: m)
  case (Suc n)
  let ?m = "m(d + of_nat n := m (s + of_nat n))"
  have "move_down (d + of_nat n) (s + of_nat n) n ?m x = copy d s (of_nat n) ?m x"
    using Suc.prems by (intro Suc.IH) auto
  then have IH: "move_down (d + of_nat (Suc n)) (s + of_nat (Suc n)) (Suc n) m x =
      copy d s (of_nat n) ?m x"
    by (simp only: move_down.simps of_nat_Suc add_diff_cancel_right' add.commute [of 1] add.assoc [symmetric])
  show ?case
  proof (cases "in_range d (of_nat n) x")
    case True
    define k where "k = unat (x - d)"
    have k: "k < n" using True Suc.prems(1) by (simp add: k_def in_range_def word_less_nat_alt unat_of_nat)
    have x: "x = d + of_nat k" by (simp add: k_def)
    have "0 < n - k \<and> n - k < Suc n" using k by simp
    then have "s \<noteq> d + of_nat (n - k)" using Suc.prems(2) by blast
    then have "s + of_nat k \<noteq> d + of_nat n" using k by (auto simp: of_nat_diff add_diff_eq eq_diff_eq)
    then show ?thesis
      unfolding IH copy_def in_range_snoc [OF Suc.prems(1)] using True by (simp add: x)
  next
    case False
    then show ?thesis unfolding IH copy_def in_range_snoc [OF Suc.prems(1)] by auto
  qed
qed (simp add: copy_def)

text \<open>
  C4: \<^verbatim>\<open>memmove\<close> of string.c copies the source bytes as they were before the call, for every
  overlap of two ranges that do not wrap around the address space, and changes no other byte.
\<close>

theorem memmove_copies:
  assumes "unat dst + unat n \<le> 2 ^ 32" "unat src + unat n \<le> 2 ^ 32"
  shows "memmove dst src n m x = (if in_range dst n x then m (src + (x - dst)) else m x)"
proof -
  have n: "unat n < 2 ^ 32" "of_nat (unat n) = n" by (rule unat32_less, simp)
  have no: "unat (b + of_nat j) = unat b + j" if "unat b + unat n \<le> 2 ^ 32" "j < unat n" for b :: uint and j
    using that unat32_less [of n] by (subst unat_add_lem [THEN iffD1]) (auto simp: unat_of_nat)
  have "memmove dst src n m x = copy dst src n m x"
  proof (cases "src < dst \<and> src + n > dst")
    case True
    then have "\<forall>j. 0 < j \<and> j < unat n \<longrightarrow> src \<noteq> dst + of_nat j"
      using no [OF assms(1)] by (auto simp: word_less_nat_alt)
    then show ?thesis using True move_down_at [OF n(1), of src dst m x] n(2) by (simp add: memmove_def)
  next
    case False
    have "\<forall>j. 0 < j \<and> j < unat n \<longrightarrow> dst \<noteq> src + of_nat j"
    proof (intro allI impI notI)
      fix j assume j: "0 < j \<and> j < unat n" and eq: "dst = src + of_nat j"
      have d: "unat dst = unat src + j" using no [OF assms(2)] j eq by simp
      have "unat dst < unat src + unat n" "unat src + unat n < 2 ^ 32"
        using d j assms(1) by auto
      then have "src < dst" "dst < src + n"
        using d j by (simp_all add: word_less_nat_alt unat_add_lem [THEN iffD1])
      then show False using False by simp
    qed
    then show ?thesis using False move_up_at [OF n(1), of dst src m x] n(2) by (auto simp: memmove_def)
  qed
  then show ?thesis by (simp add: copy_def)
qed

theorem memmove_copies_witness:
  "memmove 102 100 4 (\<lambda>a. ucast a) 104 = (102 :: byte) \<and> memmove 102 100 4 (\<lambda>a. ucast a) 106 = (106 :: byte)"
  using memmove_copies [of 102 4 100 "\<lambda>a. ucast a" 104] memmove_copies [of 102 4 100 "\<lambda>a. ucast a" 106]
  by (simp add: in_range_def)

end
