(* ===== verification/Kalloc.thy ===== *)
theory Kalloc
  imports Memory Kernel_Monad
begin

text \<open>
  kalloc.c: the physical page allocator. The free list is threaded through the free pages
  themselves, so the model keeps it in byte memory: \<^verbatim>\<open>kmem.freelist\<close> is an address and
  \<^verbatim>\<open>r->next\<close> is the word stored at the start of a free page. \<open>free_pages\<close> reads the list back;
  the lemmas show the allocator as a stack of pages. \<open>kend\<close> is the linker symbol \<^verbatim>\<open>end\<close>.
\<close>

definition PGSIZE :: uint where "PGSIZE = 4096"
definition KERNBASE :: uint where "KERNBASE = 0x80000000"
definition EXTMEM :: uint where "EXTMEM = 0x100000"
definition PHYSTOP :: uint where "PHYSTOP = 0xE000000"
definition DEVSPACE :: uint where "DEVSPACE = 0xFE000000"
definition KERNLINK :: uint where "KERNLINK = KERNBASE + EXTMEM"

definition V2P :: "uint \<Rightarrow> uint" where "V2P a = a - KERNBASE"
definition P2V :: "uint \<Rightarrow> uint" where "P2V a = a + KERNBASE"

definition PGROUNDUP :: "uint \<Rightarrow> uint" where
  "PGROUNDUP sz = (sz + PGSIZE - 1) AND NOT (PGSIZE - 1)"

definition PGROUNDDOWN :: "uint \<Rightarrow> uint" where
  "PGROUNDDOWN a = a AND NOT (PGSIZE - 1)"

record kmem = klocks +
  mem :: mem
  freelist :: uint
  use_lock :: bool
  kend :: uint

definition kmem_lock :: "('z kmem_scheme, unit) kern" where
  "kmem_lock = kwhen use_lock (acquire KmemLock)"

definition kmem_unlock :: "('z kmem_scheme, unit) kern" where
  "kmem_unlock = kwhen use_lock (release KmemLock)"

definition kfree :: "uint \<Rightarrow> ('z kmem_scheme, unit) kern" where
  "kfree v =
     kif (\<lambda>s. v mod PGSIZE \<noteq> 0 \<or> v < kend s \<or> V2P v \<ge> PHYSTOP) (panic ''kfree'')
     (kseq (modify (\<lambda>s. s\<lparr>mem := memset v 1 PGSIZE (mem s)\<rparr>))
     (kseq kmem_lock
     (kseq (modify (\<lambda>s. s\<lparr>mem := store32 v (freelist s) (mem s)\<rparr>))
     (kseq (modify (\<lambda>s. s\<lparr>freelist := v\<rparr>))
      kmem_unlock))))"

definition kalloc :: "('z kmem_scheme, uint) kern" where
  "kalloc =
     kseq kmem_lock
     (kbind (gets freelist) (\<lambda>r.
      kseq (kwhen (\<lambda>_. r \<noteq> 0) (modify (\<lambda>s. s\<lparr>freelist := load32 (mem s) r\<rparr>)))
      (kseq kmem_unlock (ret r))))"

text \<open>
  The loop \<^verbatim>\<open>for(; p + PGSIZE <= vend; p += PGSIZE) kfree(p)\<close>. It ends: kfree stops the machine
  before \<open>p\<close> can wrap around.
\<close>

lemma kfree_Ok_page: "kfree v s = Ok u s' \<Longrightarrow> V2P v < PHYSTOP"
  by (auto simp: kfree_def kif_def not_le split: if_splits)

subsection \<open>Pages\<close>

definition page_ok :: "'z kmem_scheme \<Rightarrow> uint \<Rightarrow> bool" where
  "page_ok s v \<longleftrightarrow> v mod PGSIZE = 0 \<and> kend s \<le> v \<and> V2P v < PHYSTOP"

lemma page_range:
  assumes "V2P v < PHYSTOP"
  shows "0x80000000 \<le> unat v \<and> unat v < 0x8E000000"
proof (cases "unat v < 0x80000000")
  case True
  then have "unat (V2P v) = unat v + 0x80000000"
    using unat32_less [of v] by (simp add: V2P_def KERNBASE_def unat_sub_if_size word_size)
  with assms show ?thesis by (simp add: PHYSTOP_def word_less_nat_alt)
next
  case False
  then have "unat (V2P v) = unat v - 0x80000000"
    by (simp add: V2P_def KERNBASE_def unat_sub_if_size word_size)
  with assms False show ?thesis by (simp add: PHYSTOP_def word_less_nat_alt)
qed

lemma page_nonzero: "page_ok s v \<Longrightarrow> v \<noteq> 0"
  using page_range [of v] by (auto simp: page_ok_def)

lemma page_step: "V2P v < PHYSTOP \<Longrightarrow> unat (v + PGSIZE) = unat v + 4096"
  using page_range [of v] unat_add_lem [of v PGSIZE] by (simp add: PGSIZE_def)

function freerange_loop :: "uint \<Rightarrow> uint \<Rightarrow> ('z kmem_scheme, unit) kern" where
  "freerange_loop p vend s =
     (if p + PGSIZE \<le> vend then
        (case kfree p s of
           Ok _ s' \<Rightarrow> freerange_loop (p + PGSIZE) vend s'
         | Panic e \<Rightarrow> Panic e | Sched s' \<Rightarrow> Sched s' | Spin \<Rightarrow> Spin)
      else Ok () s)"
  by pat_completeness auto
termination
proof (relation "measure (\<lambda>(p, vend, s). 2 ^ 32 - unat p)", goal_cases)
  case (2 p vend s u s')
  then have "unat (p + PGSIZE) = unat p + 4096" by (intro page_step kfree_Ok_page)
  then show ?case using unat32_less [of "p + PGSIZE"] by simp
qed simp

declare freerange_loop.simps [simp del]

definition freerange :: "uint \<Rightarrow> uint \<Rightarrow> ('z kmem_scheme, unit) kern" where
  "freerange vstart vend = freerange_loop (PGROUNDUP vstart) vend"

definition kinit1 :: "uint \<Rightarrow> uint \<Rightarrow> ('z kmem_scheme, unit) kern" where
  "kinit1 vstart vend =
     kseq (modify (\<lambda>s. s\<lparr>held := held s - {KmemLock}\<rparr>))
     (kseq (modify (\<lambda>s. s\<lparr>use_lock := False\<rparr>)) (freerange vstart vend))"

definition kinit2 :: "uint \<Rightarrow> uint \<Rightarrow> ('z kmem_scheme, unit) kern" where
  "kinit2 vstart vend =
     kseq (freerange vstart vend) (modify (\<lambda>s. s\<lparr>use_lock := True\<rparr>))"

lemma page_index:
  fixes v x :: nat
  assumes "v mod 4096 = 0"
  shows "v \<le> x \<and> x - v < 4096 \<longleftrightarrow> x div 4096 = v div 4096"
proof -
  have split: "4096 * k \<le> 4096 * q + r \<and> 4096 * q + r - 4096 * k < 4096 \<longleftrightarrow> q = k"
    if "r < 4096" for k q r :: nat using that by auto
  have "v = 4096 * (v div 4096)" using assms by auto
  then show ?thesis using split [of "x mod 4096" "v div 4096" "x div 4096"] by simp
qed

lemma round_down: "unat ((a :: uint) AND NOT 4095) = unat a div 4096 * 4096"
proof -
  have m: "(4095 :: uint) = mask 12" by (simp add: mask_eq_exp_minus_1)
  have "a AND NOT 4095 = push_bit 12 (drop_bit 12 a)"
    unfolding m by (rule bit_word_eqI) (auto simp: bit_simps)
  then have "unat (a AND NOT 4095) = take_bit 32 (push_bit 12 (drop_bit 12 (unat a)))"
    by (simp only: unsigned_push_bit_eq unsigned_drop_bit_eq)
      (simp add: take_bit_nat_eq_self [OF unat32_less])
  moreover have "unat a div 4096 * 4096 < 2 ^ 32"
    using unat32_less [of a] div_times_less_eq_dividend [of "unat a" 4096] by linarith
  ultimately show ?thesis
    by (simp add: take_bit_eq_mod push_bit_eq_mult drop_bit_eq_div)
qed

lemma unat_PGROUNDDOWN: "unat (PGROUNDDOWN a) = unat a div 4096 * 4096"
  using round_down [of a] by (simp add: PGROUNDDOWN_def PGSIZE_def)

lemma unat_PGROUNDUP:
  assumes "unat a \<le> 0xFFFFF000"
  shows "unat (PGROUNDUP a) = (unat a + 4095) div 4096 * 4096"
proof -
  have "unat (a + 4095) = unat a + 4095"
    using assms unat_add_lem [of a 4095] by simp
  then show ?thesis using round_down [of "a + 4095"]
    by (simp add: PGROUNDUP_def PGSIZE_def add.commute)
qed

lemma in_page:
  assumes "v mod PGSIZE = 0"
  shows "in_range v PGSIZE x \<longleftrightarrow> unat x div 4096 = unat v div 4096"
proof -
  have v: "unat v mod 4096 = 0" using assms unat_mod [of v PGSIZE] by (simp add: PGSIZE_def)
  have vb: "unat v < 2 ^ 32" "unat x < 2 ^ 32" by (rule unat32_less)+
  have "in_range v PGSIZE x \<longleftrightarrow> unat (x - v) < 4096"
    by (simp add: in_range_def PGSIZE_def word_less_nat_alt)
  also have "\<dots> \<longleftrightarrow> unat v \<le> unat x \<and> unat x - unat v < 4096"
    using vb v by (auto simp: unat_sub_if_size word_size)
  also have "\<dots> \<longleftrightarrow> unat x div 4096 = unat v div 4096" by (rule page_index [OF v])
  finally show ?thesis .
qed

lemma in_range_4: "in_range v 4 x \<Longrightarrow> in_range v PGSIZE x"
  by (simp add: in_range_def PGSIZE_def word_less_nat_alt)

lemma pages_apart:
  assumes "v mod PGSIZE = 0" "w mod PGSIZE = 0" "v \<noteq> w"
  shows "apart v PGSIZE w 4"
proof -
  have "unat v mod 4096 = 0" "unat w mod 4096 = 0"
    using assms unat_mod [of v PGSIZE] unat_mod [of w PGSIZE] by (simp_all add: PGSIZE_def)
  moreover have "unat v \<noteq> unat w" using assms(3) by (metis unsigned_word_eqI)
  ultimately have ne: "unat v div 4096 \<noteq> unat w div 4096"
    by (metis add.right_neutral mult_div_mod_eq)
  have "\<not> (in_range v PGSIZE x \<and> in_range w 4 x)" for x
    using ne in_page [OF assms(1), of x] in_page [OF assms(2), of x] in_range_4 [of w x] by auto
  then show ?thesis by (simp add: apart_def)
qed

lemma page_store_apart:
  assumes "v mod PGSIZE = 0" "w mod PGSIZE = 0" "v \<noteq> w"
  shows "apart v 4 w 4"
proof -
  show ?thesis using pages_apart [OF assms] in_range_4 unfolding apart_def by blast
qed

subsection \<open>The free list\<close>

fun page_list :: "mem \<Rightarrow> uint \<Rightarrow> uint list \<Rightarrow> bool" where
  "page_list m p [] \<longleftrightarrow> p = 0"
| "page_list m p (x # xs) \<longleftrightarrow> p = x \<and> x \<noteq> 0 \<and> page_list m (load32 m x) xs"

definition free_pages :: "'z kmem_scheme \<Rightarrow> uint list \<Rightarrow> bool" where
  "free_pages s xs \<longleftrightarrow> page_list (mem s) (freelist s) xs \<and> distinct xs \<and> (\<forall>x\<in>set xs. page_ok s x)"

lemma page_list_cong:
  "(\<And>x. x \<in> set xs \<Longrightarrow> load32 m' x = load32 m x) \<Longrightarrow> page_list m' p xs = page_list m p xs"
  by (induction xs arbitrary: p) auto

definition kfreed :: "uint \<Rightarrow> 'z kmem_scheme \<Rightarrow> 'z kmem_scheme" where
  "kfreed v s = s\<lparr>mem := store32 v (freelist s) (fill v 1 PGSIZE (mem s)), freelist := v\<rparr>"

definition kalloced :: "'z kmem_scheme \<Rightarrow> 'z kmem_scheme" where
  "kalloced s = s\<lparr>freelist := (if freelist s = 0 then 0 else load32 (mem s) (freelist s))\<rparr>"

lemma kfree_run [kstep]:
  assumes "page_ok s v" "KmemLock \<notin> held s"
  shows "kfree v s = Ok () (kfreed v s)"
  using assms
  by (cases "use_lock s")
    (simp_all add: kfree_def kmem_lock_def kmem_unlock_def kstep page_ok_def memset_fill kfreed_def
      not_less not_le)

lemma kfree_bad [kstep]: "\<not> page_ok s v \<Longrightarrow> kfree v s = Panic ''kfree''"
  by (auto simp: kfree_def kif_def page_ok_def not_le)

lemma kalloc_run [kstep]:
  assumes "KmemLock \<notin> held s"
  shows "kalloc s = Ok (freelist s) (kalloced s)"
  using assms
  by (cases "use_lock s"; cases "freelist s = 0")
    (simp_all add: kalloc_def kmem_lock_def kmem_unlock_def kstep kalloced_def)

lemma page_list_Nil: "page_list m p xs \<Longrightarrow> p = 0 \<longleftrightarrow> xs = []"
  by (cases xs) auto

lemma free_pages_hd: "free_pages s (x # xs) \<Longrightarrow> freelist s = x \<and> x \<noteq> 0"
  by (simp add: free_pages_def)

lemma free_pages_kalloced:
  "free_pages s (x # xs) \<Longrightarrow> free_pages (kalloced s) xs"
  by (auto simp: free_pages_def kalloced_def page_ok_def)

lemma free_pages_kfreed:
  assumes "free_pages s xs" "page_ok s v" "v \<notin> set xs"
  shows "free_pages (kfreed v s) (v # xs)"
proof -
  let ?m = "store32 v (freelist s) (fill v 1 PGSIZE (mem s))"
  have al: "v mod PGSIZE = 0" using assms(2) by (simp add: page_ok_def)
  have "load32 ?m x = load32 (mem s) x" if "x \<in> set xs" for x
  proof -
    have x: "x mod PGSIZE = 0" "v \<noteq> x" using that assms by (auto simp: free_pages_def page_ok_def)
    show ?thesis
      using load32_store32_apart [OF page_store_apart [OF al x]]
        load32_fill_apart [OF pages_apart [OF al x]] by simp
  qed
  then have "page_list ?m (freelist s) xs = page_list (mem s) (freelist s) xs"
    by (rule page_list_cong)
  then show ?thesis
    using assms page_nonzero [OF assms(2)] by (auto simp: free_pages_def kfreed_def page_ok_def)
qed

lemma kmem_frame [simp]:
  "held (kfreed v s) = held s" "kend (kfreed v s) = kend s" "use_lock (kfreed v s) = use_lock s"
  "held (kalloced s) = held s" "kend (kalloced s) = kend s" "use_lock (kalloced s) = use_lock s"
  "mem (kalloced s) = mem s" "page_ok (kfreed v s) = page_ok s" "page_ok (kalloced s) = page_ok s"
  by (simp_all add: kfreed_def kalloced_def page_ok_def fun_eq_iff)

lemma keeps_kmem [frame]:
  "keeps kmem.more kalloc" "keeps kmem.more (kfree v)" "keeps held kalloc" "keeps held (kfree v)"
  "keeps kend kalloc" "keeps kend (kfree v)" "keeps use_lock kalloc" "keeps use_lock (kfree v)"
  by (rule keepsI; auto simp: kalloc_def kfree_def kmem_lock_def kmem_unlock_def kwhen_def kif_def
      acquire_def release_def kseq_def kbind_def split: if_splits)+

lemma nosched_kmem [through]: "nosched kalloc" "nosched (kfree v)"
  unfolding kalloc_def kfree_def kmem_lock_def kmem_unlock_def by (intro through)+

subsection \<open>The allocator as its clients see it\<close>

text \<open>
  A source of pages: what an allocation returns, what a release gives back, and that neither
  touches the contents of a page in use.
\<close>

locale page_source =
  fixes alloc :: "('s, uint) kern"
    and dealloc :: "uint \<Rightarrow> ('s, unit) kern"
    and avail :: "'s \<Rightarrow> uint list \<Rightarrow> bool"
    and ok :: "'s \<Rightarrow> uint \<Rightarrow> bool"
    and bytes :: "'s \<Rightarrow> mem"
  assumes alloc_none: "avail s [] \<Longrightarrow> \<exists>s'. alloc s = Ok 0 s' \<and> avail s' [] \<and> bytes s' = bytes s"
    and alloc_some: "avail s (x # xs) \<Longrightarrow>
      \<exists>s'. alloc s = Ok x s' \<and> x \<noteq> 0 \<and> ok s x \<and> ok s' = ok s \<and> avail s' xs \<and> bytes s' = bytes s"
    and dealloc_ok: "avail s xs \<Longrightarrow> ok s x \<Longrightarrow> x \<notin> set xs \<Longrightarrow>
      \<exists>s'. dealloc x s = Ok () s' \<and> ok s' = ok s \<and> avail s' (x # xs) \<and>
        (\<forall>a. \<not> in_range x PGSIZE a \<longrightarrow> bytes s' a = bytes s a)"
    and dealloc_bad: "avail s xs \<Longrightarrow> \<not> ok s x \<Longrightarrow> dealloc x s = Panic ''kfree''"
    and avail_distinct: "avail s xs \<Longrightarrow> distinct xs"
begin

text \<open>Freeing a page just allocated gives back the same supply.\<close>

lemma alloc_dealloc:
  assumes "avail s (x # xs)"
  shows "\<exists>s'. kbind alloc dealloc s = Ok () s' \<and> avail s' (x # xs)"
proof -
  obtain s1 where s1: "alloc s = Ok x s1" "ok s x" "ok s1 = ok s" "avail s1 xs"
    using alloc_some [OF assms] by blast
  have "x \<notin> set xs" using avail_distinct [OF assms] by simp
  then show ?thesis using dealloc_ok [OF s1(4), of x] s1 by (auto simp: kstep)
qed

text \<open>A page freed is the next one allocated.\<close>

lemma dealloc_alloc:
  assumes "avail s xs" "ok s x" "x \<notin> set xs"
  shows "\<exists>s'. kseq (dealloc x) alloc s = Ok x s' \<and> avail s' xs"
proof -
  obtain s1 where s1: "dealloc x s = Ok () s1" "avail s1 (x # xs)"
    using dealloc_ok [OF assms] by blast
  then show ?thesis using alloc_some [OF s1(2)] by (auto simp: kstep)
qed

text \<open>Two allocations never return the same page.\<close>

lemma allocs_differ:
  assumes "avail s xs" "alloc s = Ok p s1" "alloc s1 = Ok q s2" "q \<noteq> 0"
  shows "p \<noteq> q"
proof (cases xs)
  case Nil
  then show ?thesis using alloc_none [of s] alloc_none [of s1] assms by auto
next
  case (Cons x ys)
  obtain t where t: "alloc s = Ok x t" "avail t ys" using alloc_some [of s x ys] assms(1) Cons by blast
  then have p: "p = x" "s1 = t" using assms(2) by auto
  then show ?thesis
    using alloc_none [of s1] alloc_some [of s1 "hd ys" "tl ys"] t(2) assms(3,4)
      avail_distinct [OF assms(1)] Cons by (cases ys) auto
qed

end

definition pages_avail :: "'z kmem_scheme \<Rightarrow> uint list \<Rightarrow> bool" where
  "pages_avail s xs \<longleftrightarrow> free_pages s xs \<and> KmemLock \<notin> held s"

interpretation km: page_source kalloc kfree pages_avail page_ok mem
proof (unfold_locales, goal_cases)
  case (1 s)
  then have s: "freelist s = 0" "KmemLock \<notin> held s" by (simp_all add: pages_avail_def free_pages_def)
  have "pages_avail (kalloced s) []" using s by (simp add: pages_avail_def free_pages_def kalloced_def)
  then show ?case using kalloc_run [OF s(2)] s(1) by simp
next
  case (2 s x xs)
  then have s: "free_pages s (x # xs)" "KmemLock \<notin> held s" by (simp_all add: pages_avail_def)
  have "page_ok s x" using s(1) by (simp add: free_pages_def)
  then show ?case
    using kalloc_run [OF s(2)] free_pages_hd [OF s(1)] free_pages_kalloced [OF s(1)] s(2)
    by (simp add: pages_avail_def)
next
  case (3 s xs x)
  then have s: "free_pages s xs" "KmemLock \<notin> held s" by (simp_all add: pages_avail_def)
  have "\<forall>a. \<not> in_range x PGSIZE a \<longrightarrow> mem (kfreed x s) a = mem s a"
  proof (intro allI impI)
    fix a
    assume "\<not> in_range x PGSIZE a"
    moreover from this have "\<not> in_range x 4 a" using in_range_4 by blast
    ultimately show "mem (kfreed x s) a = mem s a"
      by (simp add: kfreed_def store32_other fill_def)
  qed
  then show ?case
    using kfree_run [OF 3(2) s(2)] free_pages_kfreed [OF s(1) 3(2,3)] s(2)
    by (simp add: pages_avail_def)
next
  case (4 s xs x)
  then show ?case by (simp add: kstep)
next
  case (5 s xs)
  then show ?case by (simp add: pages_avail_def free_pages_def)
qed

subsection \<open>Filling the free list\<close>

fun page_seq :: "uint \<Rightarrow> nat \<Rightarrow> uint list" where
  "page_seq p 0 = []"
| "page_seq p (Suc n) = p # page_seq (p + PGSIZE) n"

lemma page_seq_from:
  "unat p + 4096 * n \<le> 2 ^ 32 \<Longrightarrow> q \<in> set (page_seq p n) \<Longrightarrow> unat p \<le> unat q"
proof (induction n arbitrary: p)
  case (Suc n)
  show ?case
  proof (cases "q = p \<or> n = 0")
    case False
    then have "unat (p + PGSIZE) = unat p + 4096"
      using Suc.prems(1) unat_add_lem [of p PGSIZE] by (cases n) (auto simp: PGSIZE_def)
    then show ?thesis using Suc.IH [of "p + PGSIZE"] Suc.prems False by simp
  qed (use Suc.prems in auto)
qed simp

lemma page_aligned_step: "unat (p + PGSIZE) = unat p + 4096 \<Longrightarrow> p mod PGSIZE = 0 \<Longrightarrow> (p + PGSIZE) mod PGSIZE = 0"
  by (rule unsigned_word_eqI) (use unat_mod [of p PGSIZE] unat_mod [of "p + PGSIZE" PGSIZE] in \<open>simp add: PGSIZE_def\<close>)

lemma V2P_below:
  assumes "0x80000000 \<le> unat p" "unat p < 0x8E000000"
  shows "V2P p < PHYSTOP"
proof -
  have "unat (V2P p) = unat p - 0x80000000"
    using assms by (simp add: V2P_def KERNBASE_def unat_sub_if_size word_size)
  then show ?thesis using assms by (simp add: PHYSTOP_def word_less_nat_alt)
qed

lemma freerange_loop_frees:
  assumes "unat vend \<le> 0x8E000000" "n = (unat vend - unat p) div 4096"
    and "0x80000000 \<le> unat p" "unat p \<le> 0x8E000000" "kend s \<le> p" "p mod PGSIZE = 0"
    and "free_pages s xs" "KmemLock \<notin> held s" "set (page_seq p n) \<inter> set xs = {}"
  shows "\<exists>s'. freerange_loop p vend s = Ok () s' \<and> free_pages s' (rev (page_seq p n) @ xs)
    \<and> held s' = held s \<and> kend s' = kend s"
  using assms
proof (induction n arbitrary: p s xs)
  case 0
  then have "\<not> p + PGSIZE \<le> vend"
    using unat_add_lem [of p PGSIZE] by (auto simp: PGSIZE_def word_le_nat_alt div_eq_0_iff)
  then show ?case using 0 by (simp add: freerange_loop.simps)
next
  case (Suc n)
  have step: "unat (p + PGSIZE) = unat p + 4096"
    using Suc.prems(4) unat_add_lem [of p PGSIZE] by (simp add: PGSIZE_def)
  have room: "unat p + 4096 \<le> unat vend" "n = (unat vend - unat (p + PGSIZE)) div 4096"
    using Suc.prems(2) le_div_geq [of 4096 "unat vend - unat p"] step
    by (cases "unat vend - unat p < 4096"; simp)+
  have ok: "page_ok s p"
    using Suc.prems(1,3,5,6) room V2P_below [of p] by (simp add: page_ok_def)
  have "unat p + 4096 + 4096 * n \<le> unat vend"
    using room step times_div_less_eq_dividend [of 4096 "unat vend - unat (p + PGSIZE)"] by linarith
  then have new: "p \<notin> set xs" "p \<notin> set (page_seq (p + PGSIZE) n)"
    using Suc.prems(1,9) page_seq_from [of "p + PGSIZE" n p] step room(1) by auto
  have "\<exists>s'. freerange_loop (p + PGSIZE) vend (kfreed p s) = Ok () s' \<and>
      free_pages s' (rev (page_seq (p + PGSIZE) n) @ p # xs) \<and> held s' = held (kfreed p s) \<and>
      kend s' = kend (kfreed p s)"
  proof (rule Suc.IH)
    show "kend (kfreed p s) \<le> p + PGSIZE" using Suc.prems(5) step by (simp add: word_le_nat_alt)
    show "free_pages (kfreed p s) (p # xs)" using Suc.prems(7) ok new(1) by (rule free_pages_kfreed)
    show "(p + PGSIZE) mod PGSIZE = 0" by (rule page_aligned_step [OF step Suc.prems(6)])
    show "unat vend \<le> 0x8E000000" by fact
    show "set (page_seq (p + PGSIZE) n) \<inter> set (p # xs) = {}" using Suc.prems(9) new(2) by auto
    show "n = (unat vend - unat (p + PGSIZE)) div 4096" by fact
  qed (use Suc.prems room step in simp_all)
  moreover have "p + PGSIZE \<le> vend" using room(1) step by (simp add: word_le_nat_alt)
  ultimately show ?case
    using kfree_run [OF ok Suc.prems(8)] by (simp add: freerange_loop.simps [of p])
qed

text \<open>
  C5: freerange over a region of physical memory above the kernel frees each whole page of the
  region exactly once, last page first, and leaves the pages already free behind them; it never
  panics and holds no lock it did not hold before.
\<close>

theorem freerange_frees_each_page:
  assumes "0x80000000 \<le> unat vstart" "unat vstart \<le> 0x8E000000" "unat vend \<le> 0x8E000000"
    and "kend s \<le> vstart" "free_pages s xs" "KmemLock \<notin> held s"
    and "n = (unat vend - unat (PGROUNDUP vstart)) div 4096"
    and "set (page_seq (PGROUNDUP vstart) n) \<inter> set xs = {}"
  shows "\<exists>s'. freerange vstart vend s = Ok () s' \<and>
    free_pages s' (rev (page_seq (PGROUNDUP vstart) n) @ xs) \<and> held s' = held s"
proof -
  have up: "unat (PGROUNDUP vstart) = (unat vstart + 4095) div 4096 * 4096"
    by (rule unat_PGROUNDUP) (use assms in simp)
  have al: "PGROUNDUP vstart mod PGSIZE = 0"
    by (rule unsigned_word_eqI) (use up unat_mod [of "PGROUNDUP vstart" PGSIZE] in \<open>simp add: PGSIZE_def\<close>)
  have "(unat vstart + 4095) div 4096 \<le> (0x8E000000 + 4095) div 4096"
    by (rule div_le_mono) (use assms(2) in simp)
  then have "unat vstart \<le> unat (PGROUNDUP vstart)" "unat (PGROUNDUP vstart) \<le> 0x8E000000"
    unfolding up by simp_all
  then show ?thesis
    using freerange_loop_frees [OF assms(3,7) _ _ _ al assms(5,6,8)] assms(1,4)
    by (auto simp: freerange_def word_le_nat_alt)
qed

text \<open>A machine with its kernel ending at 0x80112345 and an empty free list.\<close>

definition boot_kmem :: kmem where
  "boot_kmem = \<lparr>held = {}, mem = (\<lambda>_. 0), freelist = 0, use_lock = False, kend = 0x80112345\<rparr>"

lemma boot_kmem: "free_pages boot_kmem []" "kend boot_kmem = 0x80112345" "held boot_kmem = {}"
  by (simp_all add: boot_kmem_def free_pages_def)

theorem freerange_frees_each_page_witness:
  "\<exists>s'. freerange 0x80112345 0x80115000 boot_kmem = Ok () s' \<and>
    free_pages s' [0x80114000, 0x80113000] \<and> held s' = {}"
  using freerange_frees_each_page [where vstart = "0x80112345" and vend = "0x80115000" and s = boot_kmem
      and xs = "[]" and n = "Suc (Suc 0)"]
  by (simp add: boot_kmem PGROUNDUP_def PGSIZE_def)

text \<open>
  C6: the allocator is a stack of pages. With \<open>xs\<close> the free list, kalloc returns 0 exactly when no
  page is free and otherwise the page freed last, which leaves the list and is a page of physical
  memory above the kernel; memory contents do not change. kfree of any page of physical memory that
  is not already free pushes it and changes no byte outside it; kfree of any other address panics.
\<close>

theorem kalloc_kfree_stack:
  assumes "free_pages s xs" "KmemLock \<notin> held s"
  shows "(case xs of
        [] \<Rightarrow> \<exists>s'. kalloc s = Ok 0 s' \<and> free_pages s' [] \<and> mem s' = mem s
      | x # ys \<Rightarrow> \<exists>s'. kalloc s = Ok x s' \<and> x \<noteq> 0 \<and> page_ok s x \<and> x \<notin> set ys \<and>
          free_pages s' ys \<and> mem s' = mem s) \<and>
    (page_ok s v \<and> v \<notin> set xs \<longrightarrow>
      (\<exists>s'. kfree v s = Ok () s' \<and> free_pages s' (v # xs) \<and>
        (\<forall>a. \<not> in_range v PGSIZE a \<longrightarrow> mem s' a = mem s a))) \<and>
    (\<not> page_ok s v \<longrightarrow> kfree v s = Panic ''kfree'')"
proof (intro conjI impI)
  have av: "pages_avail s xs" using assms by (simp add: pages_avail_def)
  show "case xs of
      [] \<Rightarrow> \<exists>s'. kalloc s = Ok 0 s' \<and> free_pages s' [] \<and> mem s' = mem s
    | x # ys \<Rightarrow> \<exists>s'. kalloc s = Ok x s' \<and> x \<noteq> 0 \<and> page_ok s x \<and> x \<notin> set ys \<and>
        free_pages s' ys \<and> mem s' = mem s"
    using km.alloc_none [of s] km.alloc_some [of s] km.avail_distinct [OF av] av
    by (fastforce simp: pages_avail_def split: list.splits)
  show "\<exists>s'. kfree v s = Ok () s' \<and> free_pages s' (v # xs) \<and>
        (\<forall>a. \<not> in_range v PGSIZE a \<longrightarrow> mem s' a = mem s a)" if "page_ok s v \<and> v \<notin> set xs"
    using km.dealloc_ok [OF av] that by (auto simp: pages_avail_def)
  show "kfree v s = Panic ''kfree''" if "\<not> page_ok s v"
    using km.dealloc_bad [OF av that] .
qed

theorem kalloc_kfree_stack_witness:
  "kfree 0x80112345 boot_kmem = Panic ''kfree'' \<and>
   (\<exists>s'. kalloc boot_kmem = Ok 0 s') \<and>
   (\<exists>s'. kfree 0x80113000 boot_kmem = Ok () s' \<and> free_pages s' [0x80113000])"
  using kalloc_kfree_stack [where s = boot_kmem and xs = "[]" and v = "0x80113000"]
    kalloc_kfree_stack [where s = boot_kmem and xs = "[]" and v = "0x80112345"]
  by (auto simp: boot_kmem page_ok_def PGSIZE_def V2P_def KERNBASE_def PHYSTOP_def)

end
