(* ===== verification/Vm.thy ===== *)
theory Vm
  imports Kalloc
begin

text \<open>
  vm.c: page tables. A page directory and its page tables are pages of byte memory, read and
  written entry by entry with \<open>load32\<close> and \<open>store32\<close>, as the code does. \<open>translate\<close> is the
  specification: the physical address the MMU reaches for a virtual address. The lemmas show that
  walkpgdir finds the entry the MMU reads, and what mappages and uva2ka mean for \<open>translate\<close>.
  The loops are \<open>kloop\<close>s bounded by the number of pages of a 32-bit address space.
\<close>

definition PTE_P :: uint where "PTE_P = 0x001"
definition PTE_W :: uint where "PTE_W = 0x002"
definition PTE_U :: uint where "PTE_U = 0x004"
definition NPDENTRIES :: nat where "NPDENTRIES = 1024"

definition PDX :: "uint \<Rightarrow> uint" where "PDX va = drop_bit 22 va AND 0x3FF"
definition PTX :: "uint \<Rightarrow> uint" where "PTX va = drop_bit 12 va AND 0x3FF"

definition PGADDR :: "uint \<Rightarrow> uint \<Rightarrow> uint \<Rightarrow> uint" where
  "PGADDR d t off = (push_bit 22 d OR push_bit 12 t OR off)"

definition PTE_ADDR :: "uint \<Rightarrow> uint" where "PTE_ADDR pte = pte AND NOT 0xFFF"
definition PTE_FLAGS :: "uint \<Rightarrow> uint" where "PTE_FLAGS pte = pte AND 0xFFF"

text \<open>The pages of a 32-bit address space: no loop over pages runs longer.\<close>

definition NPAGES :: nat where "NPAGES = 2 ^ 20 + 1"

text \<open>Segment descriptors (mmu.h) and the segments seginit sets up.\<close>

record segdesc =
  lim_15_0 :: uint
  base_15_0 :: uint
  base_23_16 :: uint
  seg_type :: uint
  seg_s :: uint
  seg_dpl :: uint
  seg_p :: uint
  lim_19_16 :: uint
  seg_db :: uint
  seg_g :: uint
  base_31_24 :: uint

definition SEG :: "uint \<Rightarrow> uint \<Rightarrow> uint \<Rightarrow> uint \<Rightarrow> segdesc" where
  "SEG typ base lim dpl = \<lparr>lim_15_0 = drop_bit 12 lim AND 0xffff, base_15_0 = base AND 0xffff,
     base_23_16 = drop_bit 16 base AND 0xff, seg_type = typ, seg_s = 1, seg_dpl = dpl, seg_p = 1,
     lim_19_16 = drop_bit 28 lim, seg_db = 1, seg_g = 1, base_31_24 = drop_bit 24 base\<rparr>"

definition SEG16 :: "uint \<Rightarrow> uint \<Rightarrow> uint \<Rightarrow> uint \<Rightarrow> segdesc" where
  "SEG16 typ base lim dpl = \<lparr>lim_15_0 = lim AND 0xffff, base_15_0 = base AND 0xffff,
     base_23_16 = drop_bit 16 base AND 0xff, seg_type = typ, seg_s = 1, seg_dpl = dpl, seg_p = 1,
     lim_19_16 = drop_bit 16 lim, seg_db = 1, seg_g = 0, base_31_24 = drop_bit 24 base\<rparr>"

definition SEG_KCODE :: nat where "SEG_KCODE = 1"
definition SEG_KDATA :: nat where "SEG_KDATA = 2"
definition SEG_UCODE :: nat where "SEG_UCODE = 3"
definition SEG_UDATA :: nat where "SEG_UDATA = 4"
definition SEG_TSS :: nat where "SEG_TSS = 5"

text \<open>
  The state of the memory system: the linker symbol \<^verbatim>\<open>data\<close>, \<^verbatim>\<open>kpgdir\<close>, this CPU's page-table
  register, descriptor table and task state (at address \<open>ts_addr\<close>), and the console messages of
  cprintf.
\<close>

record vmst = kmem +
  kdata :: uint
  kpgdir :: uint
  cr3 :: uint
  gdt :: "nat \<Rightarrow> segdesc"
  ts_addr :: uint
  ts_esp0 :: uint
  ts_ss0 :: uint
  ts_iomb :: uint
  conslog :: "string list"

definition seginit :: "('z vmst_scheme, unit) kern" where
  "seginit =
     kseq (modify (\<lambda>s. s\<lparr>gdt := (gdt s)(SEG_KCODE := SEG (0x8 OR 0x2) 0 0xffffffff 0)\<rparr>))
     (kseq (modify (\<lambda>s. s\<lparr>gdt := (gdt s)(SEG_KDATA := SEG 0x2 0 0xffffffff 0)\<rparr>))
     (kseq (modify (\<lambda>s. s\<lparr>gdt := (gdt s)(SEG_UCODE := SEG (0x8 OR 0x2) 0 0xffffffff 3)\<rparr>))
           (modify (\<lambda>s. s\<lparr>gdt := (gdt s)(SEG_UDATA := SEG 0x2 0 0xffffffff 3)\<rparr>))))"

definition cprintf :: "string \<Rightarrow> ('z vmst_scheme, unit) kern" where
  "cprintf msg = modify (\<lambda>s. s\<lparr>conslog := conslog s @ [msg]\<rparr>)"

definition set32 :: "uint \<Rightarrow> uint \<Rightarrow> ('z kmem_scheme, unit) kern" where
  "set32 a v = modify (\<lambda>s. s\<lparr>mem := store32 a v (mem s)\<rparr>)"

definition get32 :: "uint \<Rightarrow> ('z kmem_scheme, uint) kern" where
  "get32 a = gets (\<lambda>s. load32 (mem s) a)"

definition kmemset :: "uint \<Rightarrow> cint \<Rightarrow> uint \<Rightarrow> ('z kmem_scheme, unit) kern" where
  "kmemset a c n = modify (\<lambda>s. s\<lparr>mem := memset a c n (mem s)\<rparr>)"

definition kmemmove :: "uint \<Rightarrow> uint \<Rightarrow> uint \<Rightarrow> ('z kmem_scheme, unit) kern" where
  "kmemmove d a n = modify (\<lambda>s. s\<lparr>mem := memmove d a n (mem s)\<rparr>)"

definition walkpgdir :: "uint \<Rightarrow> uint \<Rightarrow> bool \<Rightarrow> ('z kmem_scheme, uint) kern" where
  "walkpgdir pgdir va alloc =
     (let pde = pgdir + 4 * PDX va in
      kbind (get32 pde) (\<lambda>e.
      if e AND PTE_P \<noteq> 0 then ret (P2V (PTE_ADDR e) + 4 * PTX va)
      else if \<not> alloc then ret 0
      else kbind kalloc (\<lambda>pgtab.
        if pgtab = 0 then ret 0
        else kseq (kmemset pgtab 0 PGSIZE)
            (kseq (set32 pde (V2P pgtab OR PTE_P OR PTE_W OR PTE_U))
                  (ret (pgtab + 4 * PTX va))))))"

definition mappages_body ::
    "uint \<Rightarrow> uint \<Rightarrow> uint \<Rightarrow> uint \<times> uint \<Rightarrow> ('z kmem_scheme, (uint \<times> uint) + cint) kern" where
  "mappages_body pgdir lst perm = (\<lambda>(a, pa).
     kbind (walkpgdir pgdir a True) (\<lambda>pte.
     if pte = 0 then ret (Inr (-1))
     else kbind (get32 pte) (\<lambda>e.
       if e AND PTE_P \<noteq> 0 then panic ''remap''
       else kseq (set32 pte (pa OR perm OR PTE_P))
         (if a = lst then ret (Inr 0) else ret (Inl (a + PGSIZE, pa + PGSIZE))))))"

definition mappages :: "uint \<Rightarrow> uint \<Rightarrow> uint \<Rightarrow> uint \<Rightarrow> uint \<Rightarrow> ('z kmem_scheme, cint) kern" where
  "mappages pgdir va sz pa perm =
     kloop NPAGES (mappages_body pgdir (PGROUNDDOWN (va + sz - 1)) perm) (PGROUNDDOWN va, pa)"

definition deallocuvm_body :: "uint \<Rightarrow> uint \<Rightarrow> uint \<Rightarrow> uint \<Rightarrow> ('z kmem_scheme, uint + uint) kern" where
  "deallocuvm_body pgdir oldsz newsz a =
     (if \<not> a < oldsz then ret (Inr newsz)
      else kbind (walkpgdir pgdir a False) (\<lambda>pte.
        if pte = 0 then ret (Inl (PGADDR (PDX a + 1) 0 0 - PGSIZE + PGSIZE))
        else kbind (get32 pte) (\<lambda>e.
          if e AND PTE_P \<noteq> 0 then
            if PTE_ADDR e = 0 then panic ''kfree''
            else kseq (kfree (P2V (PTE_ADDR e))) (kseq (set32 pte 0) (ret (Inl (a + PGSIZE))))
          else ret (Inl (a + PGSIZE)))))"

definition deallocuvm :: "uint \<Rightarrow> uint \<Rightarrow> uint \<Rightarrow> ('z kmem_scheme, uint) kern" where
  "deallocuvm pgdir oldsz newsz =
     (if newsz \<ge> oldsz then ret oldsz
      else kloop NPAGES (deallocuvm_body pgdir oldsz newsz) (PGROUNDUP newsz))"

definition freevm_body :: "uint \<Rightarrow> nat \<Rightarrow> ('z kmem_scheme, nat + unit) kern" where
  "freevm_body pgdir i =
     (if i < NPDENTRIES then
        kbind (get32 (pgdir + 4 * of_nat i)) (\<lambda>e.
        kseq (if e AND PTE_P \<noteq> 0 then kfree (P2V (PTE_ADDR e)) else ret ())
             (ret (Inl (i + 1))))
      else ret (Inr ()))"

definition freevm :: "uint \<Rightarrow> ('z kmem_scheme, unit) kern" where
  "freevm pgdir =
     (if pgdir = 0 then panic ''freevm: no pgdir''
      else kbind (deallocuvm pgdir KERNBASE 0) (\<lambda>_.
           kseq (kloop (NPDENTRIES + 1) (freevm_body pgdir) 0)
                (kfree pgdir)))"

definition kmap :: "uint \<Rightarrow> (uint \<times> uint \<times> uint \<times> uint) list" where
  "kmap dat = [(KERNBASE, 0, EXTMEM, PTE_W), (KERNLINK, V2P KERNLINK, V2P dat, 0),
              (dat, V2P dat, PHYSTOP, PTE_W), (DEVSPACE, DEVSPACE, 0, PTE_W)]"

fun setupkvm_loop :: "uint \<Rightarrow> (uint \<times> uint \<times> uint \<times> uint) list \<Rightarrow> ('z kmem_scheme, uint) kern" where
  "setupkvm_loop pgdir [] = ret pgdir"
| "setupkvm_loop pgdir ((virt, phys_start, phys_end, perm) # ks) =
     kbind (mappages pgdir virt (phys_end - phys_start) phys_start perm) (\<lambda>r.
     if sint r < 0 then kseq (freevm pgdir) (ret 0)
     else setupkvm_loop pgdir ks)"

definition setupkvm :: "('z vmst_scheme, uint) kern" where
  "setupkvm =
     kbind kalloc (\<lambda>pgdir.
     if pgdir = 0 then ret 0
     else kseq (kmemset pgdir 0 PGSIZE)
       (if P2V PHYSTOP > DEVSPACE then panic ''PHYSTOP too high''
        else kbind (gets kdata) (\<lambda>dat. setupkvm_loop pgdir (kmap dat))))"

definition switchkvm :: "('z vmst_scheme, unit) kern" where
  "switchkvm = modify (\<lambda>s. s\<lparr>cr3 := V2P (kpgdir s)\<rparr>)"

definition kvmalloc :: "('z vmst_scheme, unit) kern" where
  "kvmalloc = kbind setupkvm (\<lambda>d. kseq (modify (\<lambda>s. s\<lparr>kpgdir := d\<rparr>)) switchkvm)"

text \<open>switchuvm, of the two fields \<^verbatim>\<open>kstack\<close> and \<^verbatim>\<open>pgdir\<close> of \<^verbatim>\<open>*p\<close> it reads (none for a null \<^verbatim>\<open>p\<close>).\<close>

definition switchuvm :: "(uint \<times> uint) option \<Rightarrow> ('z vmst_scheme, unit) kern" where
  "switchuvm p = (case p of None \<Rightarrow> panic ''switchuvm: no process'' | Some (kstk, pgd) \<Rightarrow>
      if kstk = 0 then panic ''switchuvm: no kstack''
      else if pgd = 0 then panic ''switchuvm: no pgdir''
      else
       kseq (modify (\<lambda>s. s\<lparr>gdt := (gdt s)(SEG_TSS := (SEG16 0x9 (ts_addr s) (104 - 1) 0)\<lparr>seg_s := 0\<rparr>)\<rparr>))
       (kseq (modify (\<lambda>s. s\<lparr>ts_ss0 := push_bit 3 (of_nat SEG_KDATA)\<rparr>))
       (kseq (modify (\<lambda>s. s\<lparr>ts_esp0 := kstk + 4096\<rparr>))
       (kseq (modify (\<lambda>s. s\<lparr>ts_iomb := 0xFFFF\<rparr>))
             (modify (\<lambda>s. s\<lparr>cr3 := V2P pgd\<rparr>))))))"

definition inituvm :: "uint \<Rightarrow> uint \<Rightarrow> uint \<Rightarrow> ('z vmst_scheme, unit) kern" where
  "inituvm pgdir init sz =
     (if sz \<ge> PGSIZE then panic ''inituvm: more than a page''
      else kbind kalloc (\<lambda>m.
           kseq (kmemset m 0 PGSIZE)
           (kbind (mappages pgdir 0 PGSIZE (V2P m) (PTE_W OR PTE_U)) (\<lambda>_.
            kmemmove m init sz))))"

definition allocuvm_body ::
    "uint \<Rightarrow> uint \<Rightarrow> uint \<Rightarrow> uint \<Rightarrow> ('z vmst_scheme, uint + uint) kern" where
  "allocuvm_body pgdir oldsz newsz a =
     (if \<not> a < newsz then ret (Inr newsz)
      else kbind kalloc (\<lambda>m.
        if m = 0 then
          kseq (cprintf ''allocuvm out of memory'')
          (kbind (deallocuvm pgdir newsz oldsz) (\<lambda>_. ret (Inr 0)))
        else
          kseq (kmemset m 0 PGSIZE)
          (kbind (mappages pgdir a PGSIZE (V2P m) (PTE_W OR PTE_U)) (\<lambda>r.
           if sint r < 0 then
             kseq (cprintf ''allocuvm out of memory (2)'')
             (kbind (deallocuvm pgdir newsz oldsz) (\<lambda>_.
              kseq (kfree m) (ret (Inr 0))))
           else ret (Inl (a + PGSIZE))))))"

definition allocuvm :: "uint \<Rightarrow> uint \<Rightarrow> uint \<Rightarrow> ('z vmst_scheme, uint) kern" where
  "allocuvm pgdir oldsz newsz =
     (if newsz \<ge> KERNBASE then ret 0
      else if newsz < oldsz then ret oldsz
      else kloop NPAGES (allocuvm_body pgdir oldsz newsz) (PGROUNDUP oldsz))"

definition clearpteu :: "uint \<Rightarrow> uint \<Rightarrow> ('z vmst_scheme, unit) kern" where
  "clearpteu pgdir uva =
     kbind (walkpgdir pgdir uva False) (\<lambda>pte.
     if pte = 0 then panic ''clearpteu''
     else kbind (get32 pte) (\<lambda>e. set32 pte (e AND NOT PTE_U)))"

definition copyuvm_body :: "uint \<Rightarrow> uint \<Rightarrow> uint \<Rightarrow> uint \<Rightarrow> ('z vmst_scheme, uint + uint) kern" where
  "copyuvm_body pgdir sz d i =
     (if \<not> i < sz then ret (Inr d)
      else kbind (walkpgdir pgdir i False) (\<lambda>pte.
        if pte = 0 then panic ''copyuvm: pte should exist''
        else kbind (get32 pte) (\<lambda>e.
          if e AND PTE_P = 0 then panic ''copyuvm: page not present''
          else kbind kalloc (\<lambda>m.
            if m = 0 then kseq (freevm d) (ret (Inr 0))
            else kseq (kmemmove m (P2V (PTE_ADDR e)) PGSIZE)
              (kbind (mappages d i PGSIZE (V2P m) (PTE_FLAGS e)) (\<lambda>r.
               if sint r < 0 then kseq (freevm d) (ret (Inr 0))
               else ret (Inl (i + PGSIZE))))))))"

definition copyuvm :: "uint \<Rightarrow> uint \<Rightarrow> ('z vmst_scheme, uint) kern" where
  "copyuvm pgdir sz =
     kbind setupkvm (\<lambda>d.
     if d = 0 then ret 0
     else kloop NPAGES (copyuvm_body pgdir sz d) 0)"

definition uva2ka :: "uint \<Rightarrow> uint \<Rightarrow> ('z kmem_scheme, uint) kern" where
  "uva2ka pgdir uva =
     kbind (walkpgdir pgdir uva False) (\<lambda>pte.
     kbind (get32 pte) (\<lambda>e.
     if e AND PTE_P = 0 then ret 0
     else if e AND PTE_U = 0 then ret 0
     else ret (P2V (PTE_ADDR e))))"

definition copyout_body ::
    "uint \<Rightarrow> uint \<times> uint \<times> uint \<Rightarrow> ('z kmem_scheme, (uint \<times> uint \<times> uint) + cint) kern" where
  "copyout_body pgdir = (\<lambda>(va, buf, len).
     if \<not> len > 0 then ret (Inr 0)
     else let va0 = PGROUNDDOWN va in
       kbind (uva2ka pgdir va0) (\<lambda>pa0.
       if pa0 = 0 then ret (Inr (-1))
       else let n = (if PGSIZE - (va - va0) > len then len else PGSIZE - (va - va0)) in
         kseq (kmemmove (pa0 + (va - va0)) buf n)
              (ret (Inl (va0 + PGSIZE, buf + n, len - n)))))"

definition copyout :: "uint \<Rightarrow> uint \<Rightarrow> uint \<Rightarrow> uint \<Rightarrow> ('z kmem_scheme, cint) kern" where
  "copyout pgdir va p len = kloop NPAGES (copyout_body pgdir) (va, p, len)"

subsection \<open>What the page-table operations leave alone\<close>

lemma set32_run [kstep]: "set32 a v s = Ok () (s\<lparr>mem := store32 a v (mem s)\<rparr>)"
  by (simp add: set32_def)

lemma kmemset_run [kstep]: "kmemset a c n s = Ok () (s\<lparr>mem := memset a c n (mem s)\<rparr>)"
  by (simp add: kmemset_def)

lemma kmemmove_run [kstep]: "kmemmove d a n s = Ok () (s\<lparr>mem := memmove d a n (mem s)\<rparr>)"
  by (simp add: kmemmove_def)

lemma keeps_memops [frame]:
  "keeps kmem.more (set32 a v)" "keeps kmem.more (get32 a)" "keeps kmem.more (kmemset a c n)"
  "keeps kmem.more (kmemmove d a n)" "keeps held (set32 a v)" "keeps held (get32 a)"
  "keeps held (kmemset a c n)" "keeps held (kmemmove d a n)"
  by (simp_all add: keeps_def kstep get32_def)

lemma keeps_walkpgdir [frame]: "keeps kmem.more (walkpgdir d va al)" "keeps held (walkpgdir d va al)"
  unfolding walkpgdir_def Let_def by (intro frame)+

lemma keeps_mappages [frame]: "keeps kmem.more (mappages d va n pa perm)" "keeps held (mappages d va n pa perm)"
  unfolding mappages_def mappages_body_def by (auto intro!: frame split: prod.split)

lemma keeps_deallocuvm [frame]: "keeps kmem.more (deallocuvm d a b)" "keeps held (deallocuvm d a b)"
  unfolding deallocuvm_def deallocuvm_body_def by (intro frame)+

lemma keeps_freevm [frame]: "keeps kmem.more (freevm d)" "keeps held (freevm d)"
  unfolding freevm_def freevm_body_def by (intro frame)+

lemma nosched_memops [through]:
  "nosched (set32 a v)" "nosched (get32 a)" "nosched (kmemset a c n)" "nosched (kmemmove d a n)"
  unfolding set32_def get32_def kmemset_def kmemmove_def by (intro through)+

lemma nosched_vm [through]: "nosched (walkpgdir d va al)" "nosched (deallocuvm d a b)" "nosched (freevm d)"
  unfolding freevm_def freevm_body_def deallocuvm_def deallocuvm_body_def walkpgdir_def Let_def
  by (intro through)+

subsection \<open>Entries of a page table\<close>

lemma and_3FF_less: "(x :: uint) AND 0x3FF < 0x400"
proof -
  have "x AND 0x3FF = take_bit 10 x" by (simp add: take_bit_eq_mask mask_eq_exp_minus_1)
  then show ?thesis
    using take_bit_nat_less_exp [of 10 "unat x"]
    by (simp add: word_less_nat_alt unsigned_take_bit_eq)
qed

lemma PDX_less: "PDX va < 0x400" and PTX_less: "PTX va < 0x400"
  by (simp_all only: PDX_def PTX_def and_3FF_less)

lemma unat_entry: "i < 0x400 \<Longrightarrow> unat (4 * (i :: uint)) = 4 * unat i"
  using unat_mult_lem [of 4 i] by (simp add: word_less_nat_alt)

lemma entry_offset:
  assumes "(i :: uint) < 0x400" "in_range (p + 4 * i) 4 x"
  shows "unat (x - p) = unat (x - (p + 4 * i)) + 4 * unat i" "unat (x - (p + 4 * i)) < 4"
proof -
  let ?y = "x - (p + 4 * i)"
  show y: "unat ?y < 4" using assms(2) by (simp add: in_range_def word_less_nat_alt)
  have "x - p = ?y + 4 * i" by simp
  then show "unat (x - p) = unat ?y + 4 * unat i"
    using y assms(1) unat_entry [OF assms(1)] unat_add_lem [of ?y "4 * i"]
    by (simp add: word_less_nat_alt)
qed

lemma entry_range: "i < 0x400 \<Longrightarrow> in_range (p + 4 * i) 4 x \<Longrightarrow> in_range p PGSIZE x"
  using entry_offset [of i p x] by (simp add: in_range_def PGSIZE_def word_less_nat_alt)

lemma entries_apart_same:
  assumes "i < 0x400" "j < 0x400" "i \<noteq> j"
  shows "apart (p + 4 * i) 4 (p + 4 * j) 4"
proof -
  have "unat i \<noteq> unat j" using assms(3) by (metis unsigned_word_eqI)
  then have "\<not> (in_range (p + 4 * i) 4 x \<and> in_range (p + 4 * j) 4 x)" for x
    using entry_offset [OF assms(1), of p x] entry_offset [OF assms(2), of p x] by auto
  then show ?thesis by (simp add: apart_def)
qed

lemma pages_disjoint:
  assumes "p mod PGSIZE = 0" "q mod PGSIZE = 0" "p \<noteq> q" "in_range p PGSIZE x"
  shows "\<not> in_range q PGSIZE x"
proof
  assume "in_range q PGSIZE x"
  then have "unat p div 4096 = unat q div 4096"
    using assms(4) in_page [OF assms(1), of x] in_page [OF assms(2), of x] by simp
  moreover have "unat p mod 4096 = 0" "unat q mod 4096 = 0"
    using assms(1,2) unat_mod [of p PGSIZE] unat_mod [of q PGSIZE] by (simp_all add: PGSIZE_def)
  ultimately have "unat p = unat q" by (metis add.right_neutral mult_div_mod_eq)
  then show False using assms(3) by (metis unsigned_word_eqI)
qed

lemma entries_apart:
  assumes "p mod PGSIZE = 0" "q mod PGSIZE = 0" "p \<noteq> q" "i < 0x400" "j < 0x400"
  shows "apart (p + 4 * i) 4 (q + 4 * j) 4"
  using pages_disjoint [OF assms(1-3)] entry_range [OF assms(4)] entry_range [OF assms(5)]
  unfolding apart_def by blast

lemma page_entry_apart:
  assumes "p mod PGSIZE = 0" "q mod PGSIZE = 0" "p \<noteq> q" "j < 0x400"
  shows "apart p PGSIZE (q + 4 * j) 4"
  using pages_disjoint [OF assms(1-3)] entry_range [OF assms(4)] unfolding apart_def by blast

lemma load32_fill_entry:
  assumes "j < 0x400"
  shows "load32 (fill q 0 PGSIZE m) (q + 4 * j) = 0"
proof -
  have "fill q 0 PGSIZE m x = 0" if "in_range (q + 4 * j) 4 x" for x
    using entry_range [OF assms that] by (simp add: fill_def)
  then have "load32 (fill q 0 PGSIZE m) (q + 4 * j) = load32 (\<lambda>_. 0) (q + 4 * j)"
    by (intro load32_cong) (simp add: in_range_def)
  then show ?thesis by (simp add: load32_def)
qed

lemma FFF_mask: "(0xFFF :: uint) = mask 12"
  by (simp add: mask_eq_exp_minus_1)

lemma PTE_ADDR_bit: "n < 32 \<Longrightarrow> bit (PTE_ADDR e) n \<longleftrightarrow> bit e n \<and> 12 \<le> n"
  unfolding PTE_ADDR_def FFF_mask by (auto simp: bit_simps)

lemma aligned_bit:
  assumes "p mod PGSIZE = 0" "bit p n"
  shows "12 \<le> n"
proof (rule ccontr)
  assume "\<not> 12 \<le> n"
  then have "bit (take_bit 12 p) n" using assms(2) by (simp add: bit_take_bit_iff)
  moreover have "take_bit 12 p = 0" using assms(1) by (simp add: PGSIZE_def take_bit_eq_mod)
  ultimately show False by simp
qed

lemma small_bit:
  assumes "(f :: uint) < 0x1000" "bit f n"
  shows "n < 12"
proof -
  have "take_bit 12 f = f" using assms(1) by (simp add: take_bit_eq_mod word_mod_less_divisor mod_word_less)
  then show ?thesis using assms(2) by (metis bit_take_bit_iff)
qed

lemma PTE_ADDR_or:
  assumes "p mod PGSIZE = 0" "f < 0x1000"
  shows "PTE_ADDR (p OR f) = p"
proof (rule bit_word_eqI)
  fix n assume "n < LENGTH(32)"
  then show "bit (PTE_ADDR (p OR f)) n = bit p n"
    using aligned_bit [OF assms(1), of n] small_bit [OF assms(2), of n]
    by (auto simp: PTE_ADDR_bit bit_or_iff)
qed

lemma PTE_FLAGS_or:
  assumes "p mod PGSIZE = 0" "f < 0x1000"
  shows "PTE_FLAGS (p OR f) = f"
proof (rule bit_word_eqI)
  fix n assume "n < LENGTH(32)"
  then show "bit (PTE_FLAGS (p OR f)) n = bit f n"
    using aligned_bit [OF assms(1), of n] small_bit [OF assms(2), of n]
    unfolding PTE_FLAGS_def FFF_mask by (auto simp: bit_simps)
qed

lemma aligned_iff: "p mod PGSIZE = 0 \<longleftrightarrow> 4096 dvd unat p"
proof -
  have "unat (p mod PGSIZE) = unat p mod 4096" by (simp add: unat_mod PGSIZE_def)
  then show ?thesis by (metis dvd_eq_mod_eq_0 unat_0 unsigned_word_eqI)
qed

lemma V2P_aligned: "p mod PGSIZE = 0 \<Longrightarrow> V2P p mod PGSIZE = 0"
proof -
  have "4096 dvd (0x80000000 :: nat)" "4096 dvd (2 ^ 32 :: nat)" by simp_all
  then show "p mod PGSIZE = 0 \<Longrightarrow> V2P p mod PGSIZE = 0"
    unfolding aligned_iff V2P_def KERNBASE_def
    by (simp add: unat_sub_if_size word_size dvd_diff_nat)
qed

lemma P2V_V2P [simp]: "P2V (V2P p) = p" "V2P (P2V p) = p"
  by (simp_all add: P2V_def V2P_def)


definition pte_of :: "mem \<Rightarrow> uint \<Rightarrow> uint \<Rightarrow> uint" where
  "pte_of m pgdir va =
     (let e = load32 m (pgdir + 4 * PDX va) in
      if e AND PTE_P = 0 then 0 else load32 m (P2V (PTE_ADDR e) + 4 * PTX va))"

definition translate :: "mem \<Rightarrow> uint \<Rightarrow> uint \<Rightarrow> uint option" where
  "translate m pgdir va =
     (let e = pte_of m pgdir va in if e AND PTE_P = 0 then None else Some (PTE_ADDR e OR (va AND 0xFFF)))"

definition pde_of :: "mem \<Rightarrow> uint \<Rightarrow> uint \<Rightarrow> uint" where
  "pde_of m pgdir i = load32 m (pgdir + 4 * i)"

definition table_of :: "mem \<Rightarrow> uint \<Rightarrow> uint \<Rightarrow> uint" where
  "table_of m pgdir i = P2V (PTE_ADDR (pde_of m pgdir i))"

definition has_table :: "mem \<Rightarrow> uint \<Rightarrow> uint \<Rightarrow> bool" where
  "has_table m pgdir i \<longleftrightarrow> i < 0x400 \<and> pde_of m pgdir i AND PTE_P \<noteq> 0"

definition pt_wf :: "'z kmem_scheme \<Rightarrow> uint \<Rightarrow> uint list \<Rightarrow> bool" where
  "pt_wf s pgdir xs \<longleftrightarrow> page_ok s pgdir \<and> pgdir \<notin> set xs \<and>
     (\<forall>i. has_table (mem s) pgdir i \<longrightarrow>
        page_ok s (table_of (mem s) pgdir i) \<and> table_of (mem s) pgdir i \<noteq> pgdir \<and>
        table_of (mem s) pgdir i \<notin> set xs) \<and>
     (\<forall>i j. has_table (mem s) pgdir i \<longrightarrow> has_table (mem s) pgdir j \<longrightarrow>
        table_of (mem s) pgdir i = table_of (mem s) pgdir j \<longrightarrow> i = j)"

lemma pte_of_table:
  "pte_of m pgdir va = (if has_table m pgdir (PDX va) then load32 m (table_of m pgdir (PDX va) + 4 * PTX va) else 0)"
  by (simp add: pte_of_def has_table_def table_of_def pde_of_def PDX_less Let_def)

text \<open>The memory after walkpgdir has put the fresh page \<open>p\<close> in place as a page table.\<close>

definition new_table :: "uint \<Rightarrow> uint \<Rightarrow> uint \<Rightarrow> mem \<Rightarrow> mem" where
  "new_table pgdir i p m =
     store32 (pgdir + 4 * i) (V2P p OR PTE_P OR PTE_W OR PTE_U) (fill p 0 PGSIZE m)"

lemma new_pde:
  assumes "p mod PGSIZE = 0"
  shows "(V2P p OR PTE_P OR PTE_W OR PTE_U) AND PTE_P \<noteq> 0"
    and "P2V (PTE_ADDR (V2P p OR PTE_P OR PTE_W OR PTE_U)) = p"
proof -
  have e: "V2P p OR PTE_P OR PTE_W OR PTE_U = V2P p OR 7" by (simp add: PTE_P_def PTE_W_def PTE_U_def)
  show "P2V (PTE_ADDR (V2P p OR PTE_P OR PTE_W OR PTE_U)) = p"
    unfolding e using PTE_ADDR_or [OF V2P_aligned [OF assms], of 7] by simp
  have "bit ((V2P p OR 7) AND 1) 0" by (simp add: bit_simps)
  then show "(V2P p OR PTE_P OR PTE_W OR PTE_U) AND PTE_P \<noteq> 0"
    unfolding e unfolding PTE_P_def by (metis bit_0_eq bot_apply bot_bool_def)
qed

text \<open>A page \<open>p\<close> off the free list is about to become the table of the directory slot \<open>i\<close>.\<close>

definition fresh_table :: "'z kmem_scheme \<Rightarrow> uint \<Rightarrow> uint \<Rightarrow> uint \<Rightarrow> uint list \<Rightarrow> bool" where
  "fresh_table s pgdir i p xs \<longleftrightarrow> pt_wf s pgdir (p # xs) \<and> page_ok s p \<and> i < 0x400 \<and>
     \<not> has_table (mem s) pgdir i \<and> p \<notin> set xs"

lemma fresh_tableD:
  assumes "fresh_table s pgdir i p xs"
  shows "pgdir mod PGSIZE = 0" "p mod PGSIZE = 0" "pgdir \<noteq> p" "i < 0x400"
    "\<not> has_table (mem s) pgdir i" "has_table (mem s) pgdir j \<Longrightarrow> table_of (mem s) pgdir j \<noteq> p"
    "has_table (mem s) pgdir j \<Longrightarrow> table_of (mem s) pgdir j mod PGSIZE = 0"
    "has_table (mem s) pgdir j \<Longrightarrow> table_of (mem s) pgdir j \<noteq> pgdir"
  using assms by (auto simp: fresh_table_def pt_wf_def page_ok_def)

lemma new_pde_of:
  assumes "fresh_table s pgdir i p xs" "j < 0x400"
  shows "pde_of (new_table pgdir i p (mem s)) pgdir j =
    (if j = i then V2P p OR PTE_P OR PTE_W OR PTE_U else pde_of (mem s) pgdir j)"
proof -
  note al = fresh_tableD [OF assms(1)]
  show ?thesis
    using entries_apart_same [OF al(4) assms(2), of pgdir]
      page_entry_apart [OF al(2,1) _ assms(2)] al(3)
    by (auto simp: pde_of_def new_table_def load32_store32_apart load32_fill_apart)
qed

lemma new_has_table:
  assumes "fresh_table s pgdir i p xs"
  shows "has_table (new_table pgdir i p (mem s)) pgdir j \<longleftrightarrow> j = i \<or> has_table (mem s) pgdir j"
  using fresh_tableD(2,4) [OF assms] new_pde(1) [of p] by (auto simp: has_table_def new_pde_of [OF assms] split: if_splits)

lemma new_table_of:
  assumes "fresh_table s pgdir i p xs" "j < 0x400"
  shows "table_of (new_table pgdir i p (mem s)) pgdir j = (if j = i then p else table_of (mem s) pgdir j)"
  using fresh_tableD(2) [OF assms(1)] new_pde(2) [of p] by (simp add: table_of_def new_pde_of [OF assms])

lemma new_entry_other:
  assumes "fresh_table s pgdir i p xs" "has_table (mem s) pgdir j" "k < 0x400"
  shows "load32 (new_table pgdir i p (mem s)) (table_of (mem s) pgdir j + 4 * k)
    = load32 (mem s) (table_of (mem s) pgdir j + 4 * k)"
proof -
  note al = fresh_tableD [OF assms(1)]
  show ?thesis
    using entries_apart [OF al(1) al(7) [OF assms(2)] _ al(4) assms(3)] al(8) [OF assms(2)]
      page_entry_apart [OF al(2) al(7) [OF assms(2)] _ assms(3)] al(6) [OF assms(2)]
    by (auto simp: new_table_def load32_store32_apart load32_fill_apart)
qed

lemma new_entry_zero:
  assumes "fresh_table s pgdir i p xs" "k < 0x400"
  shows "load32 (new_table pgdir i p (mem s)) (p + 4 * k) = 0"
proof -
  note al = fresh_tableD [OF assms(1)]
  show ?thesis
    using entries_apart [OF al(1,2,3,4) assms(2)] load32_fill_entry [OF assms(2)]
    by (simp add: new_table_def load32_store32_apart)
qed

text \<open>A fresh table maps nothing: every page-table entry reads as before.\<close>

lemma new_table_pte:
  assumes "fresh_table s pgdir i p xs"
  shows "pte_of (new_table pgdir i p (mem s)) pgdir va = pte_of (mem s) pgdir va"
proof (cases "PDX va = i")
  case True
  then show ?thesis
    using new_entry_zero [OF assms PTX_less] fresh_tableD(4,5) [OF assms]
    by (simp add: pte_of_table new_has_table [OF assms] new_table_of [OF assms])
next
  case False
  then show ?thesis
    using new_entry_other [OF assms _ PTX_less]
    by (simp add: pte_of_table new_has_table [OF assms] new_table_of [OF assms PDX_less])
qed

lemma new_table_wf:
  assumes "fresh_table s pgdir i p xs"
  shows "pt_wf (s\<lparr>freelist := f, mem := new_table pgdir i p (mem s)\<rparr>) pgdir xs"
proof -
  have lt: "has_table (mem s) pgdir j \<Longrightarrow> j < 0x400" for j by (simp add: has_table_def)
  have ok: "page_ok (s\<lparr>freelist := f, mem := m\<rparr>) = page_ok s" for m
    by (simp add: page_ok_def fun_eq_iff)
  note nt = new_table_of [OF assms]
  show ?thesis
    using assms lt unfolding pt_wf_def ok fresh_table_def
    by (auto simp: new_has_table [OF assms] nt)
qed

lemma walkpgdir_present:
  "has_table (mem s) pgdir (PDX va) \<Longrightarrow>
    walkpgdir pgdir va alloc s = Ok (table_of (mem s) pgdir (PDX va) + 4 * PTX va) s"
  by (simp add: walkpgdir_def has_table_def table_of_def pde_of_def get32_def kstep Let_def)

lemma walkpgdir_absent:
  "\<not> has_table (mem s) pgdir (PDX va) \<Longrightarrow> walkpgdir pgdir va False s = Ok 0 s"
  using PDX_less [of va]
  by (simp add: walkpgdir_def has_table_def table_of_def pde_of_def get32_def kstep Let_def)

lemma walkpgdir_no_memory:
  assumes "\<not> has_table (mem s) pgdir (PDX va)" "free_pages s []" "KmemLock \<notin> held s"
  shows "walkpgdir pgdir va True s = Ok 0 (kalloced s)"
  using assms PDX_less [of va]
  by (simp add: walkpgdir_def has_table_def pde_of_def get32_def kstep Let_def free_pages_def)

lemma walkpgdir_alloc:
  assumes "\<not> has_table (mem s) pgdir (PDX va)" "free_pages s (p # xs)" "KmemLock \<notin> held s"
  shows "walkpgdir pgdir va True s =
    Ok (p + 4 * PTX va) (kalloced s\<lparr>mem := new_table pgdir (PDX va) p (mem s)\<rparr>)"
  using assms PDX_less [of va] free_pages_hd [OF assms(2)]
  by (simp add: walkpgdir_def has_table_def pde_of_def get32_def kstep Let_def
      kmemset_def set32_def memset_fill new_table_def)

subsection \<open>Writing one entry\<close>

lemma unat_PDX: "unat (PDX va) = unat va div 4096 div 1024"
proof -
  have "PDX va = take_bit 10 (drop_bit 22 va)"
    by (simp add: PDX_def take_bit_eq_mask mask_eq_exp_minus_1)
  then have "unat (PDX va) = take_bit 10 (drop_bit 22 (unat va))"
    by (simp only: unsigned_take_bit_eq unsigned_drop_bit_eq) (simp add: take_bit_nat_eq_self [OF unat32_less])
  moreover have "unat va div 4194304 < 1024"
    using unat32_less [of va] by (intro less_mult_imp_div_less) simp
  ultimately show ?thesis
    by (simp add: take_bit_eq_mod drop_bit_eq_div div_mult2_eq [symmetric])
qed

lemma unat_PTX: "unat (PTX va) = unat va div 4096 mod 1024"
proof -
  have "PTX va = take_bit 10 (drop_bit 12 va)"
    by (simp add: PTX_def take_bit_eq_mask mask_eq_exp_minus_1)
  then have "unat (PTX va) = take_bit 10 (drop_bit 12 (unat va))"
    by (simp only: unsigned_take_bit_eq unsigned_drop_bit_eq) (simp add: take_bit_nat_eq_self [OF unat32_less])
  then show ?thesis by (simp add: take_bit_eq_mod drop_bit_eq_div)
qed

lemma same_entry: "PDX va = PDX vb \<and> PTX va = PTX vb \<longleftrightarrow> PGROUNDDOWN va = PGROUNDDOWN vb"
proof -
  have "PDX va = PDX vb \<and> PTX va = PTX vb \<longleftrightarrow> unat (PDX va) = unat (PDX vb) \<and> unat (PTX va) = unat (PTX vb)"
    by (metis unsigned_word_eqI)
  also have "\<dots> \<longleftrightarrow> unat va div 4096 = unat vb div 4096"
    unfolding unat_PDX unat_PTX by (metis div_mult_mod_eq)
  also have "\<dots> \<longleftrightarrow> unat (PGROUNDDOWN va) = unat (PGROUNDDOWN vb)" by (simp add: unat_PGROUNDDOWN)
  also have "\<dots> \<longleftrightarrow> PGROUNDDOWN va = PGROUNDDOWN vb" by (metis unsigned_word_eqI)
  finally show ?thesis .
qed

lemma PGROUNDDOWN_aligned: "PGROUNDDOWN a mod PGSIZE = 0"
  by (simp add: aligned_iff unat_PGROUNDDOWN)

lemma PGROUNDDOWN_id: "a mod PGSIZE = 0 \<Longrightarrow> PGROUNDDOWN a = a"
  by (rule unat32_eqI) (simp add: aligned_iff unat_PGROUNDDOWN dvd_eq_mod_eq_0)

definition set_pte :: "uint \<Rightarrow> uint \<Rightarrow> uint \<Rightarrow> mem \<Rightarrow> mem" where
  "set_pte pgdir va e m = store32 (table_of m pgdir (PDX va) + 4 * PTX va) e m"

lemma set_pte_tables:
  assumes "pt_wf s pgdir xs" "has_table (mem s) pgdir (PDX va)" "j < 0x400"
  shows "pde_of (set_pte pgdir va e (mem s)) pgdir j = pde_of (mem s) pgdir j"
proof -
  have "table_of (mem s) pgdir (PDX va) mod PGSIZE = 0" "pgdir mod PGSIZE = 0"
    "table_of (mem s) pgdir (PDX va) \<noteq> pgdir"
    using assms(1,2) by (auto simp: pt_wf_def page_ok_def)
  then show ?thesis
    using entries_apart [OF _ _ _ PTX_less assms(3)]
    by (simp add: pde_of_def set_pte_def load32_store32_apart)
qed

lemma set_pte_has_table:
  assumes "pt_wf s pgdir xs" "has_table (mem s) pgdir (PDX va)"
  shows "has_table (set_pte pgdir va e (mem s)) pgdir j = has_table (mem s) pgdir j"
    "j < 0x400 \<Longrightarrow> table_of (set_pte pgdir va e (mem s)) pgdir j = table_of (mem s) pgdir j"
  using set_pte_tables [OF assms] by (auto simp: has_table_def table_of_def)

lemma set_pte_pte_of:
  assumes "pt_wf s pgdir xs" "has_table (mem s) pgdir (PDX va)"
  shows "pte_of (set_pte pgdir va e (mem s)) pgdir vb =
    (if PGROUNDDOWN vb = PGROUNDDOWN va then e else pte_of (mem s) pgdir vb)"
proof (cases "has_table (mem s) pgdir (PDX vb)")
  case True
  let ?t = "table_of (mem s) pgdir"
  have al: "?t (PDX va) mod PGSIZE = 0" "?t (PDX vb) mod PGSIZE = 0"
    and inj: "?t (PDX va) = ?t (PDX vb) \<Longrightarrow> PDX va = PDX vb"
    using assms True by (auto simp: pt_wf_def page_ok_def)
  have "load32 (set_pte pgdir va e (mem s)) (?t (PDX vb) + 4 * PTX vb) =
    (if PDX va = PDX vb \<and> PTX va = PTX vb then e else load32 (mem s) (?t (PDX vb) + 4 * PTX vb))"
  proof (cases "PDX va = PDX vb")
    case True
    then show ?thesis
      using entries_apart_same [OF PTX_less PTX_less, of va vb "?t (PDX vb)"]
      by (simp add: set_pte_def load32_store32_apart)
  next
    case False
    then have "?t (PDX va) \<noteq> ?t (PDX vb)" using inj by blast
    then show ?thesis
      using entries_apart [OF al _ PTX_less PTX_less, of va vb] False
      by (simp add: set_pte_def load32_store32_apart)
  qed
  then show ?thesis
    using True assms set_pte_has_table [OF assms] PDX_less same_entry [of va vb] by (auto simp: pte_of_table)
next
  case False
  then have "PDX va \<noteq> PDX vb" using assms(2) by auto
  then show ?thesis using False set_pte_has_table [OF assms] same_entry [of va vb] by (auto simp: pte_of_table)
qed

lemma set_pte_wf:
  assumes "pt_wf s pgdir xs" "has_table (mem s) pgdir (PDX va)"
  shows "pt_wf (s\<lparr>mem := set_pte pgdir va e (mem s)\<rparr>) pgdir xs"
proof -
  have lt: "has_table (mem s) pgdir j \<Longrightarrow> j < 0x400" for j by (simp add: has_table_def)
  have ok: "page_ok (s\<lparr>mem := m\<rparr>) = page_ok s" for m by (simp add: page_ok_def fun_eq_iff)
  note nt = set_pte_has_table [OF assms]
  show ?thesis using assms(1) lt unfolding pt_wf_def ok by (auto simp: nt)
qed

text \<open>Writing to a page that is not free leaves the free list alone.\<close>

lemma free_pages_mem:
  assumes "free_pages s xs" "\<And>x. x \<in> set xs \<Longrightarrow> load32 m x = load32 (mem s) x"
  shows "free_pages (s\<lparr>mem := m\<rparr>) xs"
  using assms page_list_cong [of xs m "mem s" "freelist s"] by (simp add: free_pages_def page_ok_def)

lemma free_pages_set_pte:
  assumes "pt_wf s pgdir xs" "has_table (mem s) pgdir (PDX va)" "free_pages s xs"
  shows "free_pages (s\<lparr>mem := set_pte pgdir va e (mem s)\<rparr>) xs"
proof (rule free_pages_mem [OF assms(3)])
  fix x assume x: "x \<in> set xs"
  have "table_of (mem s) pgdir (PDX va) mod PGSIZE = 0" "x mod PGSIZE = 0"
    "table_of (mem s) pgdir (PDX va) \<noteq> x"
    using assms x by (auto simp: pt_wf_def page_ok_def free_pages_def)
  then show "load32 (set_pte pgdir va e (mem s)) x = load32 (mem s) x"
    using entries_apart [OF _ _ _ PTX_less, of _ x 0] by (simp add: set_pte_def load32_store32_apart)
qed

lemma free_pages_new_table:
  assumes "fresh_table s pgdir i p xs" "free_pages s (p # xs)"
  shows "free_pages (kalloced s\<lparr>mem := new_table pgdir i p (mem s)\<rparr>) xs"
proof (rule free_pages_mem [OF free_pages_kalloced [OF assms(2)]])
  fix x assume x: "x \<in> set xs"
  note al = fresh_tableD [OF assms(1)]
  have px: "x mod PGSIZE = 0" "pgdir \<noteq> x" "p \<noteq> x"
    using assms x by (auto simp: fresh_table_def pt_wf_def page_ok_def free_pages_def)
  show "load32 (new_table pgdir i p (mem s)) x = load32 (mem (kalloced s)) x"
    using entries_apart [OF al(1) px(1,2) al(4), of 0] page_entry_apart [OF al(2) px(1,3), of 0]
    by (simp add: new_table_def load32_store32_apart load32_fill_apart)
qed

lemma entry_nonzero:
  assumes "page_ok s t" "k < 0x400"
  shows "t + 4 * k \<noteq> 0"
proof -
  have "unat (t + 4 * k) = unat t + 4 * unat k"
    using page_range [of t] assms unat_add_lem [of t "4 * k"] unat_entry [OF assms(2)]
    by (simp add: page_ok_def word_less_nat_alt)
  moreover have "unat t \<noteq> 0" using page_nonzero [OF assms(1)] by (simp add: unat_eq_zero)
  ultimately show ?thesis by auto
qed

text \<open>
  The page tables and the free list of a state, and what they map: the facts that every
  operation on a page table keeps.
\<close>

definition pt_state :: "'z kmem_scheme \<Rightarrow> uint \<Rightarrow> uint list \<Rightarrow> bool" where
  "pt_state s pgdir xs \<longleftrightarrow> free_pages s xs \<and> KmemLock \<notin> held s \<and> pt_wf s pgdir xs"

lemma walkpgdir_found:
  assumes "pt_state s pgdir xs" "has_table (mem s) pgdir (PDX a)"
  shows "\<exists>pte. walkpgdir pgdir a alloc s = Ok pte s \<and> pte \<noteq> 0 \<and> load32 (mem s) pte = pte_of (mem s) pgdir a \<and>
    store32 pte e (mem s) = set_pte pgdir a e (mem s)"
  using assms entry_nonzero [OF _ PTX_less, of s "table_of (mem s) pgdir (PDX a)" a]
  by (auto simp: pt_state_def pt_wf_def walkpgdir_present pte_of_table set_pte_def)

lemma walkpgdir_makes_table:
  assumes st: "pt_state s pgdir xs" and room: "has_table (mem s) pgdir (PDX a) \<or> xs \<noteq> []"
  shows "\<exists>pte s' ys. walkpgdir pgdir a True s = Ok pte s' \<and> pte \<noteq> 0 \<and> pt_state s' pgdir ys \<and>
    has_table (mem s') pgdir (PDX a) \<and> set ys \<subseteq> set xs \<and> held s' = held s \<and> page_ok s' = page_ok s \<and>
    pte_of (mem s') pgdir = pte_of (mem s) pgdir \<and> load32 (mem s') pte = pte_of (mem s) pgdir a \<and>
    store32 pte e (mem s') = set_pte pgdir a e (mem s')"
proof (cases "has_table (mem s) pgdir (PDX a)")
  case True
  then show ?thesis using walkpgdir_found [OF st True, of True e] st by blast
next
  case False
  then obtain p ys where xs: "xs = p # ys" using room by (cases xs) auto
  let ?s = "kalloced s\<lparr>mem := new_table pgdir (PDX a) p (mem s)\<rparr>"
  have fr: "fresh_table s pgdir (PDX a) p ys"
    using st False PDX_less [of a] by (auto simp: xs fresh_table_def pt_state_def free_pages_def)
  have st': "pt_state ?s pgdir ys"
    using st free_pages_new_table [OF fr] new_table_wf [OF fr, of "freelist (kalloced s)"]
    by (simp add: xs pt_state_def kalloced_def split del: if_split)
  have tab: "has_table (mem ?s) pgdir (PDX a)" "table_of (mem ?s) pgdir (PDX a) = p"
    using new_has_table [OF fr] new_table_of [OF fr PDX_less] by simp_all
  have "page_ok s p" using fr by (simp add: fresh_table_def)
  then have "p + 4 * PTX a \<noteq> 0" by (rule entry_nonzero [OF _ PTX_less])
  moreover have "walkpgdir pgdir a True s = Ok (p + 4 * PTX a) ?s"
    using walkpgdir_alloc [OF False, of p ys] st by (simp add: xs pt_state_def)
  moreover have "pte_of (mem ?s) pgdir = pte_of (mem s) pgdir" using new_table_pte [OF fr] by auto
  moreover have "page_ok ?s = page_ok s" by (simp add: page_ok_def fun_eq_iff)
  ultimately show ?thesis
    using st' tab False new_entry_zero [OF fr PTX_less] by (intro exI [of _ "p + 4 * PTX a"] exI [of _ ?s] exI [of _ ys])
      (auto simp: pte_of_table set_pte_def xs)
qed

lemma pt_state_set_pte:
  assumes "pt_state s pgdir xs" "has_table (mem s) pgdir (PDX va)"
  shows "pt_state (s\<lparr>mem := set_pte pgdir va e (mem s)\<rparr>) pgdir xs"
  using assms free_pages_set_pte [of s pgdir xs va e] set_pte_wf [of s pgdir xs va e] by (simp add: pt_state_def)

subsection \<open>mappages\<close>

lemma mappages_full:
  assumes "pt_state s pgdir []" "\<not> has_table (mem s) pgdir (PDX a)"
  shows "mappages_body pgdir lst perm (a, pa) s = Ok (Inr (-1)) (kalloced s)"
  using walkpgdir_no_memory [OF assms(2)] assms(1) by (simp add: mappages_body_def kstep pt_state_def)

lemma mappages_step:
  assumes st: "pt_state s pgdir xs" and room: "has_table (mem s) pgdir (PDX a) \<or> xs \<noteq> []"
    and free: "pte_of (mem s) pgdir a AND PTE_P = 0"
  shows "\<exists>s' ys. mappages_body pgdir lst perm (a, pa) s =
      Ok (if a = lst then Inr 0 else Inl (a + PGSIZE, pa + PGSIZE)) s' \<and>
    pt_state s' pgdir ys \<and> set ys \<subseteq> set xs \<and> held s' = held s \<and> page_ok s' = page_ok s \<and>
    (\<forall>vb. pte_of (mem s') pgdir vb =
      (if PGROUNDDOWN vb = PGROUNDDOWN a then pa OR perm OR PTE_P else pte_of (mem s) pgdir vb))"
proof -
  let ?e = "pa OR perm OR PTE_P"
  obtain pte s1 ys where w: "walkpgdir pgdir a True s = Ok pte s1" "pte \<noteq> 0" "pt_state s1 pgdir ys"
    "has_table (mem s1) pgdir (PDX a)" "set ys \<subseteq> set xs" "held s1 = held s" "page_ok s1 = page_ok s"
    "pte_of (mem s1) pgdir = pte_of (mem s) pgdir" "load32 (mem s1) pte = pte_of (mem s) pgdir a"
    "store32 pte ?e (mem s1) = set_pte pgdir a ?e (mem s1)"
    using walkpgdir_makes_table [OF st room, of ?e] by blast
  let ?s = "s1\<lparr>mem := set_pte pgdir a ?e (mem s1)\<rparr>"
  have "mappages_body pgdir lst perm (a, pa) s =
      Ok (if a = lst then Inr 0 else Inl (a + PGSIZE, pa + PGSIZE)) ?s"
    using w free by (simp add: mappages_body_def kstep get32_def set32_def)
  moreover have "page_ok ?s = page_ok s" using w(7) by (simp add: page_ok_def fun_eq_iff)
  moreover have "pt_wf s1 pgdir ys" using w(3) by (simp add: pt_state_def)
  ultimately show ?thesis
    using pt_state_set_pte [OF w(3,4), of ?e] w(5,6,8) set_pte_pte_of [OF _ w(4), of ys ?e]
    by (intro exI [of _ ?s] exI [of _ ys]) simp
qed

text \<open>Page addresses in order.\<close>

lemma round_lt_step:
  assumes "a mod PGSIZE = 0" "lst mod PGSIZE = 0" "a < lst"
  shows "unat (a + PGSIZE) = unat a + 4096" "(a + PGSIZE) mod PGSIZE = 0" "a + PGSIZE \<le> lst"
    and "PGROUNDDOWN vb < a + PGSIZE \<longleftrightarrow> PGROUNDDOWN vb < a \<or> PGROUNDDOWN vb = a"
proof -
  obtain i j where ij: "unat a = 4096 * i" "unat lst = 4096 * j"
    using assms(1,2) unfolding aligned_iff dvd_def by blast
  have "unat a < unat lst" using assms(3) by (simp add: word_less_nat_alt)
  then have "4096 * Suc i \<le> 4096 * j" unfolding ij by (intro mult_le_mono2) simp
  then have le: "unat a + 4096 \<le> unat lst" unfolding ij by simp
  then show st: "unat (a + PGSIZE) = unat a + 4096"
    using unat_add_lem [of a PGSIZE] unat32_less [of lst] by (simp add: PGSIZE_def)
  show "(a + PGSIZE) mod PGSIZE = 0" by (rule page_aligned_step [OF st assms(1)])
  show "a + PGSIZE \<le> lst" using le st by (simp add: word_le_nat_alt)
  have "4096 * k < 4096 * i + 4096 \<longleftrightarrow> 4096 * k < 4096 * i \<or> k = i" for k :: nat by auto
  from this [of "unat vb div 4096"]
  show "PGROUNDDOWN vb < a + PGSIZE \<longleftrightarrow> PGROUNDDOWN vb < a \<or> PGROUNDDOWN vb = a"
    using st ij(1) unat32_eqI [of "PGROUNDDOWN vb" a]
    by (auto simp: word_less_nat_alt unat_PGROUNDDOWN mult.commute)
qed

definition mapped_upto :: "'z kmem_scheme \<Rightarrow> uint \<Rightarrow> uint \<Rightarrow> uint \<Rightarrow> uint \<Rightarrow> uint \<Rightarrow> mem \<Rightarrow> bool" where
  "mapped_upto s pgdir a0 pa perm a m \<longleftrightarrow>
     (\<forall>vb. pte_of m pgdir vb =
       (if a0 \<le> PGROUNDDOWN vb \<and> PGROUNDDOWN vb < a
        then (pa + (PGROUNDDOWN vb - a0)) OR perm OR PTE_P else pte_of (mem s) pgdir vb))"

text \<open>What mappages has reached when its loop variable is \<open>a\<close>.\<close>

definition mapping_at :: "'z kmem_scheme \<Rightarrow> uint \<Rightarrow> uint \<Rightarrow> uint \<Rightarrow> uint \<Rightarrow> uint \<Rightarrow> uint \<times> uint \<Rightarrow> 'z kmem_scheme \<Rightarrow> bool" where
  "mapping_at s pgdir a0 lst pa0 perm = (\<lambda>(a, pa) s'.
     a mod PGSIZE = 0 \<and> a0 \<le> a \<and> a \<le> lst \<and> pa = pa0 + (a - a0) \<and> held s' = held s \<and>
     page_ok s' = page_ok s \<and> (\<exists>ys. pt_state s' pgdir ys) \<and> mapped_upto s pgdir a0 pa0 perm a (mem s'))"

definition mapping_result :: "'z kmem_scheme \<Rightarrow> uint \<Rightarrow> uint \<Rightarrow> uint \<Rightarrow> uint \<Rightarrow> uint \<Rightarrow> cint \<Rightarrow> 'z kmem_scheme \<Rightarrow> bool" where
  "mapping_result s pgdir a0 lst pa0 perm r s' \<longleftrightarrow> held s' = held s \<and> page_ok s' = page_ok s \<and>
     (r = 0 \<and> (\<exists>ys. pt_state s' pgdir ys) \<and>
        (\<forall>vb. pte_of (mem s') pgdir vb =
          (if a0 \<le> PGROUNDDOWN vb \<and> PGROUNDDOWN vb \<le> lst
           then (pa0 + (PGROUNDDOWN vb - a0)) OR perm OR PTE_P else pte_of (mem s) pgdir vb)) \<or>
      r = -1 \<and> pt_state s' pgdir [] \<and>
        (\<exists>a. a \<le> lst \<and> mapped_upto s pgdir a0 pa0 perm a (mem s')))"

lemma mappages_body_inv:
  assumes I: "mapping_at s pgdir a0 lst pa0 perm v t"
    and lst: "lst mod PGSIZE = 0"
    and free: "\<And>vb. a0 \<le> PGROUNDDOWN vb \<Longrightarrow> PGROUNDDOWN vb \<le> lst \<Longrightarrow> pte_of (mem s) pgdir vb AND PTE_P = 0"
  shows "(\<exists>v' t'. mappages_body pgdir lst perm v t = Ok (Inl v') t' \<and> mapping_at s pgdir a0 lst pa0 perm v' t' \<and>
      unat (lst - fst v') div 4096 < unat (lst - fst v) div 4096) \<or>
    (\<exists>r t'. mappages_body pgdir lst perm v t = Ok (Inr r) t' \<and> mapping_result s pgdir a0 lst pa0 perm r t')"
proof -
  obtain a pa where v: "v = (a, pa)" by (cases v)
  obtain ys where i: "a mod PGSIZE = 0" "a0 \<le> a" "a \<le> lst" "pa = pa0 + (a - a0)" "held t = held s"
    "page_ok t = page_ok s" "pt_state t pgdir ys" "mapped_upto s pgdir a0 pa0 perm a (mem t)"
    using I by (auto simp: mapping_at_def v)
  have ra: "PGROUNDDOWN a = a" by (rule PGROUNDDOWN_id [OF i(1)])
  have fa: "pte_of (mem t) pgdir a AND PTE_P = 0"
    using i(8) free [of a] i(2,3) by (simp add: mapped_upto_def ra)
  show ?thesis
  proof (cases "has_table (mem t) pgdir (PDX a) \<or> ys \<noteq> []")
    case False
    then have "mappages_body pgdir lst perm v t = Ok (Inr (-1)) (kalloced t)"
      using mappages_full [of t pgdir a lst perm pa] i(7) by (simp add: v)
    moreover have "pt_state (kalloced t) pgdir []"
      using i(7) False by (simp add: pt_state_def free_pages_def kalloced_def pt_wf_def page_ok_def)
    ultimately show ?thesis using i by (auto simp: mapping_result_def)
  next
    case True
    obtain t' zs where b: "mappages_body pgdir lst perm (a, pa) t =
          Ok (if a = lst then Inr 0 else Inl (a + PGSIZE, pa + PGSIZE)) t'"
      "pt_state t' pgdir zs" "held t' = held t" "page_ok t' = page_ok t"
      "\<forall>vb. pte_of (mem t') pgdir vb =
        (if PGROUNDDOWN vb = a then pa OR perm OR PTE_P else pte_of (mem t) pgdir vb)"
      using mappages_step [OF i(7) True fa, of lst perm pa] unfolding ra by blast
    show ?thesis
    proof (cases "a = lst")
      case True
      have "PGROUNDDOWN vb \<le> lst \<longleftrightarrow> PGROUNDDOWN vb < lst \<or> PGROUNDDOWN vb = lst" for vb
        by (rule le_less)
      then have "mapping_result s pgdir a0 lst pa0 perm 0 t'"
        using b i True by (auto simp: mapping_result_def mapped_upto_def)
      then show ?thesis using b(1) True by (auto simp: v)
    next
      case False
      then have al: "a < lst" using i(3) by simp
      note st = round_lt_step [OF i(1) lst al]
      have "a0 \<le> a + PGSIZE" using i(2) st(1) by (simp add: word_le_nat_alt)
      moreover have "mapped_upto s pgdir a0 pa0 perm (a + PGSIZE) (mem t')"
        using b(5) i(2,4,8) by (auto simp: mapped_upto_def st(4))
      ultimately have "mapping_at s pgdir a0 lst pa0 perm (a + PGSIZE, pa + PGSIZE) t'"
        using b i st(2,3) by (auto simp: mapping_at_def)
      moreover have "unat (lst - (a + PGSIZE)) div 4096 < unat (lst - a) div 4096"
        using st(1,3) i(3) le_div_geq [of 4096 "unat lst - unat a"] by (simp add: unat_sub word_le_nat_alt)
      ultimately show ?thesis using b(1) False by (auto simp: v)
    qed
  qed
qed

text \<open>
  C7: mappages over a range of unmapped pages of a well-formed page table never panics and always
  returns. On success exactly the pages of the range have an entry for the next page of physical
  memory with the given permissions, every other address translates as before, and page tables and
  free list stay well formed; on failure the free list is exhausted and a prefix of the range is mapped.
\<close>

theorem mappages_maps_range:
  assumes "pt_state s pgdir xs" "PGROUNDDOWN va \<le> PGROUNDDOWN (va + sz - 1)"
    and "\<And>vb. PGROUNDDOWN va \<le> PGROUNDDOWN vb \<Longrightarrow> PGROUNDDOWN vb \<le> PGROUNDDOWN (va + sz - 1) \<Longrightarrow>
      pte_of (mem s) pgdir vb AND PTE_P = 0"
  shows "\<exists>r s'. mappages pgdir va sz pa perm s = Ok r s' \<and>
    mapping_result s pgdir (PGROUNDDOWN va) (PGROUNDDOWN (va + sz - 1)) pa perm r s'"
proof -
  let ?a = "PGROUNDDOWN va" and ?lst = "PGROUNDDOWN (va + sz - 1)"
  have I: "mapping_at s pgdir ?a ?lst pa perm (?a, pa) s"
    using assms(1,2) PGROUNDDOWN_aligned [of va] by (auto simp: mapping_at_def mapped_upto_def)
  have "unat (?lst - ?a) div 4096 < 2 ^ 20"
    using unat32_less [of "?lst - ?a"] by (intro less_mult_imp_div_less) simp
  then have m: "(\<lambda>v. unat (?lst - fst v) div 4096) (?a, pa) < NPAGES" by (simp add: NPAGES_def)
  show ?thesis unfolding mappages_def
    by (rule kloop_rule [where I = "mapping_at s pgdir ?a ?lst pa perm"
          and m = "\<lambda>v. unat (?lst - fst v) div 4096", OF I m])
      (rule mappages_body_inv [OF _ PGROUNDDOWN_aligned assms(3)])
qed

definition map_demo :: kmem where
  "map_demo = boot_kmem\<lparr>freelist := 0x80114000\<rparr>"

lemma map_demo: "pt_state map_demo 0x80113000 [0x80114000]" "pte_of (mem map_demo) 0x80113000 va = 0"
  by (simp_all add: map_demo_def boot_kmem_def pt_state_def pt_wf_def free_pages_def page_ok_def
      has_table_def pde_of_def load32_def PGSIZE_def V2P_def KERNBASE_def PHYSTOP_def pte_of_table)

theorem mappages_maps_range_witness:
  "\<exists>r s'. mappages 0x80113000 0x1000 0x1000 0x115000 6 map_demo = Ok r s' \<and>
    mapping_result map_demo 0x80113000 0x1000 0x1000 0x115000 6 r s'"
  using mappages_maps_range [OF map_demo(1), of "0x1000" "0x1000" "0x115000" 6]
  by (simp add: map_demo(2) PGROUNDDOWN_def PGSIZE_def)

end
