(* ===== verification/Proc.thy ===== *)
theory Proc
  imports Vm
begin

text \<open>
  proc.c: the process table and everything that runs under \<^verbatim>\<open>ptable.lock\<close>: allocation of a
  slot, sleep and wakeup, kill, wait, the end of exit, and the scheduler. A process is an index
  into the table; a wait channel is the object whose address the code passes to sleep.

  sched hands the CPU over: its outcome is \<open>Sched\<close> with the state at the switch. What the
  process does when it is resumed is the text after sched (\<open>sleep_exit\<close>, the release in yield).
\<close>

datatype procstate = UNUSED | EMBRYO | SLEEPING | RUNNABLE | RUNNING | ZOMBIE

datatype chan =
    ChNull
  | ChTicks           \<comment> \<open>\<^verbatim>\<open>&ticks\<close>\<close>
  | ChProc nat        \<comment> \<open>a slot of the process table, in wait\<close>
  | ChLog             \<comment> \<open>\<^verbatim>\<open>&log\<close>\<close>
  | ChInput           \<comment> \<open>\<^verbatim>\<open>&input.r\<close>\<close>
  | ChBuf nat         \<comment> \<open>a disk buffer\<close>
  | ChSleeplk lockid  \<comment> \<open>a sleep lock, by the spin lock inside it\<close>
  | ChPipeR uint      \<comment> \<open>\<^verbatim>\<open>&p->nread\<close> of the pipe at an address\<close>
  | ChPipeW uint      \<comment> \<open>\<^verbatim>\<open>&p->nwrite\<close>\<close>

record proc =
  p_start_ticks :: uint
  p_sz :: uint
  p_pgdir :: uint
  p_kstack :: uint
  p_state :: procstate
  p_pid :: uint
  p_parent :: "nat option"
  p_tf :: uint
  p_context :: uint
  p_chan :: chan
  p_killed :: bool
  p_ofile :: "nat option list"
  p_cwd :: "nat option"
  p_name :: "byte list"

text \<open>
  \<open>cproc\<close> is \<^verbatim>\<open>c->proc\<close> of every CPU and \<open>cpu_me\<close> the CPU that executes; \<open>a_trapret\<close> and
  \<open>a_forkret\<close> are the addresses of the two routines a new kernel stack returns through.
\<close>

record ptab = vmst +
  procs :: "proc list"
  nextpid :: uint
  initproc :: "nat option"
  cproc :: "nat option list"
  cpu_me :: nat
  ticks :: uint
  a_trapret :: uint
  a_forkret :: uint

definition KSTACKSIZE :: uint where "KSTACKSIZE = 4096"

text \<open>Sizes and field offsets of \<^verbatim>\<open>struct trapframe\<close> and \<^verbatim>\<open>struct context\<close>.\<close>

definition sizeof_tf :: uint where "sizeof_tf = 76"
definition sizeof_context :: uint where "sizeof_context = 20"
definition tf_eax :: uint where "tf_eax = 28"
definition tf_es :: uint where "tf_es = 40"
definition tf_ds :: uint where "tf_ds = 44"
definition tf_trapno :: uint where "tf_trapno = 48"
definition tf_eip :: uint where "tf_eip = 56"
definition tf_cs :: uint where "tf_cs = 60"
definition tf_eflags :: uint where "tf_eflags = 64"
definition tf_esp :: uint where "tf_esp = 68"
definition tf_ss :: uint where "tf_ss = 72"
definition context_eip :: uint where "context_eip = 16"

definition myproc :: "'z ptab_scheme \<Rightarrow> nat option" where
  "myproc s = cproc s ! cpu_me s"

definition curproc :: "'z ptab_scheme \<Rightarrow> nat" where
  "curproc s = the (myproc s)"

definition proc_at :: "'z ptab_scheme \<Rightarrow> nat \<Rightarrow> proc" where
  "proc_at s i = procs s ! i"

definition updp :: "nat \<Rightarrow> (proc \<Rightarrow> proc) \<Rightarrow> ('z ptab_scheme, unit) kern" where
  "updp i f = modify (\<lambda>s. s\<lparr>procs := upd_nth i f (procs s)\<rparr>)"

definition allocproc :: "('z ptab_scheme, nat option) kern" where
  "allocproc =
     kseq (acquire PtableLock)
     (kbind (gets (\<lambda>s. find_slot (\<lambda>p. p_state p = UNUSED) (procs s))) (\<lambda>found.
      case found of
        None \<Rightarrow> kseq (release PtableLock) (ret None)
      | Some p \<Rightarrow>
          kseq (updp p (p_state_update (\<lambda>_. EMBRYO)))
          (kseq (\<lambda>s. updp p (p_pid_update (\<lambda>_. nextpid s)) s)
          (kseq (modify (\<lambda>s. s\<lparr>nextpid := nextpid s + 1\<rparr>))
          (kseq (release PtableLock)
          (kbind kalloc (\<lambda>k.
           kseq (updp p (p_kstack_update (\<lambda>_. k)))
           (if k = 0 then kseq (updp p (p_state_update (\<lambda>_. UNUSED))) (ret None)
            else
              let sp = k + KSTACKSIZE - sizeof_tf; sp2 = sp - 4; sp3 = sp2 - sizeof_context in
              kseq (updp p (p_tf_update (\<lambda>_. sp)))
              (kseq (\<lambda>s. set32 sp2 (a_trapret s) s)
              (kseq (updp p (p_context_update (\<lambda>_. sp3)))
              (kseq (kmemset sp3 0 sizeof_context)
              (kseq (\<lambda>s. set32 (sp3 + context_eip) (a_forkret s) s)
              (kseq (\<lambda>s. updp p (p_start_ticks_update (\<lambda>_. ticks s)) s)
                    (ret (Some p)))))))))))))))"

definition sched :: "('z ptab_scheme, unit) kern" where
  "sched =
     kif (\<lambda>s. PtableLock \<notin> held s) (panic ''sched ptable.lock'')
     (kif (\<lambda>s. card (held s) \<noteq> 1) (panic ''sched locks'')
     (kif (\<lambda>s. p_state (proc_at s (curproc s)) = RUNNING) (panic ''sched running'')
     (kif (\<lambda>s. held s = {}) (panic ''sched interruptible'')
      (\<lambda>s. Sched s))))"

definition yield :: "('z ptab_scheme, unit) kern" where
  "yield =
     kseq (acquire PtableLock)
     (kseq (\<lambda>s. updp (curproc s) (p_state_update (\<lambda>_. RUNNABLE)) s)
     (kseq sched
           (release PtableLock)))"

text \<open>sleep up to its call of sched, and from there to its end; \<open>None\<close> is a null \<^verbatim>\<open>lk\<close>.\<close>

definition sleep_enter :: "chan \<Rightarrow> lockid option \<Rightarrow> ('z ptab_scheme, unit) kern" where
  "sleep_enter ch lk =
     kif (\<lambda>s. myproc s = None) (panic ''sleep'')
     (kseq (if lk \<noteq> Some PtableLock
            then kseq (acquire PtableLock) (case lk of None \<Rightarrow> ret () | Some l \<Rightarrow> release l)
            else ret ())
     (kseq (\<lambda>s. updp (curproc s) (p_chan_update (\<lambda>_. ch)) s)
           (\<lambda>s. updp (curproc s) (p_state_update (\<lambda>_. SLEEPING)) s)))"

definition sleep_exit :: "lockid option \<Rightarrow> ('z ptab_scheme, unit) kern" where
  "sleep_exit lk =
     kseq (\<lambda>s. updp (curproc s) (p_chan_update (\<lambda>_. ChNull)) s)
     (if lk \<noteq> Some PtableLock
      then kseq (release PtableLock) (case lk of None \<Rightarrow> ret () | Some l \<Rightarrow> acquire l)
      else ret ())"

definition sleep :: "chan \<Rightarrow> lockid option \<Rightarrow> ('z ptab_scheme, unit) kern" where
  "sleep ch lk = kseq (sleep_enter ch lk) (kseq sched (sleep_exit lk))"

definition wake :: "chan \<Rightarrow> proc \<Rightarrow> proc" where
  "wake ch p = (if p_state p = SLEEPING \<and> p_chan p = ch then p\<lparr>p_state := RUNNABLE\<rparr> else p)"

definition wakeup1 :: "chan \<Rightarrow> ('z ptab_scheme, unit) kern" where
  "wakeup1 ch = kfor (\<lambda>i. updp i (wake ch)) [0..<NPROC]"

definition wakeup :: "chan \<Rightarrow> ('z ptab_scheme, unit) kern" where
  "wakeup ch = kseq (acquire PtableLock) (kseq (wakeup1 ch) (release PtableLock))"

definition kill :: "uint \<Rightarrow> ('z ptab_scheme, cint) kern" where
  "kill pid =
     kseq (acquire PtableLock)
     (kbind (gets (\<lambda>s. find_slot (\<lambda>p. p_pid p = pid) (procs s))) (\<lambda>r.
      case r of
        Some p \<Rightarrow>
          kseq (updp p (p_killed_update (\<lambda>_. True)))
          (kseq (kwhen (\<lambda>s. p_state (proc_at s p) = SLEEPING) (updp p (p_state_update (\<lambda>_. RUNNABLE))))
          (kseq (release PtableLock) (ret 0)))
      | None \<Rightarrow> kseq (release PtableLock) (ret (-1))))"

text \<open>wait: the body of its outer loop; \<open>Inl\<close> when it is about to sleep.\<close>

definition reap :: "nat \<Rightarrow> ('z ptab_scheme, uint) kern" where
  "reap p =
     kbind (gets (\<lambda>s. p_pid (proc_at s p))) (\<lambda>pid.
     kseq (\<lambda>s. kfree (p_kstack (proc_at s p)) s)
     (kseq (updp p (p_kstack_update (\<lambda>_. 0)))
     (kseq (\<lambda>s. freevm (p_pgdir (proc_at s p)) s)
     (kseq (updp p (\<lambda>q. q\<lparr>p_pid := 0, p_parent := None, p_name := (p_name q)[0 := 0], p_killed := False,
                          p_state := UNUSED\<rparr>))
     (kseq (release PtableLock)
           (ret pid))))))"

definition wait_scan :: "('z ptab_scheme, unit + cint) kern" where
  "wait_scan =
     (\<lambda>s. let me = curproc s in
      case find_slot (\<lambda>p. p_parent p = Some me \<and> p_state p = ZOMBIE) (procs s) of
        Some p \<Rightarrow> kbind (reap p) (\<lambda>pid. ret (Inr pid)) s
      | None \<Rightarrow>
          if find_slot (\<lambda>p. p_parent p = Some me) (procs s) = None \<or> p_killed (proc_at s me)
          then kseq (release PtableLock) (ret (Inr (-1))) s
          else Ok (Inl ()) s)"

definition wait_resume :: "('z ptab_scheme, unit + cint) kern" where
  "wait_resume = kseq (sleep_exit (Some PtableLock)) wait_scan"

definition wait :: "('z ptab_scheme, cint) kern" where
  "wait =
     kseq (acquire PtableLock)
     (kbind wait_scan (\<lambda>r.
      case r of Inr x \<Rightarrow> ret x
      | Inl _ \<Rightarrow> (\<lambda>s. kseq (sleep (ChProc (curproc s)) (Some PtableLock)) (ret 0) s)))"

text \<open>exit from its acquire of \<^verbatim>\<open>ptable.lock\<close> on; the files are closed before (Life.thy).\<close>

definition abandon :: "nat \<Rightarrow> ('z ptab_scheme, unit) kern" where
  "abandon i =
     kwhen (\<lambda>s. p_parent (proc_at s i) = Some (curproc s))
       (kseq (\<lambda>s. updp i (p_parent_update (\<lambda>_. initproc s)) s)
        (kwhen (\<lambda>s. p_state (proc_at s i) = ZOMBIE)
           (\<lambda>s. wakeup1 (case initproc s of None \<Rightarrow> ChNull | Some j \<Rightarrow> ChProc j) s)))"

definition exit_finish :: "('z ptab_scheme, unit) kern" where
  "exit_finish =
     kseq (acquire PtableLock)
     (kseq (\<lambda>s. wakeup1 (case p_parent (proc_at s (curproc s)) of None \<Rightarrow> ChNull | Some j \<Rightarrow> ChProc j) s)
     (kseq (kfor abandon [0..<NPROC])
     (kseq (\<lambda>s. updp (curproc s) (\<lambda>p. p\<lparr>p_state := ZOMBIE\<rparr>) s)
     (kseq (\<lambda>s. updp (curproc s) (\<lambda>p. p\<lparr>p_sz := 0\<rparr>) s)
     (kseq sched
           (panic ''zombie exit''))))))"

text \<open>
  The parts of fork and userinit that touch the table: giving up a slot when memory runs out,
  copying the parent into it, and letting the scheduler see it.
\<close>

definition fork_abort :: "nat \<Rightarrow> ('z ptab_scheme, unit) kern" where
  "fork_abort np =
     kseq (\<lambda>s. kfree (p_kstack (proc_at s np)) s)
     (kseq (updp np (p_kstack_update (\<lambda>_. 0)))
           (updp np (p_state_update (\<lambda>_. UNUSED))))"

definition fork_inherit :: "nat \<Rightarrow> ('z ptab_scheme, unit) kern" where
  "fork_inherit np =
     kseq (\<lambda>s. updp np (p_sz_update (\<lambda>_. p_sz (proc_at s (curproc s)))) s)
     (kseq (\<lambda>s. updp np (p_parent_update (\<lambda>_. Some (curproc s))) s)
     (kseq (\<lambda>s. kmemmove (p_tf (proc_at s np)) (p_tf (proc_at s (curproc s))) sizeof_tf s)
           (\<lambda>s. set32 (p_tf (proc_at s np) + tf_eax) 0 s)))"

definition set_runnable :: "nat \<Rightarrow> ('z ptab_scheme, unit) kern" where
  "set_runnable np =
     kseq (acquire PtableLock) (kseq (updp np (p_state_update (\<lambda>_. RUNNABLE))) (release PtableLock))"

text \<open>
  The scheduler. \<open>run i\<close> is what happens between swtch and the return to the scheduler: process
  \<open>i\<close> runs, with \<^verbatim>\<open>ptable.lock\<close> held at both ends. The local variable is \<^verbatim>\<open>idle\<close>.
\<close>

definition sched_pick :: "nat \<Rightarrow> ('z ptab_scheme, unit) kern" where
  "sched_pick i =
     kseq (modify (\<lambda>s. s\<lparr>cproc := (cproc s)[cpu_me s := Some i]\<rparr>))
     (kseq (\<lambda>s. switchuvm (Some (p_kstack (proc_at s i), p_pgdir (proc_at s i))) s)
           (updp i (p_state_update (\<lambda>_. RUNNING))))"

definition sched_back :: "('z ptab_scheme, unit) kern" where
  "sched_back = kseq switchkvm (modify (\<lambda>s. s\<lparr>cproc := (cproc s)[cpu_me s := None]\<rparr>))"

definition sched_slot ::
    "(nat \<Rightarrow> ('z ptab_scheme, unit) kern) \<Rightarrow> nat \<Rightarrow> bool \<Rightarrow> ('z ptab_scheme, bool) kern" where
  "sched_slot run i idle =
     kif (\<lambda>s. p_state (proc_at s i) \<noteq> RUNNABLE) (ret idle)
       (kseq (sched_pick i) (kseq (run i) (kseq sched_back (ret False))))"

definition scheduler_pass :: "(nat \<Rightarrow> ('z ptab_scheme, unit) kern) \<Rightarrow> ('z ptab_scheme, bool) kern" where
  "scheduler_pass run =
     kseq (acquire PtableLock)
     (kbind (kfold (sched_slot run) [0..<NPROC] True) (\<lambda>idle.
      kseq (release PtableLock) (ret idle)))"

text \<open>scheduler: \<open>c->proc = 0\<close>, then passes for ever; the argument bounds the passes followed.\<close>

definition scheduler :: "nat \<Rightarrow> (nat \<Rightarrow> ('z ptab_scheme, unit) kern) \<Rightarrow> ('z ptab_scheme, unit) kern" where
  "scheduler n run =
     kseq (modify (\<lambda>s. s\<lparr>cproc := (cproc s)[cpu_me s := None]\<rparr>))
          (kloop n (\<lambda>_. kbind (scheduler_pass run) (\<lambda>idle. ret (Inl ()))) ())"


subsection \<open>Closed forms\<close>

lemma updp_run [kstep]: "updp i f s = Ok () (s\<lparr>procs := upd_nth i f (procs s)\<rparr>)"
  by (simp add: updp_def)

lemma kfor_append: "kfor f (us @ vs) s = kseq (kfor f us) (kfor f vs) s"
  by (induction us arbitrary: s) (auto simp: kseq_def kbind_def split: outcome.split)

lemma kfor_upto_update:
  "n \<le> length (procs s) \<Longrightarrow>
    kfor (\<lambda>i. updp i f) [0..<n] s = Ok () (s\<lparr>procs := map f (take n (procs s)) @ drop n (procs s)\<rparr>)"
proof (induction n)
  case (Suc n)
  then have n: "n < length (procs s)" by simp
  have "upd_nth n f (map f (take n (procs s)) @ drop n (procs s)) =
      map f (take (Suc n) (procs s)) @ drop (Suc n) (procs s)"
    using n by (simp add: upd_nth_def nth_append list_update_append take_Suc_conv_app_nth
        Cons_nth_drop_Suc [symmetric])
  then show ?case using Suc.IH n by (simp add: kfor_append kstep)
qed simp

definition table_ok :: "'z ptab_scheme \<Rightarrow> bool" where
  "table_ok s \<longleftrightarrow> length (procs s) = NPROC"

lemma wakeup1_run [kstep]:
  "table_ok s \<Longrightarrow> wakeup1 ch s = Ok () (s\<lparr>procs := map (wake ch) (procs s)\<rparr>)"
  using kfor_upto_update [of NPROC s "wake ch"] by (simp add: wakeup1_def table_ok_def)

lemma wakeup_run [kstep]:
  assumes "table_ok s" "PtableLock \<notin> held s"
  shows "wakeup ch s = Ok () (s\<lparr>procs := map (wake ch) (procs s)\<rparr>)"
  using assms by (simp add: wakeup_def kstep table_ok_def)

lemma sched_run [kstep]:
  "held s = {PtableLock} \<Longrightarrow> p_state (proc_at s (curproc s)) \<noteq> RUNNING \<Longrightarrow> sched s = Sched s"
  by (simp add: sched_def kstep)

lemma sched_panics [kstep]:
  "held s \<noteq> {PtableLock} \<Longrightarrow> PtableLock \<in> held s \<Longrightarrow> finite (held s) \<Longrightarrow> sched s = Panic ''sched locks''"
  by (auto simp: sched_def kif_def card_1_singleton_iff)

lemma wake_same [simp]: "p_pid (wake ch p) = p_pid p" "p_parent (wake ch p) = p_parent p"
  "p_chan (wake ch p) = p_chan p" "p_killed (wake ch p) = p_killed p"
  "p_state (wake ch p) = ZOMBIE \<longleftrightarrow> p_state p = ZOMBIE" "p_state (wake ch p) = UNUSED \<longleftrightarrow> p_state p = UNUSED"
  "p_state (wake ch p) = RUNNING \<longleftrightarrow> p_state p = RUNNING" "p_state (wake ch p) = EMBRYO \<longleftrightarrow> p_state p = EMBRYO"
  "p_state p = RUNNABLE \<Longrightarrow> p_state (wake ch p) = RUNNABLE"
  by (simp_all add: wake_def)


lemma kmem_more_fields:
  fixes s s' :: "'z ptab_scheme"
  assumes "kmem.more s' = kmem.more s"
  shows "procs s' = procs s" "cproc s' = cproc s" "initproc s' = initproc s" "nextpid s' = nextpid s"
    "cpu_me s' = cpu_me s" "conslog s' = conslog s"
  using assms by (cases s; cases s'; simp)+

lemma allocproc_full:
  "find_slot (\<lambda>p. p_state p = UNUSED) (procs s) = None \<Longrightarrow> PtableLock \<notin> held s \<Longrightarrow> allocproc s = Ok None s"
  by (simp add: allocproc_def kstep)

lemma allocproc_slot:
  assumes "find_slot (\<lambda>p. p_state p = UNUSED) (procs s) = Some i" "PtableLock \<notin> held s" "KmemLock \<notin> held s"
  shows "\<exists>r s' q. allocproc s = Ok r s' \<and> held s' = held s \<and> cproc s' = cproc s \<and> initproc s' = initproc s \<and>
    cpu_me s' = cpu_me s \<and> nextpid s' = nextpid s + 1 \<and> procs s' = (procs s)[i := q] \<and>
    p_pid q = nextpid s \<and> p_parent q = p_parent (procs s ! i) \<and> p_killed q = p_killed (procs s ! i) \<and>
    (if freelist s = 0 then r = None \<and> p_state q = UNUSED
     else r = Some i \<and> p_state q = EMBRYO \<and> p_kstack q = freelist s)"
proof -
  have i: "i < length (procs s)" using find_slot_bound [OF assms(1)] .
  show ?thesis
    using assms i
    by (cases "freelist s = 0") (simp_all add: allocproc_def kstep kalloced_def Let_def upd_nth_def,
      (rule exI, rule conjI, rule refl, simp)+)
qed


definition killed :: "proc \<Rightarrow> proc" where
  "killed p = p\<lparr>p_killed := True, p_state := (if p_state p = SLEEPING then RUNNABLE else p_state p)\<rparr>"

lemma kill_run [kstep]:
  assumes "PtableLock \<notin> held s"
  shows "kill pid s = (case find_slot (\<lambda>p. p_pid p = pid) (procs s) of
      None \<Rightarrow> Ok (-1) s | Some i \<Rightarrow> Ok 0 (s\<lparr>procs := upd_nth i killed (procs s)\<rparr>))"
proof (cases "find_slot (\<lambda>p. p_pid p = pid) (procs s)")
  case (Some i)
  have i: "i < length (procs s)" using find_slot_bound [OF Some] .
  show ?thesis
    using assms Some i
    by (cases "p_state (procs s ! i) = SLEEPING")
      (simp_all add: kill_def kstep proc_at_def upd_nth_def killed_def)
qed (use assms in \<open>simp add: kill_def kstep\<close>)

text \<open>The process that runs on this CPU.\<close>

definition runs :: "'z ptab_scheme \<Rightarrow> nat \<Rightarrow> bool" where
  "runs s i \<longleftrightarrow> myproc s = Some i \<and> i < length (procs s)"

lemma runsD: "runs s i \<Longrightarrow> curproc s = i" "runs s i \<Longrightarrow> i < length (procs s)" "runs s i \<Longrightarrow> myproc s = Some i"
  by (auto simp: runs_def curproc_def)

lemma myproc_upd [simp]:
  "myproc (s\<lparr>held := h\<rparr>) = myproc s" "myproc (s\<lparr>procs := ps\<rparr>) = myproc s"
  "curproc (s\<lparr>held := h\<rparr>) = curproc s" "curproc (s\<lparr>procs := ps\<rparr>) = curproc s"
  by (simp_all add: myproc_def curproc_def)

lemma yield_run:
  assumes "runs s i" "held s = {}"
  shows "yield s = Sched (s\<lparr>held := {PtableLock}, procs := upd_nth i (p_state_update (\<lambda>_. RUNNABLE)) (procs s)\<rparr>)"
  using assms runsD [OF assms(1)] by (simp add: yield_def kstep proc_at_def)

definition asleep :: "chan \<Rightarrow> proc \<Rightarrow> proc" where
  "asleep ch p = p\<lparr>p_chan := ch, p_state := SLEEPING\<rparr>"

lemma sleep_enter_run:
  assumes "runs s i" "lk \<in> held s" "PtableLock \<notin> held s"
  shows "sleep_enter ch (Some lk) s =
    Ok () (s\<lparr>held := insert PtableLock (held s) - {lk}, procs := upd_nth i (asleep ch) (procs s)\<rparr>)"
proof -
  have c: "(p_state_update (\<lambda>_. SLEEPING)) \<circ> (p_chan_update (\<lambda>_. ch)) = asleep ch"
    by (simp add: fun_eq_iff asleep_def)
  have "lk \<noteq> PtableLock" using assms by auto
  then show ?thesis
    using assms runsD [OF assms(1)] by (simp add: sleep_enter_def kstep c)
qed

lemma sleep_run:
  assumes "runs s i" "held s = {lk}"
  shows "sleep ch (Some lk) s = Sched (s\<lparr>held := {PtableLock}, procs := upd_nth i (asleep ch) (procs s)\<rparr>)"
proof (cases "lk = PtableLock")
  case True
  have c: "(p_state_update (\<lambda>_. SLEEPING)) \<circ> (p_chan_update (\<lambda>_. ch)) = asleep ch"
    by (simp add: fun_eq_iff asleep_def)
  show ?thesis
    using True assms runsD [OF assms(1)] c by (simp add: sleep_def sleep_enter_def kstep proc_at_def asleep_def)
next
  case False
  then have "insert PtableLock (held s) - {lk} = {PtableLock}" using assms(2) by auto
  then show ?thesis
    using sleep_enter_run [OF assms(1), of lk ch] assms(2) False runsD [OF assms(1)]
    by (simp add: sleep_def kstep proc_at_def asleep_def)
qed

lemma sleep_two_locks:
  assumes "runs s i" "lk \<in> held s" "held s \<noteq> {lk}" "finite (held s)" "PtableLock \<notin> held s"
  shows "sleep ch (Some lk) s = Panic ''sched locks''"
proof -
  define h where "h = insert PtableLock (held s) - {lk}"
  obtain x where x: "x \<in> held s" "x \<noteq> lk" using assms(2,3) by blast
  have "lk \<noteq> PtableLock" "x \<noteq> PtableLock" using assms(2,5) x(1) by metis+
  then have h: "h \<noteq> {PtableLock}" "PtableLock \<in> h" "finite h"
    using x assms(4) unfolding h_def by (blast, simp, simp)
  show ?thesis
    using sleep_enter_run [OF assms(1,2,5), of ch, folded h_def] h by (simp add: sleep_def kstep)
qed


definition reaped :: "proc \<Rightarrow> proc" where
  "reaped q = q\<lparr>p_kstack := 0, p_pid := 0, p_parent := None, p_name := (p_name q)[0 := 0], p_killed := False, p_state := UNUSED\<rparr>"

lemma reap_Ok:
  assumes "reap p s = Ok pid s'" "p < length (procs s)"
  shows "pid = p_pid (procs s ! p)" "procs s' = upd_nth p reaped (procs s)"
    "held s' = held s - {PtableLock}" "PtableLock \<in> held s" "cproc s' = cproc s" "initproc s' = initproc s"
    "nextpid s' = nextpid s" "cpu_me s' = cpu_me s"
proof -
  let ?k = "p_kstack (proc_at s p)" and ?f = "\<lambda>q. q\<lparr>p_pid := 0, p_parent := None, p_name := (p_name q)[0 := 0], p_killed := False, p_state := UNUSED\<rparr>"
  obtain s1 s2 where 1: "kfree ?k s = Ok () s1"
    and 2: "freevm (p_pgdir (proc_at (s1\<lparr>procs := upd_nth p (p_kstack_update (\<lambda>_. 0)) (procs s1)\<rparr>) p))
      (s1\<lparr>procs := upd_nth p (p_kstack_update (\<lambda>_. 0)) (procs s1)\<rparr>) = Ok () s2"
    and 3: "release PtableLock (s2\<lparr>procs := upd_nth p ?f (procs s2)\<rparr>) = Ok () s'"
    and 4: "pid = p_pid (proc_at s p)"
    using assms(1) by (auto simp: reap_def kbind_eq_Ok kseq_eq_Ok updp_def)
  note m1 = kmem_more_fields [OF keepsD [OF keeps_kmem(2) 1]] keepsD [OF keeps_kmem(4) 1]
  note m2 = kmem_more_fields [OF keepsD [OF keeps_freevm(1) 2]] keepsD [OF keeps_freevm(2) 2]
  have e: "?f \<circ> p_kstack_update (\<lambda>_. 0) = reaped" by (simp add: fun_eq_iff reaped_def)
  show "pid = p_pid (procs s ! p)" using 4 by (simp add: proc_at_def)
  show "procs s' = upd_nth p reaped (procs s)" "held s' = held s - {PtableLock}" "PtableLock \<in> held s"
    "cproc s' = cproc s" "initproc s' = initproc s" "nextpid s' = nextpid s" "cpu_me s' = cpu_me s"
    using 3 m1 m2 assms(2) e by (auto simp: release_def split: if_splits)
qed

lemma wait_scan_cases:
  assumes "wait_scan s = Ok r s'" "runs s i"
  shows "case r of
      Inl _ \<Rightarrow> s' = s \<and> (\<exists>q\<in>set (procs s). p_parent q = Some i) \<and>
        (\<forall>q\<in>set (procs s). p_parent q = Some i \<longrightarrow> p_state q \<noteq> ZOMBIE) \<and> \<not> p_killed (procs s ! i)
    | Inr x \<Rightarrow> (\<exists>p<length (procs s). p_parent (procs s ! p) = Some i \<and> p_state (procs s ! p) = ZOMBIE \<and>
          reap p s = Ok x s') \<or>
        x = -1 \<and> s' = s\<lparr>held := held s - {PtableLock}\<rparr> \<and> PtableLock \<in> held s \<and>
        (\<forall>q\<in>set (procs s). p_parent q = Some i \<longrightarrow> p_state q \<noteq> ZOMBIE) \<and>
        ((\<forall>q\<in>set (procs s). p_parent q \<noteq> Some i) \<or> p_killed (procs s ! i))"
proof (cases "find_slot (\<lambda>p. p_parent p = Some i \<and> p_state p = ZOMBIE) (procs s)")
  case None
  then have nz: "\<forall>q\<in>set (procs s). p_parent q = Some i \<longrightarrow> p_state q \<noteq> ZOMBIE"
    by (auto simp: find_slot_None)
  have w: "wait_scan s = (if (\<forall>q\<in>set (procs s). p_parent q \<noteq> Some i) \<or> p_killed (procs s ! i)
      then kseq (release PtableLock) (ret (Inr (-1))) s else Ok (Inl ()) s)"
    using None runsD(1) [OF assms(2)]
    by (simp add: wait_scan_def Let_def proc_at_def find_slot_None [symmetric])
  show ?thesis
    using assms(1) nz unfolding w
    by (auto simp: kseq_def kbind_def release_def split: if_splits)
next
  case (Some p)
  then have "p < length (procs s)" "p_parent (procs s ! p) = Some i" "p_state (procs s ! p) = ZOMBIE"
    by (simp_all add: find_slot_Some)
  then show ?thesis
    using Some assms runsD(1) [OF assms(2)] by (auto simp: wait_scan_def kbind_eq_Ok)
qed


subsection \<open>exit\<close>

definition chan_of :: "nat option \<Rightarrow> chan" where
  "chan_of p = (case p of None \<Rightarrow> ChNull | Some j \<Rightarrow> ChProc j)"

definition adopt :: "nat option \<Rightarrow> nat \<Rightarrow> proc \<Rightarrow> proc" where
  "adopt ip i p = (if p_parent p = Some i then p\<lparr>p_parent := ip\<rparr> else p)"

text \<open>
  The table after the slots \<open>us\<close> have been passed to init: init is woken exactly if a zombie child
  was among them.
\<close>

definition init_wake :: "nat \<Rightarrow> nat list \<Rightarrow> 'z ptab_scheme \<Rightarrow> proc \<Rightarrow> proc" where
  "init_wake i us s = (if \<exists>u\<in>set us. p_parent (procs s ! u) = Some i \<and> p_state (procs s ! u) = ZOMBIE
     then wake (chan_of (initproc s)) else id)"

definition abandoned :: "nat \<Rightarrow> nat list \<Rightarrow> 'z ptab_scheme \<Rightarrow> 'z ptab_scheme" where
  "abandoned i us s = s\<lparr>procs := map (\<lambda>j. init_wake i us s
     (if j \<in> set us then adopt (initproc s) i (procs s ! j) else procs s ! j)) [0..<NPROC]\<rparr>"

lemma wake_wake [simp]: "wake ch (wake ch p) = wake ch p"
  by (simp add: wake_def)

lemma wake_adopt: "wake ch (adopt ip i p) = adopt ip i (wake ch p)"
  by (auto simp: wake_def adopt_def)

lemma adopt_same [simp]: "p_state (adopt ip i p) = p_state p" "p_pid (adopt ip i p) = p_pid p"
  "p_chan (adopt ip i p) = p_chan p" "p_killed (adopt ip i p) = p_killed p"
  by (simp_all add: adopt_def)

lemma abandon_step:
  assumes "v < NPROC" "v \<notin> set us" "runs s i"
  shows "abandon v (abandoned i us s) = Ok () (abandoned i (us @ [v]) s)"
proof -
  let ?W = "init_wake i us s" and ?c = "chan_of (initproc s)" and ?s = "abandoned i us s"
  let ?q = "\<lambda>W. map (\<lambda>j. W (if j \<in> set (us @ [v]) then adopt (initproc s) i (procs s ! j) else procs s ! j)) [0..<NPROC]"
  have wp: "p_parent (?W p) = p_parent p" "p_state (?W p) = ZOMBIE \<longleftrightarrow> p_state p = ZOMBIE"
    "?W (adopt (initproc s) i p) = adopt (initproc s) i (?W p)" "(?W p)\<lparr>p_parent := x\<rparr> = ?W (p\<lparr>p_parent := x\<rparr>)"
    "wake ?c (?W p) = wake ?c p" for p x
    by (auto simp: init_wake_def wake_adopt) (auto simp: wake_def)
  have v: "procs ?s ! v = ?W (procs s ! v)" using assms(1,2) by (simp add: abandoned_def)
  have cur: "curproc ?s = i" using runsD(1) [OF assms(3)] by (simp add: abandoned_def curproc_def myproc_def)
  have next_W: "abandoned i (us @ [v]) s = s\<lparr>procs := ?q (init_wake i (us @ [v]) s)\<rparr>"
    by (simp add: abandoned_def)
  have ps: "?s\<lparr>procs := x\<rparr> = s\<lparr>procs := x\<rparr>" "initproc ?s = initproc s" for x by (simp_all add: abandoned_def)
  show ?thesis
  proof (cases "p_parent (procs s ! v) = Some i")
    case False
    then have "init_wake i (us @ [v]) s = ?W" by (simp add: init_wake_def)
    moreover have "procs ?s = ?q ?W" using False by (auto simp: abandoned_def adopt_def)
    ultimately have "abandoned i (us @ [v]) s = ?s" unfolding next_W by (simp add: abandoned_def)
    then show ?thesis using False cur v wp(1) by (simp add: abandon_def kstep proc_at_def)
  next
    case True
    have q: "upd_nth v (p_parent_update (\<lambda>_. initproc s)) (procs ?s) = ?q ?W"
      using assms(1,2) True by (intro nth_equalityI) (auto simp: abandoned_def wp(4) adopt_def)
    show ?thesis
    proof (cases "p_state (procs s ! v) = ZOMBIE")
      case False
      then have "init_wake i (us @ [v]) s = ?W" by (simp add: init_wake_def)
      moreover have "p_state (?q ?W ! v) \<noteq> ZOMBIE" using False assms(1) wp(2) by simp
      ultimately show ?thesis unfolding next_W
        using True cur v wp(1) q assms(1) by (simp add: abandon_def kstep proc_at_def ps)
    next
      case zom: True
      then have "init_wake i (us @ [v]) s = wake ?c" using True by (simp add: init_wake_def)
      moreover have z: "p_state (?q ?W ! v) = ZOMBIE" using zom assms(1) wp by simp
      moreover have "map (wake ?c) (?q ?W) = ?q (wake ?c)" by (simp add: wp(5))
      moreover have "table_ok (s\<lparr>procs := ?q ?W\<rparr>)" by (simp add: table_ok_def)
      ultimately show ?thesis unfolding next_W
        using True cur v wp(1) q assms(1)
        by (simp add: abandon_def kstep proc_at_def ps chan_of_def [symmetric] del: set_append map_map)
    qed
  qed
qed

lemma abandon_all:
  assumes "runs s i" "table_ok s"
  shows "kfor abandon [0..<NPROC] s = Ok () (abandoned i [0..<NPROC] s)"
proof -
  have "map ((!) (procs s)) [0..<NPROC] = procs s"
    using assms(2) by (intro nth_equalityI) (simp_all add: table_ok_def)
  then have s0: "s = abandoned i [] s" by (simp add: abandoned_def init_wake_def)
  have "\<exists>s'. kfor abandon [0..<NPROC] s = Ok () s' \<and> s' = abandoned i [0..<NPROC] s"
  proof (rule kfor_rule [where I = "\<lambda>us s'. s' = abandoned i us s"])
    show "s = abandoned i [] s" by (rule s0)
    fix us v ws t
    assume "[0..<NPROC] = us @ v # ws" and t: "t = abandoned i us s"
    then have "distinct (us @ v # ws)" "v \<in> set [0..<NPROC]" by (metis distinct_upt, simp)
    then show "\<exists>s'. abandon v t = Ok () s' \<and> s' = abandoned i (us @ [v]) s"
      using abandon_step [OF _ _ assms(1), of v us] t by simp
  qed
  then show ?thesis by blast
qed

definition gone :: "nat \<Rightarrow> 'z ptab_scheme \<Rightarrow> proc list" where
  "gone i s = (let s1 = s\<lparr>procs := map (wake (chan_of (p_parent (procs s ! i)))) (procs s)\<rparr> in
     upd_nth i (\<lambda>p. p\<lparr>p_state := ZOMBIE, p_sz := 0\<rparr>) (procs (abandoned i [0..<NPROC] s1)))"

lemma exit_finish_run:
  assumes "runs s i" "table_ok s" "held s = {}"
  shows "exit_finish s = Sched (s\<lparr>held := {PtableLock}, procs := gone i s\<rparr>)"
proof -
  let ?s1 = "s\<lparr>held := {PtableLock}, procs := map (wake (chan_of (p_parent (procs s ! i)))) (procs s)\<rparr>"
  have r1: "runs ?s1 i" "table_ok ?s1" using assms by (simp_all add: runs_def myproc_def table_ok_def)
  define ps where "ps = procs (abandoned i [0..<NPROC] ?s1)"
  have ab: "kfor abandon [0..<NPROC] ?s1 = Ok () (s\<lparr>held := {PtableLock}, procs := ps\<rparr>)"
    unfolding abandon_all [OF r1] ps_def by (simp add: abandoned_def)
  have len: "i < length ps"
    using runsD(2) [OF assms(1)] assms(2) by (simp add: abandoned_def table_ok_def ps_def)
  have c: "(\<lambda>p. p\<lparr>p_sz := 0\<rparr>) \<circ> (\<lambda>p. p\<lparr>p_state := ZOMBIE\<rparr>) = (\<lambda>p. p\<lparr>p_state := ZOMBIE, p_sz := 0\<rparr>)" by auto
  have "gone i s = upd_nth i (\<lambda>p. p\<lparr>p_state := ZOMBIE, p_sz := 0\<rparr>) ps"
    by (simp add: gone_def ps_def abandoned_def init_wake_def Let_def cong: if_cong)
  then show ?thesis
    using assms runsD [OF assms(1)] ab len
    by (simp add: exit_finish_def kstep proc_at_def chan_of_def [symmetric] c table_ok_def)
qed

lemma init_wake_same [simp]:
  "p_pid (init_wake i us s p) = p_pid p" "p_parent (init_wake i us s p) = p_parent p"
  by (simp_all add: init_wake_def)

lemma init_wake_state:
  "p_state (init_wake i us s p) = (if p_state p = SLEEPING \<and> p_chan p = chan_of (initproc s) \<and>
      (\<exists>u\<in>set us. p_parent (procs s ! u) = Some i \<and> p_state (procs s ! u) = ZOMBIE)
    then RUNNABLE else p_state p)"
  by (auto simp: init_wake_def wake_def)

lemma gone_nth:
  assumes "j < NPROC" "length (procs s) = NPROC" "i < NPROC"
  shows "length (gone i s) = NPROC" "p_pid (gone i s ! j) = p_pid (procs s ! j)"
    "p_parent (gone i s ! j) = (if p_parent (procs s ! j) = Some i then initproc s else p_parent (procs s ! j))"
    "p_state (gone i s ! i) = ZOMBIE"
    "j \<noteq> i \<Longrightarrow> p_state (gone i s ! j) =
      (if p_state (procs s ! j) = SLEEPING \<and> (p_chan (procs s ! j) = chan_of (p_parent (procs s ! i)) \<or>
          p_chan (procs s ! j) = chan_of (initproc s) \<and>
          (\<exists>u<NPROC. p_parent (procs s ! u) = Some i \<and> p_state (procs s ! u) = ZOMBIE))
       then RUNNABLE else p_state (procs s ! j))"
proof -
  let ?c = "chan_of (p_parent (procs s ! i))"
  let ?s1 = "s\<lparr>procs := map (wake ?c) (procs s)\<rparr>"
  let ?p = "\<lambda>k. init_wake i [0..<NPROC] ?s1 (adopt (initproc s) i (wake ?c (procs s ! k)))"
  have g: "gone i s ! k = (if k = i then (?p k)\<lparr>p_state := ZOMBIE, p_sz := 0\<rparr> else ?p k)" if "k < NPROC" for k
    using that assms by (simp add: gone_def Let_def abandoned_def)
  have z: "(\<exists>u\<in>set [0..<NPROC]. p_parent (procs ?s1 ! u) = Some i \<and> p_state (procs ?s1 ! u) = ZOMBIE) \<longleftrightarrow>
      (\<exists>u<NPROC. p_parent (procs s ! u) = Some i \<and> p_state (procs s ! u) = ZOMBIE)"
    using assms(2) by auto
  have st: "p_state (?p j) =
      (if p_state (procs s ! j) = SLEEPING \<and> (p_chan (procs s ! j) = ?c \<or>
          p_chan (procs s ! j) = chan_of (initproc s) \<and>
          (\<exists>u<NPROC. p_parent (procs s ! u) = Some i \<and> p_state (procs s ! u) = ZOMBIE))
       then RUNNABLE else p_state (procs s ! j))"
    unfolding init_wake_state z by (auto simp: wake_def)
  show "length (gone i s) = NPROC" by (simp add: gone_def Let_def abandoned_def)
  show "p_pid (gone i s ! j) = p_pid (procs s ! j)" by (simp add: g [OF assms(1)])
  show "p_parent (gone i s ! j) = (if p_parent (procs s ! j) = Some i then initproc s else p_parent (procs s ! j))"
    by (simp add: g [OF assms(1)] adopt_def)
  show "p_state (gone i s ! i) = ZOMBIE" by (simp add: g [OF assms(3)])
  assume "j \<noteq> i"
  then show "p_state (gone i s ! j) =
      (if p_state (procs s ! j) = SLEEPING \<and> (p_chan (procs s ! j) = ?c \<or>
          p_chan (procs s ! j) = chan_of (initproc s) \<and>
          (\<exists>u<NPROC. p_parent (procs s ! u) = Some i \<and> p_state (procs s ! u) = ZOMBIE))
       then RUNNABLE else p_state (procs s ! j))"
    using st g [OF assms(1)] by simp
qed

end
