(* ===== verification/Ptable_Inv.thy ===== *)
theory Ptable_Inv
  imports Proc
begin

text \<open>
  The invariant of the process table over every interleaving of what CPUs and processes do to it.
  \<open>tab_inv\<close> is the invariant on the table itself, \<open>pt_step\<close> the step relation whose steps run the
  operations of Proc.thy, and \<open>pt_step_inv\<close> the preservation proof, one lemma per kind of step.
\<close>

subsection \<open>The invariant of the process table\<close>

text \<open>
  The invariant of the table, by its parts: a CPU runs a RUNNING process and no two CPUs the same
  one; a RUNNING process is on a CPU; pids of processes in use are non-zero, below \<^verbatim>\<open>nextpid\<close> and
  distinct; a free slot has no parent; a parent, and init, is neither free nor new nor a zombie.
\<close>

definition cpus_run :: "proc list \<Rightarrow> nat option list \<Rightarrow> bool" where
  "cpus_run ps cp \<longleftrightarrow> (\<forall>c i. c < length cp \<and> cp ! c = Some i \<longrightarrow> i < NPROC \<and> p_state (ps ! i) = RUNNING)"

definition cpus_once :: "nat option list \<Rightarrow> bool" where
  "cpus_once cp \<longleftrightarrow> (\<forall>c d i. c < length cp \<and> d < length cp \<and> c \<noteq> d \<and> cp ! c = Some i \<longrightarrow> cp ! d \<noteq> Some i)"

definition run_on_cpu :: "proc list \<Rightarrow> nat option list \<Rightarrow> bool" where
  "run_on_cpu ps cp \<longleftrightarrow> (\<forall>i. i < NPROC \<and> p_state (ps ! i) = RUNNING \<longrightarrow> (\<exists>c<length cp. cp ! c = Some i))"

definition pids_below :: "proc list \<Rightarrow> uint \<Rightarrow> bool" where
  "pids_below ps np \<longleftrightarrow> (\<forall>i. i < NPROC \<and> p_state (ps ! i) \<noteq> UNUSED \<longrightarrow> p_pid (ps ! i) \<noteq> 0 \<and> p_pid (ps ! i) < np)"

definition pids_differ :: "proc list \<Rightarrow> bool" where
  "pids_differ ps \<longleftrightarrow> (\<forall>i j. i < NPROC \<and> j < NPROC \<and> i \<noteq> j \<and> p_state (ps ! i) \<noteq> UNUSED \<and>
     p_state (ps ! j) \<noteq> UNUSED \<longrightarrow> p_pid (ps ! i) \<noteq> p_pid (ps ! j))"

definition free_orphan :: "proc list \<Rightarrow> bool" where
  "free_orphan ps \<longleftrightarrow> (\<forall>i. i < NPROC \<and> p_state (ps ! i) = UNUSED \<longrightarrow> p_parent (ps ! i) = None)"

definition grown :: "proc list \<Rightarrow> nat \<Rightarrow> bool" where
  "grown ps j \<longleftrightarrow> j < NPROC \<and> p_state (ps ! j) \<noteq> UNUSED \<and> p_state (ps ! j) \<noteq> EMBRYO \<and> p_state (ps ! j) \<noteq> ZOMBIE"

definition parents_live :: "proc list \<Rightarrow> bool" where
  "parents_live ps \<longleftrightarrow> (\<forall>i j. i < NPROC \<and> p_parent (ps ! i) = Some j \<longrightarrow> grown ps j)"

definition init_live :: "proc list \<Rightarrow> nat option \<Rightarrow> bool" where
  "init_live ps ip \<longleftrightarrow> (\<forall>r. ip = Some r \<longrightarrow> grown ps r)"

definition tab_inv :: "proc list \<Rightarrow> nat option list \<Rightarrow> nat option \<Rightarrow> uint \<Rightarrow> bool" where
  "tab_inv ps cp ip np \<longleftrightarrow>
     length ps = NPROC \<and> cpus_run ps cp \<and> cpus_once cp \<and> run_on_cpu ps cp \<and> pids_below ps np \<and>
     pids_differ ps \<and> free_orphan ps \<and> parents_live ps \<and> init_live ps ip"

lemma tab_invD:
  assumes "tab_inv ps cp ip np"
  shows "length ps = NPROC"
    "\<And>c i. c < length cp \<Longrightarrow> cp ! c = Some i \<Longrightarrow> i < NPROC \<and> p_state (ps ! i) = RUNNING"
    "\<And>c d i. c < length cp \<Longrightarrow> d < length cp \<Longrightarrow> c \<noteq> d \<Longrightarrow> cp ! c = Some i \<Longrightarrow> cp ! d \<noteq> Some i"
    "\<And>i. i < NPROC \<Longrightarrow> p_state (ps ! i) = RUNNING \<Longrightarrow> \<exists>c<length cp. cp ! c = Some i"
    "\<And>i. i < NPROC \<Longrightarrow> p_state (ps ! i) \<noteq> UNUSED \<Longrightarrow> p_pid (ps ! i) \<noteq> 0 \<and> p_pid (ps ! i) < np"
    "\<And>i j. i < NPROC \<Longrightarrow> j < NPROC \<Longrightarrow> i \<noteq> j \<Longrightarrow> p_state (ps ! i) \<noteq> UNUSED \<Longrightarrow> p_state (ps ! j) \<noteq> UNUSED \<Longrightarrow>
       p_pid (ps ! i) \<noteq> p_pid (ps ! j)"
    "\<And>i. i < NPROC \<Longrightarrow> p_state (ps ! i) = UNUSED \<Longrightarrow> p_parent (ps ! i) = None"
    "\<And>i j. i < NPROC \<Longrightarrow> p_parent (ps ! i) = Some j \<Longrightarrow> grown ps j"
    "\<And>r. ip = Some r \<Longrightarrow> grown ps r"
proof -
  have p: "length ps = NPROC" "cpus_run ps cp" "cpus_once cp" "run_on_cpu ps cp" "pids_below ps np"
    "pids_differ ps" "free_orphan ps" "parents_live ps" "init_live ps ip"
    using assms by (simp_all add: tab_inv_def)
  show "length ps = NPROC" by (rule p)
  show "i < NPROC \<and> p_state (ps ! i) = RUNNING" if "c < length cp" "cp ! c = Some i" for c i
    using p(2) that unfolding cpus_run_def by blast
  show "cp ! d \<noteq> Some i" if "c < length cp" "d < length cp" "c \<noteq> d" "cp ! c = Some i" for c d i
    using p(3) that unfolding cpus_once_def by blast
  show "\<exists>c<length cp. cp ! c = Some i" if "i < NPROC" "p_state (ps ! i) = RUNNING" for i
    using p(4) that unfolding run_on_cpu_def by blast
  show "p_pid (ps ! i) \<noteq> 0 \<and> p_pid (ps ! i) < np" if "i < NPROC" "p_state (ps ! i) \<noteq> UNUSED" for i
    using p(5) that unfolding pids_below_def by blast
  show "p_pid (ps ! i) \<noteq> p_pid (ps ! j)" if "i < NPROC" "j < NPROC" "i \<noteq> j" "p_state (ps ! i) \<noteq> UNUSED"
    "p_state (ps ! j) \<noteq> UNUSED" for i j
    using p(6) that unfolding pids_differ_def by blast
  show "p_parent (ps ! i) = None" if "i < NPROC" "p_state (ps ! i) = UNUSED" for i
    using p(7) that unfolding free_orphan_def by blast
  show "grown ps j" if "i < NPROC" "p_parent (ps ! i) = Some j" for i j
    using p(8) that unfolding parents_live_def by blast
  show "grown ps r" if "ip = Some r" for r
    using p(9) that unfolding init_live_def by blast
qed

lemma tab_invI:
  assumes "length ps = NPROC"
    "\<And>c i. c < length cp \<Longrightarrow> cp ! c = Some i \<Longrightarrow> i < NPROC \<and> p_state (ps ! i) = RUNNING"
    "\<And>c d i. c < length cp \<Longrightarrow> d < length cp \<Longrightarrow> c \<noteq> d \<Longrightarrow> cp ! c = Some i \<Longrightarrow> cp ! d \<noteq> Some i"
    "\<And>i. i < NPROC \<Longrightarrow> p_state (ps ! i) = RUNNING \<Longrightarrow> \<exists>c<length cp. cp ! c = Some i"
    "\<And>i. i < NPROC \<Longrightarrow> p_state (ps ! i) \<noteq> UNUSED \<Longrightarrow> p_pid (ps ! i) \<noteq> 0 \<and> p_pid (ps ! i) < np"
    "\<And>i j. i < NPROC \<Longrightarrow> j < NPROC \<Longrightarrow> i \<noteq> j \<Longrightarrow> p_state (ps ! i) \<noteq> UNUSED \<Longrightarrow> p_state (ps ! j) \<noteq> UNUSED \<Longrightarrow>
       p_pid (ps ! i) \<noteq> p_pid (ps ! j)"
    "\<And>i. i < NPROC \<Longrightarrow> p_state (ps ! i) = UNUSED \<Longrightarrow> p_parent (ps ! i) = None"
    "\<And>i j. i < NPROC \<Longrightarrow> p_parent (ps ! i) = Some j \<Longrightarrow> grown ps j"
    "\<And>r. ip = Some r \<Longrightarrow> grown ps r"
  shows "tab_inv ps cp ip np"
proof -
  have "cpus_run ps cp" using assms(2) unfolding cpus_run_def by blast
  moreover have "cpus_once cp" using assms(3) unfolding cpus_once_def by blast
  moreover have "run_on_cpu ps cp" using assms(4) unfolding run_on_cpu_def by blast
  moreover have "pids_below ps np" using assms(5) unfolding pids_below_def by blast
  moreover have "pids_differ ps" using assms(6) unfolding pids_differ_def by blast
  moreover have "free_orphan ps" using assms(7) unfolding free_orphan_def by blast
  moreover have "parents_live ps" using assms(8) unfolding parents_live_def by blast
  moreover have "init_live ps ip" using assms(9) unfolding init_live_def by blast
  ultimately show ?thesis using assms(1) by (simp add: tab_inv_def)
qed

lemma tab_inv_cong:
  assumes "tab_inv ps cp ip np" "length qs = length ps"
    and "\<And>i. i < NPROC \<Longrightarrow> p_pid (qs ! i) = p_pid (ps ! i) \<and> p_parent (qs ! i) = p_parent (ps ! i) \<and>
      (p_state (qs ! i) = UNUSED \<longleftrightarrow> p_state (ps ! i) = UNUSED) \<and>
      (p_state (qs ! i) = EMBRYO \<longleftrightarrow> p_state (ps ! i) = EMBRYO) \<and>
      (p_state (qs ! i) = ZOMBIE \<longleftrightarrow> p_state (ps ! i) = ZOMBIE) \<and>
      (p_state (qs ! i) = RUNNING \<longleftrightarrow> p_state (ps ! i) = RUNNING)"
  shows "tab_inv qs cp ip np"
proof -
  have p: "\<And>i. i < NPROC \<Longrightarrow> p_pid (qs ! i) = p_pid (ps ! i)"
    "\<And>i. i < NPROC \<Longrightarrow> p_parent (qs ! i) = p_parent (ps ! i)"
    "\<And>i. i < NPROC \<Longrightarrow> p_state (qs ! i) = UNUSED \<longleftrightarrow> p_state (ps ! i) = UNUSED"
    "\<And>i. i < NPROC \<Longrightarrow> p_state (qs ! i) = EMBRYO \<longleftrightarrow> p_state (ps ! i) = EMBRYO"
    "\<And>i. i < NPROC \<Longrightarrow> p_state (qs ! i) = ZOMBIE \<longleftrightarrow> p_state (ps ! i) = ZOMBIE"
    "\<And>i. i < NPROC \<Longrightarrow> p_state (qs ! i) = RUNNING \<longleftrightarrow> p_state (ps ! i) = RUNNING"
    using assms(3) by blast+
  note d = tab_invD [OF assms(1)]
  show ?thesis
  proof (rule tab_invI, goal_cases)
    case 1 then show ?case using d(1) assms(2) by simp
  next
    case (2 c j) then show ?case using d(2) [of c j] p(6) [of j] by simp
  next
    case (3 c e j) then show ?case using d(3) by blast
  next
    case (4 j) then show ?case using d(4) [of j] p(6) [of j] by simp
  next
    case (5 j) then show ?case using d(5) [of j] p(1,3) [of j] by simp
  next
    case (6 j k) then show ?case using d(6) [of j k] p(1,3) [of j] p(1,3) [of k] by simp
  next
    case (7 j) then show ?case using d(7) [of j] p(2,3) [of j] by simp
  next
    case (8 j k) then show ?case using d(8) [of j k] p(2) [of j] p(3,4,5) [of k] by (simp add: grown_def)
  next
    case (9 r) then show ?case using d(9) [of r] p(3,4,5) [of r] by (simp add: grown_def)
  qed
qed

lemma tab_inv_alloc:
  assumes inv: "tab_inv ps cp ip np" and i: "i < NPROC" "p_state (ps ! i) = UNUSED"
    and np: "unat np + 1 < 2 ^ 32" "np \<noteq> 0"
    and q: "p_state q = EMBRYO" "p_pid q = np" "p_parent q = p_parent (ps ! i)"
  shows "tab_inv (ps[i := q]) cp ip (np + 1)"
proof -
  note d = tab_invD [OF inv]
  have lt: "x < np \<Longrightarrow> x < np + 1" "np < np + 1" for x
    using np(1) unat_add_lem [of np 1] by (auto simp: word_less_nat_alt)
  have new: "p_pid (ps ! j) \<noteq> np" if "j < NPROC" "p_state (ps ! j) \<noteq> UNUSED" for j
    using d(5) [OF that] by auto
  have par: "p_parent q = None" using d(7) i q(3) by simp
  note [simp] = nth_list_update
  show ?thesis
  proof (rule tab_invI, goal_cases)
    case (2 c j) then show ?case using d(1) i(1) d(2) [of c j] i by auto
  next
    case (4 j) then show ?case using d(1) i(1) d(4) [of j] q i by (auto split: if_splits)
  next
    case (5 j) then show ?case using d(1) i(1) d(5) [of j] q np lt by (auto split: if_splits)
  next
    case (6 j k) then show ?case using d(1) i(1) d(6) [of j k] new [of j] new [of k] q(2) by (cases "i = j"; cases "i = k") simp_all
  next
    case (7 j) then show ?case using d(1) i(1) d(7) [of j] q by (auto split: if_splits)
  next
    case (8 j k) then show ?case using d(1) i(1) d(8) [of j k] par i by (auto simp: grown_def split: if_splits)
  next
    case (9 r) then show ?case using d(1) i(1) d(9) [of r] i by (auto simp: grown_def split: if_splits)
  qed (use d(1,3) in auto)
qed

text \<open>A slot that keeps its pid and was and stays off the CPUs changes state.\<close>

lemma tab_inv_move:
  assumes inv: "tab_inv ps cp ip np" and i: "i < NPROC" "p_state (ps ! i) = EMBRYO"
    and q: "p_pid q = p_pid (ps ! i)" "p_state q \<noteq> RUNNING" "p_state q \<noteq> ZOMBIE"
    and par: "p_parent q = None \<or> p_state q \<noteq> UNUSED \<and>
      (\<forall>j. p_parent q = Some j \<longrightarrow> j \<noteq> i \<and> grown ps j)"
  shows "tab_inv (ps[i := q]) cp ip np"
proof -
  note d = tab_invD [OF inv]
  note [simp] = nth_list_update
  show ?thesis
  proof (rule tab_invI, goal_cases)
    case (2 c j) then show ?case using d(1) i(1) d(2) [of c j] i by auto
  next
    case (4 j) then show ?case using d(1) i(1) d(4) [of j] q i by (auto split: if_splits)
  next
    case (5 j) then show ?case using d(1) i(1) d(5) [of j] q i by (auto split: if_splits)
  next
    case (6 j k) then show ?case using d(1) i(1) d(6) [of j k] q i by (cases "i = j"; cases "i = k") simp_all
  next
    case (7 j) then show ?case using d(1) i(1) d(7) [of j] par by (auto split: if_splits)
  next
    case (8 j k) then show ?case using d(1) i(1) d(8) [of j k] par i by (auto simp: grown_def split: if_splits)
  next
    case (9 r) then show ?case using d(1) i(1) d(9) [of r] i by (auto simp: grown_def split: if_splits)
  qed (use d(1,3) in auto)
qed

lemma tab_inv_pick:
  assumes inv: "tab_inv ps cp ip np" and i: "i < NPROC" "p_state (ps ! i) = RUNNABLE"
    and c: "c < length cp" "cp ! c = None"
    and q: "p_pid q = p_pid (ps ! i)" "p_state q = RUNNING" "p_parent q = p_parent (ps ! i)"
  shows "tab_inv (ps[i := q]) (cp[c := Some i]) ip np"
proof -
  note d = tab_invD [OF inv]
  note [simp] = nth_list_update
  have off: "\<not> (e < length cp \<and> cp ! e = Some i)" for e using d(2) [of e i] i by auto
  show ?thesis
  proof (rule tab_invI, goal_cases)
    case (2 e j) then show ?case using d(1) i(1) c(1) d(2) [of e j] i q by (auto split: if_splits)
  next
    case (3 e f j) then show ?case using d(1) i(1) c(1) d(3) [of e f j] off [of e] off [of f] by (auto split: if_splits)
  next
    case (4 j)
    show ?case
    proof (cases "j = i")
      case True then show ?thesis using c by (intro exI [of _ c]) simp
    next
      case False
      then obtain e where "e < length cp" "cp ! e = Some j" using d(4) [of j] 4 by auto
      then show ?thesis using c by (intro exI [of _ e]) auto
    qed
  next
    case (5 j) then show ?case using d(1) i(1) c(1) d(5) [of j] q i by (auto split: if_splits)
  next
    case (6 j k) then show ?case using d(1) i(1) c(1) d(6) [of j k] q i by (cases "i = j"; cases "i = k") simp_all
  next
    case (7 j) then show ?case using d(1) i(1) c(1) d(7) [of j] q by (auto split: if_splits)
  next
    case (8 j k) then show ?case using d(1) i(1) c(1) d(8) [of j k] d(8) [of i k] q i by (auto simp: grown_def split: if_splits)
  next
    case (9 r) then show ?case using d(1) i(1) c(1) d(9) [of r] i q by (auto simp: grown_def split: if_splits)
  qed (use d(1) in auto)
qed

lemma tab_inv_leave:
  assumes inv: "tab_inv ps cp ip np" and c: "c < length cp" "cp ! c = Some i"
    and q: "p_pid q = p_pid (ps ! i)" "p_state q = RUNNABLE \<or> p_state q = SLEEPING" "p_parent q = p_parent (ps ! i)"
  shows "tab_inv (ps[i := q]) (cp[c := None]) ip np"
proof -
  note d = tab_invD [OF inv]
  note [simp] = nth_list_update
  have i: "i < NPROC" "p_state (ps ! i) = RUNNING" using d(2) [OF c] by auto
  show ?thesis
  proof (rule tab_invI, goal_cases)
    case (2 e j) then show ?case using d(1) i(1) c(1) d(2) [of e j] d(3) [of e c j] c i by (auto split: if_splits)
  next
    case (3 e f j) then show ?case using d(1) i(1) c(1) d(3) [of e f j] by (auto split: if_splits)
  next
    case (4 j)
    then have j: "i \<noteq> j" "p_state (ps ! j) = RUNNING" using d(1) i(1) q(2) by (auto split: if_splits)
    then obtain e where "e < length cp" "cp ! e = Some j" using d(4) [of j] 4 by auto
    then show ?case using c j by (intro exI [of _ e]) auto
  next
    case (5 j) then show ?case using d(1) i(1) c(1) d(5) [of j] q i by (auto split: if_splits)
  next
    case (6 j k) then show ?case using d(1) i(1) c(1) d(6) [of j k] q i by (cases "i = j"; cases "i = k") simp_all
  next
    case (7 j) then show ?case using d(1) i(1) c(1) d(7) [of j] q by (auto split: if_splits)
  next
    case (8 j k) then show ?case using d(1) i(1) c(1) d(8) [of j k] d(8) [of i k] q i by (auto simp: grown_def split: if_splits)
  next
    case (9 r) then show ?case using d(1) i(1) c(1) d(9) [of r] i q by (auto simp: grown_def split: if_splits)
  qed (use d(1) in auto)
qed

lemma tab_inv_reap:
  assumes inv: "tab_inv ps cp ip np" and i: "i < NPROC" "p_state (ps ! i) = ZOMBIE"
    and q: "p_state q = UNUSED" "p_parent q = None"
  shows "tab_inv (ps[i := q]) cp ip np"
proof -
  note d = tab_invD [OF inv]
  note [simp] = nth_list_update
  show ?thesis
  proof (rule tab_invI, goal_cases)
    case (2 c j) then show ?case using d(1) i(1) d(2) [of c j] i by auto
  next
    case (4 j) then show ?case using d(1) i(1) d(4) [of j] q i by (auto split: if_splits)
  next
    case (5 j) then show ?case using d(1) i(1) d(5) [of j] q i by (auto split: if_splits)
  next
    case (6 j k) then show ?case using d(1) i(1) d(6) [of j k] q i by (cases "i = j"; cases "i = k") simp_all
  next
    case (7 j) then show ?case using d(1) i(1) d(7) [of j] q by (auto split: if_splits)
  next
    case (8 j k) then show ?case using d(1) i(1) d(8) [of j k] q i by (auto simp: grown_def split: if_splits)
  next
    case (9 r) then show ?case using d(1) i(1) d(9) [of r] i by (auto simp: grown_def split: if_splits)
  qed (use d(1,3) in auto)
qed

lemma tab_inv_exit:
  assumes inv: "tab_inv ps cp (Some r) np" and c: "c < length cp" "cp ! c = Some i" and r: "r \<noteq> i"
    and len: "length qs = NPROC"
    and qi: "p_pid (qs ! i) = p_pid (ps ! i)" "p_state (qs ! i) = ZOMBIE"
    and qs: "\<And>j. j < NPROC \<Longrightarrow> j \<noteq> i \<Longrightarrow> p_pid (qs ! j) = p_pid (ps ! j) \<and>
      (p_state (qs ! j) = UNUSED \<longleftrightarrow> p_state (ps ! j) = UNUSED) \<and>
      (p_state (qs ! j) = EMBRYO \<longleftrightarrow> p_state (ps ! j) = EMBRYO) \<and>
      (p_state (qs ! j) = ZOMBIE \<longleftrightarrow> p_state (ps ! j) = ZOMBIE) \<and>
      (p_state (qs ! j) = RUNNING \<longleftrightarrow> p_state (ps ! j) = RUNNING)"
    and par: "\<And>j. j < NPROC \<Longrightarrow> p_parent (qs ! j) = (if p_parent (ps ! j) = Some i then Some r else p_parent (ps ! j))"
  shows "tab_inv qs (cp[c := None]) (Some r) np"
proof -
  note d = tab_invD [OF inv]
  note [simp] = nth_list_update
  have i: "i < NPROC" "p_state (ps ! i) = RUNNING" using d(2) [OF c] by auto
  show ?thesis
  proof (rule tab_invI, goal_cases)
    case 1 then show ?case by (rule len)
  next
    case (2 e j)
    then have "e \<noteq> c" "cp ! e = Some j" "e < length cp" using c(1) by (auto split: if_splits)
    then show ?case using d(2) [of e j] d(3) [of e c j] c qs [of j] by auto
  next
    case (3 e f j) then show ?case using c(1) d(3) [of e f j] by (auto split: if_splits)
  next
    case (4 j)
    then have "j \<noteq> i" using qi by auto
    then obtain e where "e < length cp" "cp ! e = Some j" using d(4) [of j] 4 qs [of j] by auto
    then show ?case using c \<open>j \<noteq> i\<close> by (intro exI [of _ e]) auto
  next
    case (5 j) then show ?case using d(5) [of j] qi i qs [of j] by (cases "j = i") auto
  next
    case (6 j k)
    then show ?case using d(6) [of j k] qi i qs [of j] qs [of k] by (cases "j = i"; cases "k = i") auto
  next
    case (7 j) then show ?case using d(7) [of j] par [of j] qi qs [of j] by (cases "j = i") auto
  next
    case (8 j k)
    then have "k = r \<or> k \<noteq> i \<and> p_parent (ps ! j) = Some k" using par [of j] by (auto split: if_splits)
    then have "k \<noteq> i \<and> grown ps k"
      using d(8) [of j k] d(9) [of r] 8(1) r by auto
    then show ?case using qs [of k] by (simp add: grown_def)
  next
    case (9 k) then show ?case using d(9) [of r] r qs [of r] by (auto simp: grown_def)
  qed
qed

subsection \<open>The machine, step by step\<close>

lemma vmst_more_fields:
  fixes s s' :: "'z ptab_scheme"
  assumes "vmst.more s' = vmst.more s"
  shows "procs s' = procs s" "cproc s' = cproc s" "initproc s' = initproc s" "nextpid s' = nextpid s"
    "cpu_me s' = cpu_me s"
  using assms by (cases s; cases s'; simp)+

lemma ptab_more_vmst:
  fixes s s' :: "'z ptab_scheme"
  shows "vmst.more s' = vmst.more s \<Longrightarrow> ptab.more s' = ptab.more s"
  by (cases s; cases s'; simp)

lemma keeps_switchuvm [frame]: "keeps vmst.more (switchuvm p)" "keeps held (switchuvm p)"
  unfolding switchuvm_def by (auto intro!: frame keeps_modify split: option.split)

text \<open>The scheduler's side of a switch: back from the process, and on to the next.\<close>

definition switch_back :: "('z ptab_scheme, unit) kern" where
  "switch_back = kseq sched_back (release PtableLock)"

definition switch_to :: "nat \<Rightarrow> ('z ptab_scheme, unit) kern" where
  "switch_to i = kseq (acquire PtableLock) (kif (\<lambda>s. p_state (proc_at s i) \<noteq> RUNNABLE) (panic []) (sched_pick i))"

lemma switch_back_run:
  "held t = {PtableLock} \<Longrightarrow> switch_back t =
    Ok () (t\<lparr>cr3 := V2P (kpgdir t), cproc := (cproc t)[cpu_me t := None], held := {}\<rparr>)"
  by (simp add: switch_back_def sched_back_def switchkvm_def kstep)

lemma switch_to_Ok:
  assumes "switch_to i s = Ok u s'"
  shows "p_state (procs s ! i) = RUNNABLE" "PtableLock \<notin> held s" "held s' = insert PtableLock (held s)"
    "procs s' = upd_nth i (p_state_update (\<lambda>_. RUNNING)) (procs s)"
    "cproc s' = (cproc s)[cpu_me s := Some i]" "initproc s' = initproc s" "nextpid s' = nextpid s" "cpu_me s' = cpu_me s"
    "ptab.more s' = ptab.more s"
proof -
  let ?s1 = "s\<lparr>held := insert PtableLock (held s), cproc := (cproc s)[cpu_me s := Some i]\<rparr>"
  obtain s2 where a: "PtableLock \<notin> held s" "p_state (procs s ! i) = RUNNABLE"
    and 2: "switchuvm (Some (p_kstack (proc_at ?s1 i), p_pgdir (proc_at ?s1 i))) ?s1 = Ok () s2"
    and 3: "s' = s2\<lparr>procs := upd_nth i (p_state_update (\<lambda>_. RUNNING)) (procs s2)\<rparr>"
    using assms by (auto simp: switch_to_def kseq_eq_Ok acquire_def kif_def proc_at_def sched_pick_def
        updp_def split: if_splits)
  note m = vmst_more_fields [OF keepsD [OF keeps_switchuvm(1) 2]] keepsD [OF keeps_switchuvm(2) 2]
    ptab_more_vmst [OF keepsD [OF keeps_switchuvm(1) 2]]
  show "p_state (procs s ! i) = RUNNABLE" "PtableLock \<notin> held s" by (rule a)+
  show "held s' = insert PtableLock (held s)"
    "procs s' = upd_nth i (p_state_update (\<lambda>_. RUNNING)) (procs s)"
    "cproc s' = (cproc s)[cpu_me s := Some i]" "initproc s' = initproc s" "nextpid s' = nextpid s" "cpu_me s' = cpu_me s"
    "ptab.more s' = ptab.more s"
    using m by (simp_all add: 3)
qed

text \<open>
  One step of the machine as the process table sees it: a critical section of \<^verbatim>\<open>ptable.lock\<close>, or
  a write of fork to the slot it owns, run by the process of some CPU; a process that gives up its
  CPU; a CPU that picks a process.
\<close>

definition on_cpu :: "'z ptab_scheme \<Rightarrow> nat \<Rightarrow> nat \<Rightarrow> bool" where
  "on_cpu s c i \<longleftrightarrow> c < length (cproc s) \<and> cproc s ! c = Some i"

definition embryo :: "'z ptab_scheme \<Rightarrow> nat \<Rightarrow> bool" where
  "embryo s np \<longleftrightarrow> np < NPROC \<and> p_state (procs s ! np) = EMBRYO"

inductive pt_step :: "'z ptab_scheme \<Rightarrow> 'z ptab_scheme \<Rightarrow> bool" where
  alloc: "on_cpu s c i \<Longrightarrow> unat (nextpid s) + 1 < 2 ^ 32 \<Longrightarrow>
    allocproc (s\<lparr>cpu_me := c\<rparr>) = Ok r s' \<Longrightarrow> pt_step s s'"
| inherit: "on_cpu s c i \<Longrightarrow> embryo s np \<Longrightarrow> fork_inherit np (s\<lparr>cpu_me := c\<rparr>) = Ok () s' \<Longrightarrow> pt_step s s'"
| abort: "on_cpu s c i \<Longrightarrow> embryo s np \<Longrightarrow> p_parent (procs s ! np) = None \<Longrightarrow>
    fork_abort np (s\<lparr>cpu_me := c\<rparr>) = Ok () s' \<Longrightarrow> pt_step s s'"
| publish: "on_cpu s c i \<Longrightarrow> embryo s np \<Longrightarrow> set_runnable np (s\<lparr>cpu_me := c\<rparr>) = Ok () s' \<Longrightarrow> pt_step s s'"
| wake: "wakeup ch s = Ok () s' \<Longrightarrow> pt_step s s'"
| kill: "on_cpu s c i \<Longrightarrow> kill pid (s\<lparr>cpu_me := c\<rparr>) = Ok r s' \<Longrightarrow> pt_step s s'"
| wait_done: "on_cpu s c i \<Longrightarrow> wait (s\<lparr>cpu_me := c\<rparr>) = Ok r s' \<Longrightarrow> pt_step s s'"
| wait_block: "on_cpu s c i \<Longrightarrow> wait (s\<lparr>cpu_me := c\<rparr>) = Sched t \<Longrightarrow> switch_back t = Ok () s' \<Longrightarrow> pt_step s s'"
| yield: "on_cpu s c i \<Longrightarrow> yield (s\<lparr>cpu_me := c\<rparr>) = Sched t \<Longrightarrow> switch_back t = Ok () s' \<Longrightarrow> pt_step s s'"
| sleep: "on_cpu s c i \<Longrightarrow> lk \<noteq> PtableLock \<Longrightarrow> sleep ch (Some lk) (s\<lparr>cpu_me := c, held := {lk}\<rparr>) = Sched t \<Longrightarrow>
    switch_back t = Ok () s' \<Longrightarrow> pt_step s s'"
| exit: "on_cpu s c i \<Longrightarrow> initproc s \<noteq> Some i \<Longrightarrow> exit_finish (s\<lparr>cpu_me := c\<rparr>) = Sched t \<Longrightarrow>
    switch_back t = Ok () s' \<Longrightarrow> pt_step s s'"
| pick: "c < length (cproc s) \<Longrightarrow> cproc s ! c = None \<Longrightarrow> i < NPROC \<Longrightarrow>
    kseq (switch_to i) (release PtableLock) (s\<lparr>cpu_me := c\<rparr>) = Ok () s' \<Longrightarrow> pt_step s s'"
| pick_sleeper: "c < length (cproc s) \<Longrightarrow> cproc s ! c = None \<Longrightarrow> i < NPROC \<Longrightarrow>
    kseq (switch_to i) (sleep_exit None) (s\<lparr>cpu_me := c\<rparr>) = Ok () s' \<Longrightarrow> pt_step s s'"
| pick_waiter: "c < length (cproc s) \<Longrightarrow> cproc s ! c = None \<Longrightarrow> i < NPROC \<Longrightarrow>
    kseq (switch_to i) wait_resume (s\<lparr>cpu_me := c\<rparr>) = Ok (Inr r) s' \<Longrightarrow> pt_step s s'"
| pick_waiter_again: "c < length (cproc s) \<Longrightarrow> cproc s ! c = None \<Longrightarrow> i < NPROC \<Longrightarrow>
    kseq (switch_to i) wait_resume (s\<lparr>cpu_me := c\<rparr>) = Ok (Inl ()) t \<Longrightarrow>
    sleep (ChProc i) (Some PtableLock) t = Sched t' \<Longrightarrow> switch_back t' = Ok () s' \<Longrightarrow> pt_step s s'"

definition pt_inv :: "'z ptab_scheme \<Rightarrow> bool" where
  "pt_inv s \<longleftrightarrow> tab_inv (procs s) (cproc s) (initproc s) (nextpid s) \<and> held s = {} \<and> initproc s \<noteq> None \<and> nextpid s \<noteq> 0"

lemma pt_inv_on_cpu:
  assumes "pt_inv s" "on_cpu s c i"
  shows "runs (s\<lparr>cpu_me := c\<rparr>) i" "i < NPROC" "p_state (procs s ! i) = RUNNING" "table_ok s"
    "runs (s\<lparr>cpu_me := c, held := h\<rparr>) i"
proof -
  have t: "tab_inv (procs s) (cproc s) (initproc s) (nextpid s)" using assms(1) by (simp add: pt_inv_def)
  show "i < NPROC" "p_state (procs s ! i) = RUNNING" using tab_invD(2) [OF t] assms(2) by (auto simp: on_cpu_def)
  then show "runs (s\<lparr>cpu_me := c\<rparr>) i" "runs (s\<lparr>cpu_me := c, held := h\<rparr>) i" "table_ok s"
    using tab_invD(1) [OF t] assms(2) by (simp_all add: runs_def myproc_def on_cpu_def table_ok_def)
qed

lemma pt_inv_alloc:
  assumes inv: "pt_inv s" and np: "unat (nextpid s) + 1 < 2 ^ 32"
    and r: "allocproc (s\<lparr>cpu_me := c\<rparr>) = Ok r s'"
  shows "pt_inv s'"
proof (cases "find_slot (\<lambda>p. p_state p = UNUSED) (procs s)")
  case None
  then have "s' = s\<lparr>cpu_me := c\<rparr>" using allocproc_full [of "s\<lparr>cpu_me := c\<rparr>"] inv r by (simp add: pt_inv_def)
  then show ?thesis using inv by (simp add: pt_inv_def)
next
  case (Some j)
  have t: "tab_inv (procs s) (cproc s) (initproc s) (nextpid s)" "held s = {}" "nextpid s \<noteq> 0"
    using inv by (simp_all add: pt_inv_def)
  have j: "j < NPROC" "p_state (procs s ! j) = UNUSED"
    using Some tab_invD(1) [OF t(1)] by (auto simp: find_slot_Some)
  obtain q where s': "held s' = {}" "cproc s' = cproc s" "initproc s' = initproc s"
    "nextpid s' = nextpid s + 1" "procs s' = (procs s)[j := q]" "p_pid q = nextpid s"
    "p_parent q = p_parent (procs s ! j)" "p_state q = UNUSED \<or> p_state q = EMBRYO"
    using allocproc_slot [of "s\<lparr>cpu_me := c\<rparr>" j] Some t(2) r by (auto split: if_splits)
  have nz: "nextpid s + 1 \<noteq> 0" using np unat_add_lem [of "nextpid s" 1] by auto
  have "tab_inv (procs s') (cproc s) (initproc s) (nextpid s + 1)"
    using s'(8)
  proof
    assume "p_state q = EMBRYO"
    then show ?thesis using tab_inv_alloc [OF t(1) j np t(3), of q] s' by simp
  next
    assume u: "p_state q = UNUSED"
    let ?e = "q\<lparr>p_state := EMBRYO\<rparr>"
    have e: "tab_inv ((procs s)[j := ?e]) (cproc s) (initproc s) (nextpid s + 1)"
      using tab_inv_alloc [OF t(1) j np t(3), of ?e] s' by simp
    have "p_parent q = None" using tab_invD(7) [OF t(1) j] s'(7) by simp
    then show ?thesis
      using tab_inv_move [OF e, of j q] j u tab_invD(1) [OF t(1)] s'(5) by simp
  qed
  then show ?thesis using inv s' nz by (simp add: pt_inv_def)
qed


lemma pt_inv_update:
  assumes "pt_inv s" "procs s' = ps" "tab_inv ps (cproc s) (initproc s) (nextpid s)" "held s' = {}"
    "cproc s' = cproc s" "initproc s' = initproc s" "nextpid s' = nextpid s"
  shows "pt_inv s'"
  using assms by (simp add: pt_inv_def)

lemma pt_inv_tab: "pt_inv s \<Longrightarrow> tab_inv (procs s) (cproc s) (initproc s) (nextpid s)" "pt_inv s \<Longrightarrow> held s = {}"
  by (simp_all add: pt_inv_def)

lemma pt_inv_wake:
  assumes inv: "pt_inv s" and r: "wakeup ch s = Ok u s'"
  shows "pt_inv s'"
proof -
  have ok: "table_ok s" using tab_invD(1) [OF pt_inv_tab(1) [OF inv]] by (simp add: table_ok_def)
  then have s': "s' = s\<lparr>procs := map (wake ch) (procs s)\<rparr>"
    using r wakeup_run [OF ok, of ch] pt_inv_tab(2) [OF inv] by simp
  have "tab_inv (map (wake ch) (procs s)) (cproc s) (initproc s) (nextpid s)"
    by (rule tab_inv_cong [OF pt_inv_tab(1) [OF inv]]) (use ok in \<open>simp_all add: table_ok_def\<close>)
  then show ?thesis using inv by (simp add: s' pt_inv_def)
qed

lemma killed_same: "p_pid (killed p) = p_pid p" "p_parent (killed p) = p_parent p"
  "p_state (killed p) = UNUSED \<longleftrightarrow> p_state p = UNUSED" "p_state (killed p) = EMBRYO \<longleftrightarrow> p_state p = EMBRYO"
  "p_state (killed p) = ZOMBIE \<longleftrightarrow> p_state p = ZOMBIE" "p_state (killed p) = RUNNING \<longleftrightarrow> p_state p = RUNNING"
  by (simp_all add: killed_def)

lemma pt_inv_kill:
  assumes inv: "pt_inv s" and r: "kill pid (s\<lparr>cpu_me := c\<rparr>) = Ok x s'"
  shows "pt_inv s'"
proof (cases "find_slot (\<lambda>p. p_pid p = pid) (procs s)")
  case None
  then have "s' = s\<lparr>cpu_me := c\<rparr>" using r pt_inv_tab(2) [OF inv] by (simp add: kstep)
  then show ?thesis using inv by (simp add: pt_inv_def)
next
  case (Some j)
  then have s': "s' = s\<lparr>cpu_me := c, procs := upd_nth j killed (procs s)\<rparr>"
    using r pt_inv_tab(2) [OF inv] by (simp add: kstep)
  have "tab_inv (upd_nth j killed (procs s)) (cproc s) (initproc s) (nextpid s)"
    by (rule tab_inv_cong [OF pt_inv_tab(1) [OF inv]])
      (use tab_invD(1) [OF pt_inv_tab(1) [OF inv]] in \<open>simp_all add: killed_same\<close>)
  then show ?thesis using inv by (simp add: s' pt_inv_def)
qed

lemma pt_inv_inherit:
  assumes inv: "pt_inv s" and c: "on_cpu s c i" and e: "embryo s np"
    and r: "fork_inherit np (s\<lparr>cpu_me := c\<rparr>) = Ok u s'"
  shows "pt_inv s'"
proof -
  note ci = pt_inv_on_cpu [OF inv c]
  have cur: "curproc (s\<lparr>cpu_me := c\<rparr>) = i" by (rule runsD(1) [OF ci(1)])
  have np: "np < NPROC" "p_state (procs s ! np) = EMBRYO" using e by (simp_all add: embryo_def)
  have len: "length (procs s) = NPROC" using ci(4) by (simp add: table_ok_def)
  let ?q = "(procs s ! np)\<lparr>p_sz := p_sz (procs s ! i), p_parent := Some i\<rparr>"
  have s': "procs s' = (procs s)[np := ?q]" "held s' = held s" "cproc s' = cproc s" "initproc s' = initproc s"
    "nextpid s' = nextpid s"
    using r cur np len by (auto simp: fork_inherit_def kstep proc_at_def upd_nth_def)
  have "tab_inv ((procs s)[np := ?q]) (cproc s) (initproc s) (nextpid s)"
    using np ci(2,3) by (intro tab_inv_move [OF pt_inv_tab(1) [OF inv]]) (auto simp: grown_def)
  then show ?thesis using inv s' by (simp add: pt_inv_def)
qed

lemma pt_inv_abort:
  assumes inv: "pt_inv s" and e: "embryo s np" "p_parent (procs s ! np) = None"
    and r: "fork_abort np (s\<lparr>cpu_me := c\<rparr>) = Ok () s'"
  shows "pt_inv s'"
proof -
  let ?s = "s\<lparr>cpu_me := c\<rparr>"
  obtain s1 where 1: "kfree (p_kstack (proc_at ?s np)) ?s = Ok () s1"
    and 2: "s' = s1\<lparr>procs := upd_nth np (p_state_update (\<lambda>_. UNUSED)) (upd_nth np (p_kstack_update (\<lambda>_. 0)) (procs s1))\<rparr>"
    using r by (auto simp: fork_abort_def kseq_eq_Ok updp_def)
  note m = kmem_more_fields [OF keepsD [OF keeps_kmem(2) 1]] keepsD [OF keeps_kmem(4) 1]
  have np: "np < NPROC" "p_state (procs s ! np) = EMBRYO" "length (procs s) = NPROC"
    using e tab_invD(1) [OF pt_inv_tab(1) [OF inv]] by (simp_all add: embryo_def)
  let ?q = "(procs s ! np)\<lparr>p_kstack := 0, p_state := UNUSED\<rparr>"
  have "tab_inv ((procs s)[np := ?q]) (cproc s) (initproc s) (nextpid s)"
    using np e(2) by (intro tab_inv_move [OF pt_inv_tab(1) [OF inv]]) auto
  moreover have "procs s' = (procs s)[np := ?q]" using m np by (simp add: 2 upd_nth_def)
  ultimately show ?thesis using inv m by (simp add: 2 pt_inv_def)
qed

lemma pt_inv_publish:
  assumes inv: "pt_inv s" and e: "embryo s np"
    and r: "set_runnable np (s\<lparr>cpu_me := c\<rparr>) = Ok () s'"
  shows "pt_inv s'"
proof -
  have np: "np < NPROC" "p_state (procs s ! np) = EMBRYO" "length (procs s) = NPROC" "held s = {}"
    using e tab_invD(1) [OF pt_inv_tab(1) [OF inv]] pt_inv_tab(2) [OF inv] by (simp_all add: embryo_def)
  let ?q = "(procs s ! np)\<lparr>p_state := RUNNABLE\<rparr>"
  have s': "s' = s\<lparr>cpu_me := c, procs := (procs s)[np := ?q]\<rparr>"
    using r np by (simp add: set_runnable_def kstep upd_nth_def)
  have "p_parent (procs s ! np) = Some j \<Longrightarrow> j \<noteq> np \<and> grown (procs s) j" for j
    using tab_invD(8) [OF pt_inv_tab(1) [OF inv] np(1), of j] np by (auto simp: grown_def)
  then have "tab_inv ((procs s)[np := ?q]) (cproc s) (initproc s) (nextpid s)"
    using np by (intro tab_inv_move [OF pt_inv_tab(1) [OF inv]]) auto
  then show ?thesis using inv by (simp add: s' pt_inv_def)
qed


lemma pt_inv_leave:
  assumes inv: "pt_inv s" and c: "on_cpu s c i"
    and t: "t = s\<lparr>cpu_me := c, held := {PtableLock}, procs := upd_nth i f (procs s)\<rparr>" "switch_back t = Ok u s'"
    and f: "\<And>p. p_pid (f p) = p_pid p" "\<And>p. p_parent (f p) = p_parent p"
      "\<And>p. p_state (f p) = RUNNABLE \<or> p_state (f p) = SLEEPING"
  shows "pt_inv s'"
proof -
  have s': "s' = t\<lparr>cr3 := V2P (kpgdir t), cproc := (cproc t)[cpu_me t := None], held := {}\<rparr>"
    using t by (simp add: switch_back_run)
  have "tab_inv ((procs s)[i := f (procs s ! i)]) ((cproc s)[c := None]) (initproc s) (nextpid s)"
    using c f by (intro tab_inv_leave [OF pt_inv_tab(1) [OF inv]]) (simp_all add: on_cpu_def)
  then show ?thesis using inv by (simp add: s' t(1) pt_inv_def upd_nth_def)
qed

lemma pt_inv_yield:
  assumes inv: "pt_inv s" and c: "on_cpu s c i"
    and r: "yield (s\<lparr>cpu_me := c\<rparr>) = Sched t" "switch_back t = Ok () s'"
  shows "pt_inv s'"
proof -
  have "t = s\<lparr>cpu_me := c, held := {PtableLock}, procs := upd_nth i (p_state_update (\<lambda>_. RUNNABLE)) (procs s)\<rparr>"
    using r(1) yield_run [OF pt_inv_on_cpu(1) [OF inv c]] pt_inv_tab(2) [OF inv] by simp
  then show ?thesis by (rule pt_inv_leave [OF inv c _ r(2)]) simp_all
qed

lemma pt_inv_sleep:
  assumes inv: "pt_inv s" and c: "on_cpu s c i"
    and r: "sleep ch (Some lk) (s\<lparr>cpu_me := c, held := {lk}\<rparr>) = Sched t" "switch_back t = Ok () s'"
  shows "pt_inv s'"
proof -
  have "t = s\<lparr>cpu_me := c, held := {PtableLock}, procs := upd_nth i (asleep ch) (procs s)\<rparr>"
    using r(1) sleep_run [OF pt_inv_on_cpu(5) [OF inv c], of "{lk}" lk ch] by simp
  then show ?thesis by (rule pt_inv_leave [OF inv c _ r(2)]) (simp_all add: asleep_def)
qed

lemma pt_inv_exit:
  assumes inv: "pt_inv s" and c: "on_cpu s c i" and ni: "initproc s \<noteq> Some i"
    and r: "exit_finish (s\<lparr>cpu_me := c\<rparr>) = Sched t" "switch_back t = Ok () s'"
  shows "pt_inv s'"
proof -
  note ci = pt_inv_on_cpu [OF inv c]
  let ?s = "s\<lparr>cpu_me := c\<rparr>"
  have len: "length (procs ?s) = NPROC" using ci(4) by (simp add: table_ok_def)
  have ok: "table_ok ?s" using ci(4) by (simp add: table_ok_def)
  have t: "t = ?s\<lparr>held := {PtableLock}, procs := gone i ?s\<rparr>"
    using r(1) exit_finish_run [OF ci(1) ok] pt_inv_tab(2) [OF inv] by simp
  then have s': "s' = t\<lparr>cr3 := V2P (kpgdir t), cproc := (cproc t)[cpu_me t := None], held := {}\<rparr>"
    using r(2) by (simp add: switch_back_run)
  obtain rp where rp: "initproc s = Some rp" using inv by (auto simp: pt_inv_def)
  note g = gone_nth [OF _ len ci(2)]
  have st: "(p_state (gone i ?s ! j) = UNUSED \<longleftrightarrow> p_state (procs s ! j) = UNUSED) \<and>
      (p_state (gone i ?s ! j) = EMBRYO \<longleftrightarrow> p_state (procs s ! j) = EMBRYO) \<and>
      (p_state (gone i ?s ! j) = ZOMBIE \<longleftrightarrow> p_state (procs s ! j) = ZOMBIE) \<and>
      (p_state (gone i ?s ! j) = RUNNING \<longleftrightarrow> p_state (procs s ! j) = RUNNING)" if "j < NPROC" "j \<noteq> i" for j
    using g(5) [OF that] by (simp split: if_splits)
  have "tab_inv (gone i ?s) ((cproc s)[c := None]) (Some rp) (nextpid s)"
  proof (rule tab_inv_exit)
    show "tab_inv (procs s) (cproc s) (Some rp) (nextpid s)" using pt_inv_tab(1) [OF inv] rp by simp
    show "length (gone i ?s) = NPROC" by (rule g(1) [OF ci(2)])
    show "p_pid (gone i ?s ! i) = p_pid (procs s ! i)" using g(2) [OF ci(2)] by simp
    show "p_state (gone i ?s ! i) = ZOMBIE" by (rule g(4) [OF ci(2)])
    show "p_parent (gone i ?s ! j) = (if p_parent (procs s ! j) = Some i then Some rp else p_parent (procs s ! j))"
      if "j < NPROC" for j using g(3) [OF that] rp by simp
    show "p_pid (gone i ?s ! j) = p_pid (procs s ! j) \<and>
      (p_state (gone i ?s ! j) = UNUSED \<longleftrightarrow> p_state (procs s ! j) = UNUSED) \<and>
      (p_state (gone i ?s ! j) = EMBRYO \<longleftrightarrow> p_state (procs s ! j) = EMBRYO) \<and>
      (p_state (gone i ?s ! j) = ZOMBIE \<longleftrightarrow> p_state (procs s ! j) = ZOMBIE) \<and>
      (p_state (gone i ?s ! j) = RUNNING \<longleftrightarrow> p_state (procs s ! j) = RUNNING)" if "j < NPROC" "j \<noteq> i" for j
      using g(2) [OF that(1)] st [OF that] by simp
  qed (use c ni rp in \<open>auto simp: on_cpu_def\<close>)
  then show ?thesis using inv rp by (simp add: s' t pt_inv_def)
qed

text \<open>Under the lock: a scan of wait that ends the call.\<close>

lemma wait_scan_tab:
  assumes r: "wait_scan s = Ok (Inr x) s'" and run: "runs s i" and h: "held s = {PtableLock}"
    and t: "tab_inv (procs s) (cproc s) (initproc s) (nextpid s)"
  shows "tab_inv (procs s') (cproc s') (initproc s') (nextpid s')" "held s' = {}" "initproc s' = initproc s"
    "nextpid s' = nextpid s"
proof -
  have "(\<exists>p<length (procs s). p_state (procs s ! p) = ZOMBIE \<and> reap p s = Ok x s') \<or> s' = s\<lparr>held := {}\<rparr>"
    using wait_scan_cases [OF r run] h by auto
  then have "tab_inv (procs s') (cproc s') (initproc s') (nextpid s') \<and> held s' = {} \<and>
      initproc s' = initproc s \<and> nextpid s' = nextpid s"
  proof (elim disjE exE conjE)
    fix p assume p: "p < length (procs s)" "p_state (procs s ! p) = ZOMBIE" "reap p s = Ok x s'"
    note rp = reap_Ok [OF p(3,1)]
    have "p < NPROC" using p(1) tab_invD(1) [OF t] by simp
    then have "tab_inv ((procs s)[p := reaped (procs s ! p)]) (cproc s) (initproc s) (nextpid s)"
      using p(2) by (intro tab_inv_reap [OF t]) (simp_all add: reaped_def)
    then show ?thesis using rp h by (simp add: upd_nth_def)
  next
    assume "s' = s\<lparr>held := {}\<rparr>"
    then show ?thesis using t by simp
  qed
  then show "tab_inv (procs s') (cproc s') (initproc s') (nextpid s')" "held s' = {}" "initproc s' = initproc s"
    "nextpid s' = nextpid s" by blast+
qed

lemma nosched_updp [through]: "nosched (updp i f)"
  unfolding updp_def by (intro through)

lemma nosched_reap [through]: "nosched (reap p)"
  unfolding reap_def by (intro through nosched_state [of kfree] nosched_state [of freevm])

lemma nosched_wait_scan: "nosched wait_scan"
  unfolding nosched_def
proof (intro allI notI)
  fix s :: "'z ptab_scheme" and t
  assume "wait_scan s = Sched t"
  then obtain p where "kbind (reap p) (\<lambda>pid. ret (Inr pid :: unit + cint)) s = Sched t"
    by (auto simp: wait_scan_def Let_def kseq_def kbind_def release_def split: option.splits if_splits)
  moreover have "nosched (kbind (reap p) (\<lambda>pid. ret (Inr pid :: unit + cint)))" by (intro through)
  ultimately show False by (rule noschedD [rotated])
qed

lemma wait_Ok:
  assumes "wait s = Ok x s'" "held s = {}" "runs s i"
  shows "wait_scan (s\<lparr>held := {PtableLock}\<rparr>) = Ok (Inr x) s'"
proof -
  obtain r s1 where 1: "wait_scan (s\<lparr>held := {PtableLock}\<rparr>) = Ok r s1"
    and 2: "(case r of Inr x \<Rightarrow> ret x | Inl _ \<Rightarrow>
      (\<lambda>s. kseq (sleep (ChProc (curproc s)) (Some PtableLock)) (ret 0) s)) s1 = Ok x s'"
    using assms(1,2) by (auto simp: wait_def kseq_eq_Ok kbind_eq_Ok acquire_def)
  show ?thesis
  proof (cases r)
    case (Inr y)
    then show ?thesis using 1 2 by simp
  next
    case (Inl y)
    have run: "runs (s\<lparr>held := {PtableLock}\<rparr>) i" using assms(3) by (simp add: runs_def)
    have "s1 = s\<lparr>held := {PtableLock}\<rparr>" using wait_scan_cases [OF 1 run] Inl by simp
    then show ?thesis using 2 Inl sleep_run [OF run, of PtableLock] by (simp add: kseq_def kbind_def)
  qed
qed

lemma wait_Sched:
  assumes "wait s = Sched t" "held s = {}" "runs s i"
  shows "t = s\<lparr>held := {PtableLock}, procs := upd_nth i (asleep (ChProc i)) (procs s)\<rparr>"
proof -
  have run: "runs (s\<lparr>held := {PtableLock}\<rparr>) i" using assms(3) by (simp add: runs_def)
  have cur: "curproc s = i" by (rule runsD(1) [OF assms(3)])
  show ?thesis
  proof (cases "wait_scan (s\<lparr>held := {PtableLock}\<rparr>)")
    case (Ok r s1)
    then have "\<exists>y. r = Inl y"
      using assms(1,2) by (cases r) (auto simp: wait_def kseq_def kbind_def acquire_def)
    then have "s1 = s\<lparr>held := {PtableLock}\<rparr>" using wait_scan_cases [OF Ok run] by auto
    then show ?thesis
      using assms(1,2) Ok \<open>\<exists>y. r = Inl y\<close> cur sleep_run [OF run, of PtableLock]
      by (auto simp: wait_def kseq_def kbind_def acquire_def)
  next
    case (Sched s1)
    then show ?thesis by (rule noschedD [OF nosched_wait_scan])
  qed (use assms(1,2) in \<open>auto simp: wait_def kseq_def kbind_def acquire_def\<close>)
qed


lemma pt_inv_wait_done:
  assumes inv: "pt_inv s" and c: "on_cpu s c i" and r: "wait (s\<lparr>cpu_me := c\<rparr>) = Ok x s'"
  shows "pt_inv s'"
proof -
  note ci = pt_inv_on_cpu [OF inv c]
  have w: "wait_scan (s\<lparr>cpu_me := c, held := {PtableLock}\<rparr>) = Ok (Inr x) s'"
    using wait_Ok [OF r _ ci(1)] pt_inv_tab(2) [OF inv] by simp
  note t = wait_scan_tab [OF w ci(5)]
  show ?thesis using t inv by (simp add: pt_inv_def)
qed

lemma pt_inv_wait_block:
  assumes inv: "pt_inv s" and c: "on_cpu s c i"
    and r: "wait (s\<lparr>cpu_me := c\<rparr>) = Sched t" "switch_back t = Ok () s'"
  shows "pt_inv s'"
proof -
  have "t = s\<lparr>cpu_me := c, held := {PtableLock}, procs := upd_nth i (asleep (ChProc i)) (procs s)\<rparr>"
    using wait_Sched [OF r(1) _ pt_inv_on_cpu(1) [OF inv c]] pt_inv_tab(2) [OF inv] by simp
  then show ?thesis by (rule pt_inv_leave [OF inv c _ r(2)]) (simp_all add: asleep_def)
qed

text \<open>A CPU has picked a process: it runs, with the lock held.\<close>

lemma switched_to:
  assumes inv: "pt_inv s" and c: "c < length (cproc s)" "cproc s ! c = None" "i < NPROC"
    and r: "switch_to i (s\<lparr>cpu_me := c\<rparr>) = Ok u t"
  shows "tab_inv (procs t) (cproc t) (initproc t) (nextpid t)" "held t = {PtableLock}" "runs t i"
    "initproc t = initproc s" "nextpid t = nextpid s" "cpu_me t = c" "on_cpu t c i" "ptab.more t = ptab.more s"
    "procs t = upd_nth i (p_state_update (\<lambda>_. RUNNING)) (procs s)" "p_state (procs s ! i) = RUNNABLE"
proof -
  note w = switch_to_Ok [OF r]
  have tb: "tab_inv (procs s) (cproc s) (initproc s) (nextpid s)" "held s = {}" using pt_inv_tab [OF inv] by simp_all
  have "tab_inv ((procs s)[i := (procs s ! i)\<lparr>p_state := RUNNING\<rparr>]) ((cproc s)[c := Some i]) (initproc s) (nextpid s)"
    using w(1) c by (intro tab_inv_pick [OF tb(1)]) simp_all
  then show "tab_inv (procs t) (cproc t) (initproc t) (nextpid t)" using w by (simp add: upd_nth_def)
  show "held t = {PtableLock}" "initproc t = initproc s" "nextpid t = nextpid s" "cpu_me t = c" "ptab.more t = ptab.more s"
    "procs t = upd_nth i (p_state_update (\<lambda>_. RUNNING)) (procs s)" "p_state (procs s ! i) = RUNNABLE"
    using w tb by simp_all
  show "runs t i" "on_cpu t c i" using w c tab_invD(1) [OF tb(1)] by (simp_all add: runs_def myproc_def on_cpu_def)
qed

lemma pt_inv_pick:
  assumes inv: "pt_inv s" and c: "c < length (cproc s)" "cproc s ! c = None" "i < NPROC"
    and r: "kseq (switch_to i) (release PtableLock) (s\<lparr>cpu_me := c\<rparr>) = Ok u s'"
  shows "pt_inv s'"
proof -
  obtain t where t: "switch_to i (s\<lparr>cpu_me := c\<rparr>) = Ok () t" "release PtableLock t = Ok u s'"
    using r by (auto simp: kseq_eq_Ok)
  note w = switched_to [OF inv c t(1)]
  have "s' = t\<lparr>held := {}\<rparr>" using t(2) w(2) by (simp add: release_def)
  then show ?thesis using w inv by (simp add: pt_inv_def)
qed

definition tidy :: "nat \<Rightarrow> 'z ptab_scheme \<Rightarrow> 'z ptab_scheme" where
  "tidy i s = s\<lparr>procs := upd_nth i (p_chan_update (\<lambda>_. ChNull)) (procs s)\<rparr>"

lemma tidy_tab:
  assumes "tab_inv (procs t) (cproc t) (initproc t) (nextpid t)"
  shows "tab_inv (procs (tidy i t)) (cproc t) (initproc t) (nextpid t)"
  by (rule tab_inv_cong [OF assms]) (use tab_invD(1) [OF assms] in \<open>simp_all add: tidy_def\<close>)

lemma pt_inv_pick_sleeper:
  assumes inv: "pt_inv s" and c: "c < length (cproc s)" "cproc s ! c = None" "i < NPROC"
    and r: "kseq (switch_to i) (sleep_exit None) (s\<lparr>cpu_me := c\<rparr>) = Ok u s'"
  shows "pt_inv s'"
proof -
  obtain t where t: "switch_to i (s\<lparr>cpu_me := c\<rparr>) = Ok () t" "sleep_exit None t = Ok u s'"
    using r by (auto simp: kseq_eq_Ok)
  note w = switched_to [OF inv c t(1)]
  have "s' = (tidy i t)\<lparr>held := {}\<rparr>"
    using t(2) w(2) runsD(1) [OF w(3)] by (simp add: sleep_exit_def kstep tidy_def)
  then show ?thesis using w inv tidy_tab [OF w(1), of i] by (simp add: pt_inv_def tidy_def)
qed

lemma wait_resume_eq:
  "runs t i \<Longrightarrow> wait_resume t = wait_scan (tidy i t)"
  using runsD(1) [of t i] by (simp add: wait_resume_def sleep_exit_def kstep tidy_def)

lemma pt_inv_pick_waiter:
  assumes inv: "pt_inv s" and c: "c < length (cproc s)" "cproc s ! c = None" "i < NPROC"
    and r: "kseq (switch_to i) wait_resume (s\<lparr>cpu_me := c\<rparr>) = Ok (Inr x) s'"
  shows "pt_inv s'"
proof -
  obtain t where t: "switch_to i (s\<lparr>cpu_me := c\<rparr>) = Ok () t" "wait_resume t = Ok (Inr x) s'"
    using r by (auto simp: kseq_eq_Ok)
  note w = switched_to [OF inv c t(1)]
  have "wait_scan (tidy i t) = Ok (Inr x) s'" using t(2) wait_resume_eq [OF w(3)] by simp
  moreover have "runs (tidy i t) i" using w(3) by (simp add: tidy_def runs_def)
  moreover have "held (tidy i t) = {PtableLock}" using w(2) by (simp add: tidy_def)
  moreover have "tab_inv (procs (tidy i t)) (cproc (tidy i t)) (initproc (tidy i t)) (nextpid (tidy i t))"
    using tidy_tab [OF w(1), of i] by (simp add: tidy_def)
  ultimately show ?thesis
    using wait_scan_tab [of "tidy i t" x s' i] w(4,5) inv by (simp add: pt_inv_def tidy_def)
qed

lemma pt_inv_pick_waiter_again:
  assumes inv: "pt_inv s" and c: "c < length (cproc s)" "cproc s ! c = None" "i < NPROC"
    and r: "kseq (switch_to i) wait_resume (s\<lparr>cpu_me := c\<rparr>) = Ok (Inl ()) t'"
    "sleep (ChProc i) (Some PtableLock) t' = Sched t''" "switch_back t'' = Ok () s'"
  shows "pt_inv s'"
proof -
  obtain t where t: "switch_to i (s\<lparr>cpu_me := c\<rparr>) = Ok () t" "wait_resume t = Ok (Inl ()) t'"
    using r by (auto simp: kseq_eq_Ok)
  note w = switched_to [OF inv c t(1)]
  have run: "runs (tidy i t) i" using w(3) by (simp add: tidy_def runs_def)
  have t': "t' = tidy i t" using wait_scan_cases [OF _ run] t(2) wait_resume_eq [OF w(3)] by fastforce
  have inv': "pt_inv ((tidy i t)\<lparr>held := {}\<rparr>)"
    using tidy_tab [OF w(1), of i] w(4,5) inv by (simp add: pt_inv_def tidy_def)
  have cpu: "on_cpu ((tidy i t)\<lparr>held := {}\<rparr>) c i" using w(7) by (simp add: on_cpu_def tidy_def)
  have me: "(tidy i t)\<lparr>cpu_me := c\<rparr> = tidy i t" using w(6) by (simp add: tidy_def)
  have "t'' = (tidy i t)\<lparr>held := {}, cpu_me := c, held := {PtableLock}, procs := upd_nth i (asleep (ChProc i)) (procs (tidy i t))\<rparr>"
    using r(2) sleep_run [OF run, of PtableLock "ChProc i"] w(2,6) t' me by (simp add: tidy_def)
  then show ?thesis by (intro pt_inv_leave [OF inv' cpu _ r(3), of "asleep (ChProc i)"]) (simp_all add: asleep_def tidy_def)
qed

lemma pt_step_inv: "pt_step s s' \<Longrightarrow> pt_inv s \<Longrightarrow> pt_inv s'"
proof (induction rule: pt_step.induct)
  case alloc then show ?case using pt_inv_alloc by blast
next
  case inherit then show ?case using pt_inv_inherit by blast
next
  case abort then show ?case using pt_inv_abort by blast
next
  case publish then show ?case using pt_inv_publish by blast
next
  case wake then show ?case using pt_inv_wake by blast
next
  case kill then show ?case using pt_inv_kill by blast
next
  case wait_done then show ?case using pt_inv_wait_done by blast
next
  case wait_block then show ?case using pt_inv_wait_block by blast
next
  case yield then show ?case using pt_inv_yield by blast
next
  case sleep then show ?case using pt_inv_sleep by blast
next
  case exit then show ?case using pt_inv_exit by blast
next
  case pick then show ?case using pt_inv_pick by blast
next
  case pick_sleeper then show ?case using pt_inv_pick_sleeper by blast
next
  case pick_waiter then show ?case using pt_inv_pick_waiter by blast
next
  case pick_waiter_again then show ?case using pt_inv_pick_waiter_again by blast
qed

subsection \<open>The theorem\<close>

text \<open>A table as userinit leaves it: init runnable in slot 0, everything else free, one CPU.\<close>

definition free_p :: proc where
  "free_p = \<lparr>p_start_ticks = 0, p_sz = 0, p_pgdir = 0, p_kstack = 0, p_state = UNUSED, p_pid = 0, p_parent = None,
     p_tf = 0, p_context = 0, p_chan = ChNull, p_killed = False, p_ofile = replicate NOFILE None, p_cwd = None,
     p_name = replicate 16 0\<rparr>"

definition init_p :: proc where
  "init_p = free_p\<lparr>p_sz := 4096, p_pgdir := 0x80200000, p_kstack := 0x80201000, p_state := RUNNABLE, p_pid := 1,
     p_cwd := Some 0, p_name := map of_char ''initcode'' @ replicate 8 0\<rparr>"

definition boot_ptab :: ptab where
  "boot_ptab = \<lparr>held = {}, mem = (\<lambda>_. 0), freelist = 0x80300000, use_lock = True, kend = 0x80112345,
     kdata = 0x80108000, kpgdir = 0x80100000, cr3 = 0, gdt = (\<lambda>_. SEG 0 0 0 0), ts_addr = 0, ts_esp0 = 0, ts_ss0 = 0,
     ts_iomb = 0, conslog = [], procs = init_p # replicate (NPROC - 1) free_p, nextpid = 2, initproc = Some 0,
     cproc = [None], cpu_me = 0, ticks = 0, a_trapret = 0x80105000, a_forkret = 0x80103000\<rparr>"

lemma boot_procs:
  "procs boot_ptab ! 0 = init_p" "j < NPROC \<Longrightarrow> j \<noteq> 0 \<Longrightarrow> procs boot_ptab ! j = free_p"
  "length (procs boot_ptab) = NPROC" "held boot_ptab = {}" "cproc boot_ptab = [None]" "initproc boot_ptab = Some 0"
  "nextpid boot_ptab = 2"
  by (auto simp: boot_ptab_def nth_Cons' NPROC_def)

lemma NPROC_pos [simp]: "0 < NPROC"
  by (simp add: NPROC_def)

lemma boot_slot: "j < NPROC \<Longrightarrow> procs boot_ptab ! j = (if j = 0 then init_p else free_p)"
  using boot_procs by auto

lemma boot_inv: "pt_inv boot_ptab"
proof -
  have "tab_inv (procs boot_ptab) [None] (Some 0) 2"
    by (rule tab_invI) (auto simp: boot_procs boot_slot init_p_def free_p_def grown_def split: if_splits)
  then show ?thesis by (simp add: pt_inv_def boot_procs)
qed


lemma boot_pick: "\<exists>s. pt_step boot_ptab s \<and> on_cpu s 0 0"
proof -
  have "\<exists>s'. kseq (switch_to 0) (release PtableLock) (boot_ptab\<lparr>cpu_me := 0\<rparr>) = Ok () s'"
    by (simp add: switch_to_def sched_pick_def switchuvm_def kstep proc_at_def boot_ptab_def init_p_def free_p_def)
  then obtain s' where s': "kseq (switch_to 0) (release PtableLock) (boot_ptab\<lparr>cpu_me := 0\<rparr>) = Ok () s'" ..
  then have "pt_step boot_ptab s'" by (rule pt_step.pick [rotated 3]) (simp_all add: boot_procs)
  moreover obtain t where t: "switch_to 0 (boot_ptab\<lparr>cpu_me := 0\<rparr>) = Ok () t" "release PtableLock t = Ok () s'"
    using s' by (auto simp: kseq_eq_Ok)
  have "on_cpu s' 0 0" using switch_to_Ok(5) [OF t(1)] t(2) by (auto simp: on_cpu_def release_def boot_procs split: if_splits)
  ultimately show ?thesis by blast
qed


end
