(* ===== verification/Proc_Props.thy ===== *)
theory Proc_Props
  imports Ptable_Inv
begin

text \<open>
  What sleep and wakeup, exit, wait, the scheduler and kill do, stated for a single call: the
  results and the table on every branch.
\<close>




text \<open>
  C10: the end of exit. The process reaches the scheduler as a ZOMBIE with \<^verbatim>\<open>ptable.lock\<close> held; its
  children, and only they, now belong to init; its parent, if asleep in wait, is runnable, and so is
  init if it inherited a zombie; no other process changes state.
\<close>

theorem exit_hands_over:
  assumes "runs s i" "table_ok s" "held s = {}"
  shows "\<exists>t. exit_finish s = Sched t \<and> held t = {PtableLock} \<and> p_state (procs t ! i) = ZOMBIE \<and>
    (\<forall>j<NPROC. p_parent (procs t ! j) =
       (if p_parent (procs s ! j) = Some i then initproc s else p_parent (procs s ! j))) \<and>
    (\<forall>j<NPROC. j \<noteq> i \<longrightarrow> p_state (procs t ! j) =
       (if p_state (procs s ! j) = SLEEPING \<and>
           (p_chan (procs s ! j) = chan_of (p_parent (procs s ! i)) \<or>
            p_chan (procs s ! j) = chan_of (initproc s) \<and>
              (\<exists>u<NPROC. p_parent (procs s ! u) = Some i \<and> p_state (procs s ! u) = ZOMBIE))
        then RUNNABLE else p_state (procs s ! j)))"
proof -
  have n: "length (procs s) = NPROC" "i < NPROC" using assms(2) runsD(2) [OF assms(1)] by (simp_all add: table_ok_def)
  show ?thesis using exit_finish_run [OF assms] gone_nth [OF _ n] n(2) by simp
qed

theorem exit_hands_over_witness:
  "\<exists>t. exit_finish (boot_ptab\<lparr>cproc := [Some 0]\<rparr>) = Sched t \<and> p_state (procs t ! 0) = ZOMBIE"
  using exit_hands_over [of "boot_ptab\<lparr>cproc := [Some 0]\<rparr>" 0]
  by (auto simp: runs_def myproc_def table_ok_def boot_procs boot_ptab_def)




subsection \<open>One pass of the scheduler\<close>

lemma switchuvm_run:
  "k \<noteq> 0 \<Longrightarrow> d \<noteq> 0 \<Longrightarrow> \<exists>t. switchuvm (Some (k, d)) s = Ok () t"
  by (simp add: switchuvm_def kstep)

lemma sched_pick_run:
  assumes "p_kstack (procs s ! i) \<noteq> 0" "p_pgdir (procs s ! i) \<noteq> 0"
  shows "\<exists>t. sched_pick i s = Ok () t \<and> procs t = upd_nth i (p_state_update (\<lambda>_. RUNNING)) (procs s) \<and>
    cproc t = (cproc s)[cpu_me s := Some i] \<and> held t = held s \<and> cpu_me t = cpu_me s \<and> ptab.more t = ptab.more s"
proof -
  let ?s = "s\<lparr>cproc := (cproc s)[cpu_me s := Some i]\<rparr>"
  obtain t where t: "switchuvm (Some (p_kstack (procs s ! i), p_pgdir (procs s ! i))) ?s = Ok () t"
    using switchuvm_run [OF assms, of ?s] by blast
  note m = vmst_more_fields [OF keepsD [OF keeps_switchuvm(1) t]] keepsD [OF keeps_switchuvm(2) t]
    ptab_more_vmst [OF keepsD [OF keeps_switchuvm(1) t]]
  show ?thesis using t m by (simp add: sched_pick_def kstep proc_at_def)
qed

text \<open>
  The scheduler's side of the contract, at both ends of a switch: the lock is held and nothing
  else, and a runnable process has a kernel stack and a page table.
\<close>

definition sched_ready :: "'z ptab_scheme \<Rightarrow> bool" where
  "sched_ready s \<longleftrightarrow> table_ok s \<and> held s = {PtableLock} \<and> cpu_me s < length (cproc s) \<and>
     (\<forall>j<NPROC. p_state (procs s ! j) = RUNNABLE \<longrightarrow> p_kstack (procs s ! j) \<noteq> 0 \<and> p_pgdir (procs s ! j) \<noteq> 0)"

text \<open>
  What processes do while they run, with a trace of who ran kept beside the state: each run ends
  in the scheduler and does not stop another process from being runnable.
\<close>

definition good_run :: "(nat \<Rightarrow> (nat list ptab_scheme, unit) kern) \<Rightarrow> bool" where
  "good_run run \<longleftrightarrow> (\<forall>i t. sched_ready t \<and> i < NPROC \<and> myproc t = Some i \<and> p_state (procs t ! i) = RUNNING \<longrightarrow>
     (\<exists>t'. run i t = Ok () t' \<and> sched_ready t' \<and> cpu_me t' = cpu_me t \<and> ptab.more t' = ptab.more t @ [i] \<and>
       (\<forall>j<NPROC. j \<noteq> i \<and> p_state (procs t ! j) = RUNNABLE \<longrightarrow> p_state (procs t' ! j) = RUNNABLE)))"

lemma sched_slot_run:
  assumes g: "good_run run" and r: "sched_ready s" and i: "i < NPROC" "p_state (procs s ! i) = RUNNABLE"
  shows "\<exists>t. sched_slot run i a s = Ok False t \<and> sched_ready t \<and> cpu_me t = cpu_me s \<and>
    ptab.more t = ptab.more s @ [i] \<and>
    (\<forall>j<NPROC. j \<noteq> i \<and> p_state (procs s ! j) = RUNNABLE \<longrightarrow> p_state (procs t ! j) = RUNNABLE)"
proof -
  have len: "length (procs s) = NPROC" using r by (simp add: sched_ready_def table_ok_def)
  obtain t where t: "sched_pick i s = Ok () t" "procs t = upd_nth i (p_state_update (\<lambda>_. RUNNING)) (procs s)"
    "cproc t = (cproc s)[cpu_me s := Some i]" "held t = held s" "cpu_me t = cpu_me s" "ptab.more t = ptab.more s"
    using sched_pick_run [of s i] r i by (auto simp: sched_ready_def)
  have rt: "sched_ready t" "myproc t = Some i" "p_state (procs t ! i) = RUNNING"
    using r i t len by (auto simp: sched_ready_def table_ok_def myproc_def)
  obtain t' where t': "run i t = Ok () t'" "sched_ready t'" "cpu_me t' = cpu_me t" "ptab.more t' = ptab.more t @ [i]"
    "\<forall>j<NPROC. j \<noteq> i \<and> p_state (procs t ! j) = RUNNABLE \<longrightarrow> p_state (procs t' ! j) = RUNNABLE"
    using g rt i(1) unfolding good_run_def by blast
  let ?u = "t'\<lparr>cr3 := V2P (kpgdir t'), cproc := (cproc t')[cpu_me t' := None]\<rparr>"
  have "sched_slot run i a s = Ok False ?u"
    using i t(1) t'(1) by (simp add: sched_slot_def kstep proc_at_def sched_back_def switchkvm_def)
  moreover have "sched_ready ?u" using t'(2) by (simp add: sched_ready_def table_ok_def)
  moreover have "ptab.more ?u = ptab.more s @ [i]" using t'(4) t(6) by simp
  moreover have "p_state (procs ?u ! j) = RUNNABLE" if "j < NPROC" "j \<noteq> i" "p_state (procs s ! j) = RUNNABLE" for j
    using t'(5) t(2) that len by simp
  ultimately show ?thesis using t(5) t'(3) by (intro exI [of _ ?u]) simp
qed

definition pass_inv :: "nat list ptab_scheme \<Rightarrow> nat list \<Rightarrow> bool \<Rightarrow> nat list ptab_scheme \<Rightarrow> bool" where
  "pass_inv s0 us idle s \<longleftrightarrow> sched_ready s \<and>
     (\<exists>tr. ptab.more s = ptab.more s0 @ tr \<and> sorted_wrt (<) tr \<and> set tr \<subseteq> set us \<and> (idle \<longleftrightarrow> tr = []) \<and>
       (\<forall>j\<in>set us. p_state (procs s0 ! j) = RUNNABLE \<longrightarrow> j \<in> set tr)) \<and>
     (\<forall>j<NPROC. j \<notin> set us \<and> p_state (procs s0 ! j) = RUNNABLE \<longrightarrow> p_state (procs s ! j) = RUNNABLE)"

lemma pass_inv_slot:
  assumes g: "good_run run" and v: "[0..<NPROC] = us @ v # ws" and I: "pass_inv s0 us a s"
  shows "\<exists>a' s'. sched_slot run v a s = Ok a' s' \<and> pass_inv s0 (us @ [v]) a' s'"
proof -
  have "distinct (us @ v # ws)" "sorted_wrt (<) (us @ v # ws)" using v by (metis distinct_upt, metis sorted_wrt_upt)
  then have vu: "v \<notin> set us" "\<forall>u\<in>set us. u < v" by (auto simp: sorted_wrt_append)
  have vn: "v < NPROC" using v by (metis atLeastLessThan_iff in_set_conv_decomp set_upt)
  obtain tr where r: "sched_ready s" and tr: "ptab.more s = ptab.more s0 @ tr" "sorted_wrt (<) tr" "set tr \<subseteq> set us"
      "a \<longleftrightarrow> tr = []" "\<forall>j\<in>set us. p_state (procs s0 ! j) = RUNNABLE \<longrightarrow> j \<in> set tr"
    and later: "\<forall>j<NPROC. j \<notin> set us \<and> p_state (procs s0 ! j) = RUNNABLE \<longrightarrow> p_state (procs s ! j) = RUNNABLE"
    using I unfolding pass_inv_def by blast
  show ?thesis
  proof (cases "p_state (procs s ! v) = RUNNABLE")
    case True
    obtain t where t: "sched_slot run v a s = Ok False t" "sched_ready t" "ptab.more t = ptab.more s @ [v]"
      "\<forall>j<NPROC. j \<noteq> v \<and> p_state (procs s ! j) = RUNNABLE \<longrightarrow> p_state (procs t ! j) = RUNNABLE"
      using sched_slot_run [OF g r vn True, of a] by blast
    have "ptab.more t = ptab.more s0 @ (tr @ [v])" "sorted_wrt (<) (tr @ [v])" "set (tr @ [v]) \<subseteq> set (us @ [v])"
      "\<forall>j\<in>set (us @ [v]). p_state (procs s0 ! j) = RUNNABLE \<longrightarrow> j \<in> set (tr @ [v])"
      using t(3) tr vu by (auto simp: sorted_wrt_append)
    moreover have "\<forall>j<NPROC. j \<notin> set (us @ [v]) \<and> p_state (procs s0 ! j) = RUNNABLE \<longrightarrow> p_state (procs t ! j) = RUNNABLE"
      using later t(4) by simp
    ultimately have "pass_inv s0 (us @ [v]) False t" using t(2) unfolding pass_inv_def by blast
    then show ?thesis using t(1) by blast
  next
    case False
    then have "sched_slot run v a s = Ok a s" by (simp add: sched_slot_def kstep proc_at_def)
    moreover have "p_state (procs s0 ! v) \<noteq> RUNNABLE" using later vn vu False by blast
    then have "pass_inv s0 (us @ [v]) a s" using r tr later unfolding pass_inv_def by auto
    ultimately show ?thesis by blast
  qed
qed


text \<open>Processes that go to sleep at once, writing themselves into the trace.\<close>

definition dozing :: "nat \<Rightarrow> (nat list ptab_scheme, unit) kern" where
  "dozing i = modify (\<lambda>s. ptab.more_update (\<lambda>tr. tr @ [i])
     (s\<lparr>procs := upd_nth i (\<lambda>p. p\<lparr>p_state := SLEEPING\<rparr>) (procs s)\<rparr>))"

lemma dozing_good: "good_run dozing"
  unfolding good_run_def
  by (auto simp: dozing_def sched_ready_def table_ok_def)

definition traced :: "nat list ptab_scheme" where
  "traced = ptab.extend boot_ptab []"


text \<open>
  C13: kill with pid 0 finds a free slot instead of failing. It reports success and marks the slot, and the
  mark survives allocproc: the next process created in that slot starts out killed.
\<close>

theorem kill_zero_marks_next_process:
  assumes "find_slot (\<lambda>p. p_state p = UNUSED) (procs s) = Some i" "find_slot (\<lambda>p. p_pid p = 0) (procs s) = Some i"
    and "held s = {}" "freelist s \<noteq> 0"
  shows "\<exists>s1 s2. kill 0 s = Ok 0 s1 \<and> allocproc s1 = Ok (Some i) s2 \<and>
    p_state (procs s2 ! i) = EMBRYO \<and> p_killed (procs s2 ! i)"
proof -
  let ?s = "s\<lparr>procs := upd_nth i killed (procs s)\<rparr>"
  have i: "i < length (procs s)" "p_state (procs s ! i) = UNUSED" "\<forall>j<i. p_state (procs s ! j) \<noteq> UNUSED"
    using assms(1) by (auto simp: find_slot_Some)
  have k: "kill 0 s = Ok 0 ?s" using assms(2,3) by (simp add: kstep)
  have f: "find_slot (\<lambda>p. p_state p = UNUSED) (procs ?s) = Some i"
    unfolding find_slot_Some using i by (auto simp: killed_same)
  have "p_killed (procs ?s ! i)" using i(1) by (simp add: killed_def)
  then have "\<exists>s2. allocproc ?s = Ok (Some i) s2 \<and> p_state (procs s2 ! i) = EMBRYO \<and> p_killed (procs s2 ! i)"
    using allocproc_slot [OF f] assms(3,4) i(1) by auto
  then show ?thesis using k by blast
qed

theorem kill_zero_marks_next_process_witness:
  "\<exists>s1 s2. kill 0 boot_ptab = Ok 0 s1 \<and> allocproc s1 = Ok (Some 1) s2 \<and> p_killed (procs s2 ! 1)"
proof -
  have "find_slot (\<lambda>p. p_state p = UNUSED) (procs boot_ptab) = Some 1"
    "find_slot (\<lambda>p. p_pid p = 0) (procs boot_ptab) = Some 1"
    by (simp_all add: boot_ptab_def init_p_def free_p_def NPROC_def numeral_eq_Suc)
  then show ?thesis
    using kill_zero_marks_next_process [of boot_ptab 1] by (auto simp: boot_ptab_def)
qed

end
