(* ===== verification/Sleeplock.thy ===== *)
theory Sleeplock
  imports Ptable_Inv
begin

text \<open>
  sleeplock.c: locks a process may hold while it gives up the CPU. The sleep locks of the kernel live
  in a store \<open>slk\<close>, addressed by the spin lock inside each. The theorem follows every interleaving of
  acquiresleep and releasesleep on one lock: at most one process holds it, and no process sleeps on a
  lock that is free.
\<close>

record sleeplock =
  sl_locked :: bool
  sl_pid :: uint

record slst = ptab +
  slk :: "lockid \<Rightarrow> sleeplock"

definition set_slk :: "lockid \<Rightarrow> (sleeplock \<Rightarrow> sleeplock) \<Rightarrow> ('z slst_scheme, unit) kern" where
  "set_slk l f = modify (\<lambda>s. s\<lparr>slk := (slk s)(l := f (slk s l))\<rparr>)"

definition initsleeplock :: "lockid \<Rightarrow> ('z slst_scheme, unit) kern" where
  "initsleeplock l =
     kseq (modify (\<lambda>s. s\<lparr>held := held s - {l}\<rparr>))
     (kseq (set_slk l (sl_locked_update (\<lambda>_. False)))
           (set_slk l (sl_pid_update (\<lambda>_. 0))))"

text \<open>
  The loop of acquiresleep, entered with the spin lock held: from the call, and again whenever sleep
  returns (\<open>acquiresleep_resume\<close>).
\<close>

definition acquiresleep_loop :: "lockid \<Rightarrow> ('z slst_scheme, unit) kern" where
  "acquiresleep_loop l =
     kif (\<lambda>s. sl_locked (slk s l)) (sleep (ChSleeplk l) (Some l))
     (kseq (set_slk l (sl_locked_update (\<lambda>_. True)))
     (kseq (\<lambda>s. set_slk l (sl_pid_update (\<lambda>_. p_pid (proc_at s (curproc s)))) s)
           (release l)))"

definition acquiresleep :: "lockid \<Rightarrow> ('z slst_scheme, unit) kern" where
  "acquiresleep l = kseq (acquire l) (acquiresleep_loop l)"

definition acquiresleep_resume :: "lockid \<Rightarrow> ('z slst_scheme, unit) kern" where
  "acquiresleep_resume l = kseq (sleep_exit (Some l)) (acquiresleep_loop l)"

definition releasesleep :: "lockid \<Rightarrow> ('z slst_scheme, unit) kern" where
  "releasesleep l =
     kseq (acquire l)
     (kseq (set_slk l (sl_locked_update (\<lambda>_. False)))
     (kseq (set_slk l (sl_pid_update (\<lambda>_. 0)))
     (kseq (wakeup (ChSleeplk l))
           (release l))))"

definition holdingsleep :: "lockid \<Rightarrow> ('z slst_scheme, bool) kern" where
  "holdingsleep l =
     kseq (acquire l)
     (kbind (gets (\<lambda>s. sl_locked (slk s l))) (\<lambda>r.
      kseq (release l) (ret r)))"

subsection \<open>Closed forms\<close>

lemma set_slk_run [kstep]: "set_slk l f s = Ok () (s\<lparr>slk := (slk s)(l := f (slk s l))\<rparr>)"
  by (simp add: set_slk_def)

lemma holdingsleep_run [kstep]: "l \<notin> held s \<Longrightarrow> holdingsleep l s = Ok (sl_locked (slk s l)) s"
  by (simp add: holdingsleep_def kstep)

definition slk_held :: "uint \<Rightarrow> sleeplock" where
  "slk_held pid = \<lparr>sl_locked = True, sl_pid = pid\<rparr>"

definition slk_free :: sleeplock where
  "slk_free = \<lparr>sl_locked = False, sl_pid = 0\<rparr>"

lemma acquiresleep_free [kstep]:
  assumes "l \<notin> held s" "\<not> sl_locked (slk s l)"
  shows "acquiresleep l s = Ok () (s\<lparr>slk := (slk s)(l := slk_held (p_pid (proc_at s (curproc s))))\<rparr>)"
proof -
  have "\<And>x :: sleeplock. x\<lparr>sl_locked := True, sl_pid := y\<rparr> = slk_held y" for y by (simp add: slk_held_def)
  then show ?thesis
    using assms by (simp add: acquiresleep_def acquiresleep_loop_def kstep proc_at_def curproc_def myproc_def)
qed

lemma releasesleep_run [kstep]:
  assumes "l \<notin> held s" "PtableLock \<notin> held s" "l \<noteq> PtableLock" "table_ok s"
  shows "releasesleep l s = Ok () (s\<lparr>slk := (slk s)(l := slk_free), procs := map (wake (ChSleeplk l)) (procs s)\<rparr>)"
proof -
  have "\<And>x :: sleeplock. x\<lparr>sl_locked := False, sl_pid := 0\<rparr> = slk_free" by (simp add: slk_free_def)
  then show ?thesis
    using assms by (simp add: releasesleep_def kstep table_ok_def)
qed

lemma acquiresleep_loop_block:
  assumes "runs s i" "held s = {l}" "sl_locked (slk s l)"
  shows "acquiresleep_loop l s = Sched (s\<lparr>held := {PtableLock}, procs := upd_nth i (asleep (ChSleeplk l)) (procs s)\<rparr>)"
  using assms sleep_run [OF assms(1,2)] by (simp add: acquiresleep_loop_def kstep)

subsection \<open>What the operations leave unchanged\<close>

lemma keeps_sched [frame]: "keeps ptab.more sched"
  by (rule keepsI) (auto simp: sched_def kif_def split: if_splits)

lemma keeps_updp [frame]: "keeps ptab.more (updp i f)"
  by (simp add: updp_def keeps_modify)

lemma keeps_updp_state [frame]: "keeps ptab.more (\<lambda>s. updp (g s) (h s) s)"
  by (simp add: updp_def keeps_def)

lemma keeps_locks [frame]: "keeps ptab.more (acquire l)" "keeps ptab.more (release l)"
  by (simp_all add: keeps_def acquire_def release_def)

lemma keeps_sleep [frame]: "keeps ptab.more (sleep c lk)" "keeps ptab.more (sleep_exit lk)" "keeps ptab.more (wakeup c)"
  unfolding sleep_def sleep_enter_def sleep_exit_def wakeup_def wakeup1_def by (auto intro!: frame split: option.split)

lemma slst_more_ptab: "ptab.more s' = ptab.more s \<Longrightarrow> slst.more s' = slst.more s" for s s' :: "'z slst_scheme"
  by (cases s; cases s'; simp)

lemma keeps_slk [frame]: "keeps slst.more (set_slk l f)" "keeps slst.more (\<lambda>s. set_slk l (h s) s)"
  by (simp_all add: set_slk_def keeps_def)

lemma keeps_slst_of: "keeps ptab.more m \<Longrightarrow> keeps slst.more m"
  by (erule keeps_weaken) (rule slst_more_ptab)

lemmas keeps_ptab_slst [frame] = keeps_sleep [THEN keeps_slst_of] keeps_locks [THEN keeps_slst_of]

lemma keeps_sleeplock [frame]: "keeps slst.more (acquiresleep l)" "keeps slst.more (releasesleep l)" "keeps slst.more (holdingsleep l)"
  "keeps slst.more (acquiresleep_resume l)"
  unfolding acquiresleep_def acquiresleep_resume_def acquiresleep_loop_def releasesleep_def holdingsleep_def by (intro frame)+

subsection \<open>All interleavings on one lock\<close>

datatype phase = Out | Waiting | Holding

inductive sl_step :: "lockid \<Rightarrow> 'z slst_scheme \<times> (nat \<Rightarrow> phase) \<Rightarrow> 'z slst_scheme \<times> (nat \<Rightarrow> phase) \<Rightarrow> bool"
  for l where
  take: "on_cpu s c i \<Longrightarrow> ph i = Out \<Longrightarrow> acquiresleep l (s\<lparr>cpu_me := c\<rparr>) = Ok () s' \<Longrightarrow>
    sl_step l (s, ph) (s', ph(i := Holding))"
| block: "on_cpu s c i \<Longrightarrow> ph i = Out \<Longrightarrow> acquiresleep l (s\<lparr>cpu_me := c\<rparr>) = Sched t \<Longrightarrow>
    switch_back t = Ok () s' \<Longrightarrow> sl_step l (s, ph) (s', ph(i := Waiting))"
| resume: "c < length (cproc s) \<Longrightarrow> cproc s ! c = None \<Longrightarrow> i < NPROC \<Longrightarrow> ph i = Waiting \<Longrightarrow>
    kseq (switch_to i) (acquiresleep_resume l) (s\<lparr>cpu_me := c\<rparr>) = Ok () s' \<Longrightarrow>
    sl_step l (s, ph) (s', ph(i := Holding))"
| resume_block: "c < length (cproc s) \<Longrightarrow> cproc s ! c = None \<Longrightarrow> i < NPROC \<Longrightarrow> ph i = Waiting \<Longrightarrow>
    kseq (switch_to i) (acquiresleep_resume l) (s\<lparr>cpu_me := c\<rparr>) = Sched t \<Longrightarrow>
    switch_back t = Ok () s' \<Longrightarrow> sl_step l (s, ph) (s', ph)"
| drop: "on_cpu s c i \<Longrightarrow> ph i = Holding \<Longrightarrow> releasesleep l (s\<lparr>cpu_me := c\<rparr>) = Ok () s' \<Longrightarrow>
    sl_step l (s, ph) (s', ph(i := Out))"
| other: "pt_step s s' \<Longrightarrow> slk s' l = slk s l \<Longrightarrow>
    (\<And>j. j < NPROC \<Longrightarrow> p_state (procs s' ! j) = SLEEPING \<Longrightarrow> p_chan (procs s' ! j) = ChSleeplk l \<Longrightarrow>
      p_state (procs s ! j) = SLEEPING \<and> p_chan (procs s ! j) = ChSleeplk l) \<Longrightarrow>
    sl_step l (s, ph) (s', ph)"

definition sleeps_on :: "lockid \<Rightarrow> proc list \<Rightarrow> nat \<Rightarrow> bool" where
  "sleeps_on l ps j \<longleftrightarrow> j < NPROC \<and> p_state (ps ! j) = SLEEPING \<and> p_chan (ps ! j) = ChSleeplk l"

definition sl_ok :: "lockid \<Rightarrow> bool \<Rightarrow> proc list \<Rightarrow> (nat \<Rightarrow> phase) \<Rightarrow> bool" where
  "sl_ok l locked ps ph \<longleftrightarrow> (locked \<longleftrightarrow> (\<exists>i. ph i = Holding)) \<and> (\<forall>i j. ph i = Holding \<and> ph j = Holding \<longrightarrow> i = j) \<and>
     (\<forall>j. sleeps_on l ps j \<longrightarrow> locked)"

definition sl_inv :: "lockid \<Rightarrow> 'z slst_scheme \<times> (nat \<Rightarrow> phase) \<Rightarrow> bool" where
  "sl_inv l = (\<lambda>(s, ph). pt_inv s \<and> sl_ok l (sl_locked (slk s l)) (procs s) ph)"

lemma sl_ok_mono: "sl_ok l k ps ph \<Longrightarrow> (\<And>j. sleeps_on l qs j \<Longrightarrow> sleeps_on l ps j) \<Longrightarrow> sl_ok l k qs ph"
  unfolding sl_ok_def by blast

lemma pt_inv_cpu_me [simp]: "pt_inv (s\<lparr>cpu_me := c\<rparr>) = pt_inv s"
  by (simp add: pt_inv_def)

lemma nosched_switchuvm: "nosched (switchuvm p)"
  unfolding switchuvm_def by (auto intro!: through split: option.split)

lemma nosched_switch_to: "nosched (switch_to i)"
  unfolding switch_to_def sched_pick_def by (intro through nosched_state [OF nosched_switchuvm])

lemma slst_more_fields:
  fixes s s' :: "'z slst_scheme"
  shows "ptab.more s' = ptab.more s \<Longrightarrow> slk s' = slk s"
  by (cases s; cases s'; simp)

lemma acquiresleep_Ok:
  assumes "acquiresleep l s = Ok u s'" "held s = {}" "runs s i"
  shows "\<not> sl_locked (slk s l)" "s' = s\<lparr>slk := (slk s)(l := slk_held (p_pid (proc_at s (curproc s))))\<rparr>"
proof -
  have r: "runs (s\<lparr>held := {l}\<rparr>) i" using assms(3) by (simp add: runs_def)
  show nl: "\<not> sl_locked (slk s l)"
    using assms(1,2) acquiresleep_loop_block [OF r, of l]
    by (cases "sl_locked (slk s l)") (auto simp: acquiresleep_def kstep)
  then show "s' = s\<lparr>slk := (slk s)(l := slk_held (p_pid (proc_at s (curproc s))))\<rparr>"
    using assms(1,2) by (simp add: kstep)
qed

lemma acquiresleep_Sched:
  assumes "acquiresleep l s = Sched t" "held s = {}" "runs s i"
  shows "sl_locked (slk s l)" "t = s\<lparr>held := {PtableLock}, procs := upd_nth i (asleep (ChSleeplk l)) (procs s)\<rparr>"
proof -
  have r: "runs (s\<lparr>held := {l}\<rparr>) i" using assms(3) by (simp add: runs_def)
  show l: "sl_locked (slk s l)"
    using assms(1,2) by (cases "sl_locked (slk s l)") (auto simp: kstep)
  show "t = s\<lparr>held := {PtableLock}, procs := upd_nth i (asleep (ChSleeplk l)) (procs s)\<rparr>"
    using assms(1,2) l acquiresleep_loop_block [OF r, of l] by (simp add: acquiresleep_def kstep)
qed

lemma resume_eq:
  assumes "runs t i" "held t = {PtableLock}" "l \<noteq> PtableLock"
  shows "acquiresleep_resume l t = acquiresleep l ((tidy i t)\<lparr>held := {}\<rparr>)"
  using assms runsD(1) [OF assms(1)]
  by (simp add: acquiresleep_resume_def sleep_exit_def kstep tidy_def acquiresleep_def)

lemma sl_take:
  assumes inv: "sl_inv l (s, ph)" and r: "runs s i" "held s = {}" and a: "acquiresleep l s = Ok u s'"
  shows "sl_inv l (s', ph(i := Holding))"
proof -
  note k = acquiresleep_Ok [OF a r(2,1)]
  have i: "pt_inv s" "sl_ok l (sl_locked (slk s l)) (procs s) ph" using inv by (simp_all add: sl_inv_def)
  have "sl_ok l True (procs s) (ph(i := Holding))" using i(2) k(1) by (simp add: sl_ok_def)
  then show ?thesis using i(1) by (simp add: sl_inv_def k(2) slk_held_def pt_inv_def)
qed

lemma sl_block:
  assumes inv: "sl_inv l (s, ph)" and c: "on_cpu s c i" "cpu_me s = c" and a: "acquiresleep l s = Sched t"
    and b: "switch_back t = Ok () s'" and ph: "ph i \<noteq> Holding"
  shows "sl_inv l (s', ph(i := Waiting))"
proof -
  have pi: "pt_inv s" "sl_ok l (sl_locked (slk s l)) (procs s) ph" using inv by (simp_all add: sl_inv_def)
  have me: "s\<lparr>cpu_me := c\<rparr> = s" using c(2) by simp
  have r: "runs s i" "held s = {}" using pt_inv_on_cpu(1) [OF pi(1) c(1)] pt_inv_tab(2) [OF pi(1)] me by simp_all
  note k = acquiresleep_Sched [OF a r(2,1)]
  have t: "t = s\<lparr>cpu_me := c, held := {PtableLock}, procs := upd_nth i (asleep (ChSleeplk l)) (procs s)\<rparr>"
    using k(2) me by simp
  have "pt_inv s'" by (rule pt_inv_leave [OF pi(1) c(1) t b]) (simp_all add: asleep_def)
  moreover have "slk s' = slk s" using b by (auto simp: t switch_back_run)
  moreover have "(ph(i := Waiting)) j = Holding \<longleftrightarrow> ph j = Holding" for j using ph by simp
  then have "sl_ok l True ps (ph(i := Waiting))" for ps using pi(2) k(1) by (simp add: sl_ok_def)
  ultimately show ?thesis using k(1) by (simp add: sl_inv_def)
qed

text \<open>A waiter picked by a CPU, with its channel tidied up: the lock and the other sleepers are as before.\<close>

lemma sl_switched:
  assumes inv: "sl_inv l (s, ph)" and c: "c < length (cproc s)" "cproc s ! c = None" "i < NPROC"
    and t: "switch_to i (s\<lparr>cpu_me := c\<rparr>) = Ok () t" and l: "l \<noteq> PtableLock"
  defines "t' \<equiv> (tidy i t)\<lparr>held := {}\<rparr>"
  shows "sl_inv l (t', ph)" "runs t' i" "on_cpu t' c i" "cpu_me t' = c" "held t' = {}"
    "acquiresleep_resume l t = acquiresleep l t'"
proof -
  have pi: "pt_inv s" "sl_ok l (sl_locked (slk s l)) (procs s) ph" using inv by (simp_all add: sl_inv_def)
  note w = switched_to [OF pi(1) c t]
  have len: "length (procs s) = NPROC" using tab_invD(1) [OF pt_inv_tab(1) [OF pi(1)]] .
  have "procs t' = upd_nth i (p_chan_update (\<lambda>_. ChNull)) (procs t)" by (simp add: t'_def tidy_def)
  then have "sleeps_on l (procs t') j \<Longrightarrow> sleeps_on l (procs s) j" for j
    using w(9) len c(3) by (auto simp: sleeps_on_def split: if_splits)
  then have "sl_ok l (sl_locked (slk s l)) (procs t') ph" by (rule sl_ok_mono [OF pi(2)])
  moreover have "slk t' = slk s" using slst_more_fields [OF w(8)] by (simp add: t'_def tidy_def)
  moreover have "pt_inv t'"
    using tidy_tab [OF w(1), of i] w(4,5) pi(1) by (simp add: t'_def tidy_def pt_inv_def)
  ultimately show "sl_inv l (t', ph)" by (simp add: sl_inv_def)
  show "runs t' i" "on_cpu t' c i" "cpu_me t' = c" "held t' = {}"
    using w(3,6,7) by (simp_all add: t'_def tidy_def runs_def on_cpu_def)
  show "acquiresleep_resume l t = acquiresleep l t'" unfolding t'_def by (rule resume_eq [OF w(3,2) l])
qed

lemma sl_drop:
  assumes inv: "sl_inv l (s, ph)" and c: "on_cpu s c i" "ph i = Holding" and l: "l \<noteq> PtableLock"
    and r: "releasesleep l (s\<lparr>cpu_me := c\<rparr>) = Ok () s'"
  shows "sl_inv l (s', ph(i := Out))"
proof -
  have pi: "pt_inv s" "sl_ok l (sl_locked (slk s l)) (procs s) ph" using inv by (simp_all add: sl_inv_def)
  have ok: "table_ok s" "held s = {}" using pt_inv_on_cpu(4) [OF pi(1) c(1)] pt_inv_tab(2) [OF pi(1)] by simp_all
  then have s': "s' = s\<lparr>cpu_me := c, slk := (slk s)(l := slk_free), procs := map (wake (ChSleeplk l)) (procs s)\<rparr>"
    using r l by (simp add: kstep table_ok_def)
  have "pt_inv (s\<lparr>procs := map (wake (ChSleeplk l)) (procs s)\<rparr>)"
    by (rule pt_inv_wake [OF pi(1), of "ChSleeplk l" "()"]) (use ok in \<open>simp add: kstep\<close>)
  then have "pt_inv s'" by (simp add: s' pt_inv_def)
  moreover have "(ph(i := Out)) j \<noteq> Holding" for j using pi(2) c(2) by (auto simp: sl_ok_def)
  moreover have "\<not> sleeps_on l (map (wake (ChSleeplk l)) (procs s)) j" for j
    using ok(1) by (auto simp: sleeps_on_def table_ok_def wake_def)
  ultimately show ?thesis by (simp add: sl_inv_def sl_ok_def s' slk_free_def)
qed

lemma sl_step_inv:
  assumes "sl_step l x y" "sl_inv l x" "l \<noteq> PtableLock"
  shows "sl_inv l y"
  using assms
proof (induction rule: sl_step.induct)
  case (take s c i ph s')
  then have pi: "pt_inv s" by (simp add: sl_inv_def)
  have "sl_inv l (s\<lparr>cpu_me := c\<rparr>, ph)" using take.prems by (simp add: sl_inv_def)
  then show ?case
    by (rule sl_take) (use take pt_inv_on_cpu(1) [OF pi take.hyps(1)] pt_inv_tab(2) [OF pi] in simp_all)
next
  case (block s c i ph t s')
  have "sl_inv l (s\<lparr>cpu_me := c\<rparr>, ph)" using block.prems by (simp add: sl_inv_def)
  then show ?case by (rule sl_block [of _ _ _ c]) (use block in \<open>simp_all add: on_cpu_def\<close>)
next
  case (resume c s i ph s')
  obtain t where t: "switch_to i (s\<lparr>cpu_me := c\<rparr>) = Ok () t" "acquiresleep_resume l t = Ok () s'"
    using resume.hyps(5) by (auto simp: kseq_eq_Ok)
  note w = sl_switched [OF resume.prems(1) resume.hyps(1-3) t(1) resume.prems(2)]
  show ?case by (rule sl_take [OF w(1,2,5)]) (use t(2) w(6) in simp)
next
  case (resume_block c s i ph t s')
  obtain t1 where t1: "switch_to i (s\<lparr>cpu_me := c\<rparr>) = Ok () t1" "acquiresleep_resume l t1 = Sched t"
    using resume_block.hyps(5)
    by (cases "switch_to i (s\<lparr>cpu_me := c\<rparr>)") (auto simp: kseq_def kbind_def intro: noschedD [OF nosched_switch_to])
  note w = sl_switched [OF resume_block.prems(1) resume_block.hyps(1-3) t1(1) resume_block.prems(2)]
  have "sl_inv l (s', ph(i := Waiting))"
    by (rule sl_block [OF w(1,3,4) _ resume_block.hyps(6)]) (use t1(2) w(6) resume_block.hyps(4) in simp_all)
  moreover have "ph(i := Waiting) = ph" using resume_block.hyps(4) by auto
  ultimately show ?case by simp
next
  case (drop s c i ph s')
  then show ?case using sl_drop by blast
next
  case (other s s' ph)
  have "sl_ok l (sl_locked (slk s l)) (procs s') ph"
    by (rule sl_ok_mono) (use other in \<open>auto simp: sl_inv_def sleeps_on_def\<close>)
  then show ?case using other pt_step_inv [of s s'] by (simp add: sl_inv_def)
qed

text \<open>
  C14: under every interleaving of acquiresleep and releasesleep on a sleep lock with everything
  else processes do, at most one process holds the lock, the lock word says so, and no process is
  asleep on a free lock: a release wakes every waiter.
\<close>

theorem sleeplock_exclusion:
  assumes "sl_inv l (s0, ph0)" "l \<noteq> PtableLock" "(sl_step l)\<^sup>*\<^sup>* (s0, ph0) (s, ph)"
  shows "(\<forall>i j. ph i = Holding \<and> ph j = Holding \<longrightarrow> i = j) \<and> (sl_locked (slk s l) \<longleftrightarrow> (\<exists>i. ph i = Holding)) \<and>
    (\<forall>j<NPROC. p_state (procs s ! j) = SLEEPING \<and> p_chan (procs s ! j) = ChSleeplk l \<longrightarrow> (\<exists>i. ph i = Holding))"
proof -
  have "sl_inv l y" if "(sl_step l)\<^sup>*\<^sup>* (s0, ph0) y" for y
    using that by (induction rule: rtranclp_induct) (use assms(1) sl_step_inv [OF _ _ assms(2)] in blast)+
  then have "sl_ok l (sl_locked (slk s l)) (procs s) ph" using assms(3) by (auto simp: sl_inv_def)
  then show ?thesis unfolding sl_ok_def sleeps_on_def by blast
qed

text \<open>A machine whose init process runs and takes a buffer's lock.\<close>

definition boot_slst :: slst where
  "boot_slst = ptab.extend (boot_ptab\<lparr>procs := (init_p\<lparr>p_state := RUNNING\<rparr>) # replicate (NPROC - 1) free_p,
     cproc := [Some 0]\<rparr>) (slst.fields (\<lambda>_. slk_free))"

lemma boot_slst_inv: "sl_inv (BufLk 0) (boot_slst, \<lambda>_. Out)"
proof -
  have f: "held boot_slst = {}" "cproc boot_slst = [Some 0]" "initproc boot_slst = Some 0" "nextpid boot_slst = 2"
    "procs boot_slst = (init_p\<lparr>p_state := RUNNING\<rparr>) # replicate (NPROC - 1) free_p" "slk boot_slst = (\<lambda>_. slk_free)"
    by (simp_all add: boot_slst_def boot_ptab_def ptab.defs slst.defs)
  have n: "procs boot_slst ! j = (if j = 0 then init_p\<lparr>p_state := RUNNING\<rparr> else free_p)" if "j < NPROC" for j
    using that by (auto simp: f(5) nth_Cons')
  have len: "length (procs boot_slst) = NPROC" by (simp add: f(5) NPROC_def)
  have "tab_inv (procs boot_slst) [Some 0] (Some 0) 2"
    by (rule tab_invI) (auto simp: n len init_p_def free_p_def grown_def split: if_splits)
  moreover have "\<not> sleeps_on l (procs boot_slst) j" for l j
    using n by (auto simp: sleeps_on_def init_p_def free_p_def)
  ultimately show ?thesis by (simp add: sl_inv_def pt_inv_def f(1-4,6) sl_ok_def slk_free_def)
qed

theorem sleeplock_exclusion_witness:
  "\<exists>s. (sl_step (BufLk 0))\<^sup>*\<^sup>* (boot_slst, \<lambda>_. Out) (s, (\<lambda>_. Out)(0 := Holding)) \<and> sl_locked (slk s (BufLk 0))"
proof -
  let ?ph = "(\<lambda>_. Out)(0::nat := Holding)"
  have "\<exists>s. acquiresleep (BufLk 0) (boot_slst\<lparr>cpu_me := 0\<rparr>) = Ok () s"
    by (simp add: kstep boot_slst_def boot_ptab_def ptab.defs slst.defs slk_free_def)
  then obtain s where "acquiresleep (BufLk 0) (boot_slst\<lparr>cpu_me := 0\<rparr>) = Ok () s" ..
  then have "sl_step (BufLk 0) (boot_slst, \<lambda>_. Out) (s, ?ph)"
    by (rule sl_step.take [rotated 2]) (simp_all add: on_cpu_def boot_slst_def boot_ptab_def ptab.defs)
  then have r: "(sl_step (BufLk 0))\<^sup>*\<^sup>* (boot_slst, \<lambda>_. Out) (s, ?ph)" by (rule r_into_rtranclp)
  have "sl_locked (slk s (BufLk 0)) \<longleftrightarrow> (\<exists>i. ?ph i = Holding)"
    by (rule conjunct1 [OF conjunct2 [OF sleeplock_exclusion [OF boot_slst_inv _ r]]]) simp
  then show ?thesis using r by auto
qed

end
