(* ===== verification/Bio.thy ===== *)
theory Bio
  imports Sleeplock
begin

text \<open>
  The buffer cache (bio.c) on the memory disk (memide.c). The buffers live in one array: buffer
  \<open>b\<close> is \<^verbatim>\<open>bcache.buf[b]\<close>, the list head \<^verbatim>\<open>bcache.head\<close> is the entry \<open>NBUF\<close>, and the links
  are indices, so that the doubly linked list is the code's own pointer structure. The flags
  B_VALID and B_DIRTY are the booleans \<open>b_valid\<close> and \<open>b_dirty\<close>.

  The theorems show that the list stays a ring of all buffers in most-recently-used order, that no
  block is cached twice, and that the three operations implement the view a client has of the
  cache: one copy of every block, ahead of the disk only where it has been changed.
\<close>

record buf =
  b_valid :: bool
  b_dirty :: bool
  b_dev :: uint
  b_blockno :: uint
  b_refcnt :: uint
  b_prev :: nat
  b_next :: nat
  b_data :: "byte list"

text \<open>
  The disk image is a byte array addressed from \<^verbatim>\<open>memdisk\<close>. \<open>dwrites\<close> is a history variable: the
  block writes that have reached the disk, in order. No operation reads it.
\<close>

record bcst = slst +
  bufs :: "buf list"
  memdisk :: "uint \<Rightarrow> byte"
  disksize :: uint
  dwrites :: "(uint \<times> byte list) list"

abbreviation head :: nat where
  "head \<equiv> NBUF"

definition updb :: "nat \<Rightarrow> (buf \<Rightarrow> buf) \<Rightarrow> ('z bcst_scheme, unit) kern" where
  "updb b f = modify (\<lambda>s. s\<lparr>bufs := upd_nth b f (bufs s)\<rparr>)"

subsection \<open>memide.c\<close>

definition ideinit :: "(uint \<Rightarrow> byte) \<Rightarrow> uint \<Rightarrow> ('z bcst_scheme, unit) kern" where
  "ideinit img sz = kseq (modify (\<lambda>s. s\<lparr>memdisk := img\<rparr>)) (modify (\<lambda>s. s\<lparr>disksize := sz div of_nat BSIZE\<rparr>))"

definition put_bytes :: "uint \<Rightarrow> byte list \<Rightarrow> (uint \<Rightarrow> byte) \<Rightarrow> uint \<Rightarrow> byte" where
  "put_bytes p xs m = (\<lambda>a. if unat (a - p) < length xs then xs ! unat (a - p) else m a)"

definition get_bytes :: "uint \<Rightarrow> nat \<Rightarrow> (uint \<Rightarrow> byte) \<Rightarrow> byte list" where
  "get_bytes p n m = map (\<lambda>i. m (p + of_nat i)) [0..<n]"

definition iderw :: "nat \<Rightarrow> ('z bcst_scheme, unit) kern" where
  "iderw b =
     kbind (holdingsleep (BufLk b)) (\<lambda>h.
     if \<not> h then panic ''iderw: buf not locked''
     else kif (\<lambda>s. b_valid (bufs s ! b) \<and> \<not> b_dirty (bufs s ! b)) (panic ''iderw: nothing to do'')
     (kif (\<lambda>s. b_dev (bufs s ! b) \<noteq> 1) (panic ''iderw: request not for disk 1'')
     (kif (\<lambda>s. b_blockno (bufs s ! b) \<ge> disksize s) (panic ''iderw: block out of range'')
     (kbind (gets (\<lambda>s. b_blockno (bufs s ! b) * of_nat BSIZE)) (\<lambda>p.
     (kseq
       (kif (\<lambda>s. b_dirty (bufs s ! b))
          (kseq (updb b (b_dirty_update (\<lambda>_. False)))
                (modify (\<lambda>s. s\<lparr>memdisk := put_bytes p (b_data (bufs s ! b)) (memdisk s),
                               dwrites := dwrites s @ [(b_blockno (bufs s ! b), b_data (bufs s ! b))]\<rparr>)))
          (\<lambda>s. updb b (b_data_update (\<lambda>_. get_bytes p BSIZE (memdisk s))) s))
       (updb b (b_valid_update (\<lambda>_. True)))))))))"

subsection \<open>bio.c\<close>

definition binit_link :: "nat \<Rightarrow> ('z bcst_scheme, unit) kern" where
  "binit_link b =
     kseq (\<lambda>s. updb b (b_next_update (\<lambda>_. b_next (bufs s ! head))) s)
     (kseq (updb b (b_prev_update (\<lambda>_. head)))
     (kseq (initsleeplock (BufLk b))
     (kseq (\<lambda>s. updb (b_next (bufs s ! head)) (b_prev_update (\<lambda>_. b)) s)
           (updb head (b_next_update (\<lambda>_. b))))))"

definition binit :: "('z bcst_scheme, unit) kern" where
  "binit =
     kseq (modify (\<lambda>s. s\<lparr>held := held s - {BcacheLock}\<rparr>))
     (kseq (updb head (b_prev_update (\<lambda>_. head)))
     (kseq (updb head (b_next_update (\<lambda>_. head)))
           (kfor binit_link [0..<NBUF])))"

text \<open>
  \<^verbatim>\<open>for(b = bcache.head.link; b != &bcache.head; b = b->link) if(P(b)) ...\<close>: the first buffer along the
  links that satisfies the test. The ring has NBUF buffers, so NBUF + 1 steps reach the head again.
\<close>

definition bscan :: "(buf \<Rightarrow> nat) \<Rightarrow> (buf \<Rightarrow> bool) \<Rightarrow> ('z bcst_scheme, nat option) kern" where
  "bscan link P =
     kbind (gets (\<lambda>s. link (bufs s ! head))) (kloop (NBUF + 1) (\<lambda>b.
       if b = head then ret (Inr None)
       else kif (\<lambda>s. P (bufs s ! b)) (ret (Inr (Some b)))
            (gets (\<lambda>s. Inl (link (bufs s ! b))))))"

definition bget :: "uint \<Rightarrow> uint \<Rightarrow> ('z bcst_scheme, nat) kern" where
  "bget dev blockno =
     kseq (acquire BcacheLock)
     (kbind (bscan b_next (\<lambda>b. b_dev b = dev \<and> b_blockno b = blockno)) (\<lambda>r. case r of
       Some b \<Rightarrow>
         kseq (updb b (\<lambda>x. x\<lparr>b_refcnt := b_refcnt x + 1\<rparr>))
         (kseq (release BcacheLock)
         (kseq (acquiresleep (BufLk b))
               (ret b)))
     | None \<Rightarrow>
         kbind (bscan b_prev (\<lambda>b. b_refcnt b = 0 \<and> \<not> b_dirty b)) (\<lambda>r. case r of
           Some b \<Rightarrow>
             kseq (updb b (b_dev_update (\<lambda>_. dev)))
             (kseq (updb b (b_blockno_update (\<lambda>_. blockno)))
             (kseq (updb b (\<lambda>x. x\<lparr>b_valid := False, b_dirty := False\<rparr>))
             (kseq (updb b (b_refcnt_update (\<lambda>_. 1)))
             (kseq (release BcacheLock)
             (kseq (acquiresleep (BufLk b))
                   (ret b))))))
         | None \<Rightarrow> panic ''bget: no buffers'')))"

definition bread :: "uint \<Rightarrow> uint \<Rightarrow> ('z bcst_scheme, nat) kern" where
  "bread dev blockno =
     kbind (bget dev blockno) (\<lambda>b.
     kseq (kwhen (\<lambda>s. \<not> b_valid (bufs s ! b)) (iderw b))
          (ret b))"

definition bwrite :: "nat \<Rightarrow> ('z bcst_scheme, unit) kern" where
  "bwrite b =
     kbind (holdingsleep (BufLk b)) (\<lambda>h.
     if \<not> h then panic ''bwrite''
     else kseq (updb b (b_dirty_update (\<lambda>_. True))) (iderw b))"

definition brelse :: "nat \<Rightarrow> ('z bcst_scheme, unit) kern" where
  "brelse b =
     kbind (holdingsleep (BufLk b)) (\<lambda>h.
     if \<not> h then panic ''brelse''
     else
       kseq (releasesleep (BufLk b))
       (kseq (acquire BcacheLock)
       (kseq (updb b (\<lambda>x. x\<lparr>b_refcnt := b_refcnt x - 1\<rparr>))
       (kseq (kwhen (\<lambda>s. b_refcnt (bufs s ! b) = 0)
          (kseq (\<lambda>s. updb (b_next (bufs s ! b)) (b_prev_update (\<lambda>_. b_prev (bufs s ! b))) s)
          (kseq (\<lambda>s. updb (b_prev (bufs s ! b)) (b_next_update (\<lambda>_. b_next (bufs s ! b))) s)
          (kseq (\<lambda>s. updb b (b_next_update (\<lambda>_. b_next (bufs s ! head))) s)
          (kseq (updb b (b_prev_update (\<lambda>_. head)))
          (kseq (\<lambda>s. updb (b_next (bufs s ! head)) (b_prev_update (\<lambda>_. b)) s)
                (updb head (b_next_update (\<lambda>_. b)))))))))
       (release BcacheLock)))))"

text \<open>What a client does to a buffer it holds: store into \<^verbatim>\<open>b->data\<close>.\<close>

definition set_data :: "nat \<Rightarrow> byte list \<Rightarrow> ('z bcst_scheme, unit) kern" where
  "set_data b xs = updb b (b_data_update (\<lambda>_. xs))"

subsection \<open>What the operations leave unchanged\<close>

lemma bcst_more_slst: "slst.more s' = slst.more s \<Longrightarrow> bcst.more s' = bcst.more s" for s s' :: "'z bcst_scheme"
  by (cases s; cases s'; simp)

lemma keeps_bcst_of: "keeps slst.more m \<Longrightarrow> keeps bcst.more m"
  by (erule keeps_weaken) (rule bcst_more_slst)

lemmas keeps_slst_bcst [frame] = keeps_sleeplock [THEN keeps_bcst_of] keeps_ptab_slst [THEN keeps_bcst_of]

lemma keeps_updb [frame]: "keeps bcst.more (updb b f)" "keeps bcst.more (\<lambda>s. updb (g s) (h s) s)"
  by (simp_all add: updb_def keeps_def)

lemma keeps_iderw [frame]: "keeps bcst.more (iderw b)"
  unfolding iderw_def by (intro frame keeps_modify) simp

lemma keeps_bscan [frame]: "keeps bcst.more (bscan l P)"
  unfolding bscan_def by (intro frame)

lemma keeps_bio [frame]: "keeps bcst.more (bread d n)" "keeps bcst.more (bwrite b)" "keeps bcst.more (brelse b)" "keeps bcst.more (set_data b xs)"
  "keeps bcst.more (\<lambda>s. set_data (g s) (h s) s)" "keeps bcst.more (\<lambda>s. bread (d' s) (n' s) s)"
proof -
  show b: "keeps bcst.more (bread d n :: ('z bcst_scheme, nat) kern)" for d n unfolding bread_def bget_def by (auto intro!: frame split: option.split)
  show "keeps bcst.more (\<lambda>s. bread (d' s) (n' s) s)" by (rule keepsI) (erule keepsD [OF b] keepsD_Sched [OF b])+
qed (auto simp: bwrite_def brelse_def set_data_def intro!: frame)


subsection \<open>The ring\<close>

text \<open>\<open>chain nx a L e\<close>: following \<open>nx\<close> from \<open>a\<close> visits the entries of \<open>L\<close> and then \<open>e\<close>.\<close>

fun chain :: "(nat \<Rightarrow> nat) \<Rightarrow> nat \<Rightarrow> nat list \<Rightarrow> nat \<Rightarrow> bool" where
  "chain nx a [] e \<longleftrightarrow> nx a = e"
| "chain nx a (x # xs) e \<longleftrightarrow> nx a = x \<and> chain nx x xs e"

lemma chain_append [simp]: "chain nx a (us @ b # ws) e \<longleftrightarrow> chain nx a us b \<and> chain nx b ws e"
  by (induction us arbitrary: a) auto

lemma chain_upd [simp]: "b \<noteq> a \<Longrightarrow> b \<notin> set xs \<Longrightarrow> chain (nx(b := c)) a xs e \<longleftrightarrow> chain nx a xs e"
  by (induction xs arbitrary: a) auto

lemma chain_snoc [simp]: "chain nx a (us @ [b]) e \<longleftrightarrow> chain nx a us b \<and> nx b = e"
  by simp

lemma chain_cong: "(\<And>b. b = a \<or> b \<in> set xs \<Longrightarrow> nx b = mx b) \<Longrightarrow> chain nx a xs e \<longleftrightarrow> chain mx a xs e"
  by (induction xs arbitrary: a) auto

definition linked :: "(nat \<Rightarrow> nat) \<Rightarrow> (nat \<Rightarrow> nat) \<Rightarrow> nat list \<Rightarrow> bool" where
  "linked nx pv L \<longleftrightarrow> distinct L \<and> set L \<subseteq> {..<NBUF} \<and> chain nx head L head \<and> chain pv head (rev L) head"

text \<open>The four stores that put a buffer at the front, and the two that take one out.\<close>

definition push_nx :: "nat \<Rightarrow> (nat \<Rightarrow> nat) \<Rightarrow> nat \<Rightarrow> nat" where
  "push_nx b nx = nx(b := nx head, head := b)"

definition push_pv :: "nat \<Rightarrow> (nat \<Rightarrow> nat) \<Rightarrow> (nat \<Rightarrow> nat) \<Rightarrow> nat \<Rightarrow> nat" where
  "push_pv b nx pv = pv(b := head, nx head := b)"

lemma linked_push:
  assumes "linked nx pv L" "b < NBUF" "b \<notin> set L"
  shows "linked (push_nx b nx) (push_pv b nx pv) (b # L)"
proof -
  have h: "head \<notin> set L" "b \<noteq> head" using assms by (auto simp: linked_def)
  have n: "chain (push_nx b nx) head (b # L) head"
  proof (cases L)
    case (Cons x xs)
    then show ?thesis using assms h by (auto simp: linked_def push_nx_def)
  qed (use assms h in \<open>simp add: linked_def push_nx_def\<close>)
  have p: "chain (push_pv b nx pv) head (rev (b # L)) head"
  proof (cases L)
    case (Cons x xs)
    then have "nx head = x" "x \<notin> set (rev xs)" "x \<noteq> b" "x \<noteq> head" "b \<notin> set (rev xs)"
      using assms h by (auto simp: linked_def)
    then show ?thesis using Cons assms h by (auto simp: linked_def push_pv_def)
  qed (use assms h in \<open>auto simp: linked_def push_pv_def\<close>)
  show ?thesis using n p assms by (simp add: linked_def)
qed

lemma linked_unlink:
  assumes "linked nx pv (us @ b # ws)"
  shows "linked (nx(pv b := nx b)) (pv(nx b := pv b)) (us @ ws)"
proof -
  have h: "head \<notin> set us" "head \<notin> set ws" "b \<noteq> head" "b \<notin> set us" "b \<notin> set ws" "distinct us" "distinct ws"
    "set us \<inter> set ws = {}" using assms by (auto simp: linked_def)
  have c: "chain nx head us b" "chain nx b ws head" "chain pv head (rev ws) b" "chain pv b (rev us) head"
    using assms by (auto simp: linked_def)
  have n: "chain (nx(pv b := nx b)) head (us @ ws) head"
  proof (cases us rule: rev_cases)
    case Nil
    then show ?thesis using c h by (cases ws) auto
  next
    case (snoc xs x)
    then show ?thesis using c h by (cases ws) auto
  qed
  have p: "chain (pv(nx b := pv b)) head (rev (us @ ws)) head"
  proof (cases ws)
    case Nil
    then show ?thesis using c h by (cases us rule: rev_cases) auto
  next
    case (Cons x xs)
    then show ?thesis using c h by (cases us rule: rev_cases) auto
  qed
  show ?thesis using n p assms by (auto simp: linked_def)
qed

text \<open>The links as functions of the buffer array.\<close>

definition nexts :: "buf list \<Rightarrow> nat \<Rightarrow> nat" where
  "nexts bs = (\<lambda>b. b_next (bs ! b))"

definition prevs :: "buf list \<Rightarrow> nat \<Rightarrow> nat" where
  "prevs bs = (\<lambda>b. b_prev (bs ! b))"

definition ring :: "buf list \<Rightarrow> nat list \<Rightarrow> bool" where
  "ring bs L \<longleftrightarrow> length bs = NBUF + 1 \<and> linked (nexts bs) (prevs bs) L \<and> set L = {..<NBUF}"

lemma nexts_upd [simp]: "a < length bs \<Longrightarrow> nexts (upd_nth a (b_next_update (\<lambda>_. x)) bs) = (nexts bs)(a := x)"
  by (auto simp: nexts_def upd_nth_def nth_list_update)

lemma prevs_upd [simp]: "a < length bs \<Longrightarrow> prevs (upd_nth a (b_prev_update (\<lambda>_. x)) bs) = (prevs bs)(a := x)"
  by (auto simp: prevs_def upd_nth_def nth_list_update)

lemma links_same [simp]:
  "(\<And>x. b_next (f x) = b_next x) \<Longrightarrow> nexts (upd_nth a f bs) = nexts bs"
  "(\<And>x. b_prev (f x) = b_prev x) \<Longrightarrow> prevs (upd_nth a f bs) = prevs bs"
  by (rule ext; cases "a < length bs"; simp add: nexts_def prevs_def upd_nth_def nth_list_update list_update_beyond)+

lemma ring_same: "ring bs L \<Longrightarrow> (\<And>x. b_next (f x) = b_next x) \<Longrightarrow> (\<And>x. b_prev (f x) = b_prev x) \<Longrightarrow> ring (upd_nth a f bs) L"
  by (simp add: ring_def)

lemma ring_pos: "ring bs L \<Longrightarrow> length L = NBUF"
  using distinct_card [of L] by (simp add: ring_def linked_def)

lemma updb_run [kstep]: "updb b f s = Ok () (s\<lparr>bufs := upd_nth b f (bufs s)\<rparr>)"
  by (simp add: updb_def)

lemma kloop_scan:
  assumes "chain (\<lambda>b. link (bufs s ! b)) a L head" "head \<notin> set L" "length L < k"
  shows "kloop k (\<lambda>b. if b = head then ret (Inr None)
       else kif (\<lambda>s. P (bufs s ! b)) (ret (Inr (Some b))) (gets (\<lambda>s. Inl (link (bufs s ! b))))) (link (bufs s ! a)) s =
    Ok (find (\<lambda>b. P (bufs s ! b)) L) s"
  using assms
proof (induction L arbitrary: a k)
  case Nil
  then show ?case by (cases k) (simp_all add: kstep)
next
  case (Cons x xs)
  then obtain j where j: "k = Suc j" "length xs < j" by (cases k) auto
  show ?case
  proof (cases "P (bufs s ! x)")
    case False
    then show ?thesis using Cons.prems Cons.IH [of x j] j by (simp add: kstep)
  qed (use Cons.prems j in \<open>simp add: kstep\<close>)
qed

lemma bscan_run:
  assumes "chain (\<lambda>b. link (bufs s ! b)) head L head" "set L = {..<NBUF}" "length L = NBUF"
  shows "bscan link P s = Ok (find (\<lambda>b. P (bufs s ! b)) L) s"
  using kloop_scan [OF assms(1), of "NBUF + 1" P] assms(2,3) by (simp add: bscan_def kstep)

lemma bscan_ring:
  assumes "ring (bufs s) L"
  shows "bscan b_next P s = Ok (find (\<lambda>b. P (bufs s ! b)) L) s"
    "bscan b_prev P s = Ok (find (\<lambda>b. P (bufs s ! b)) (rev L)) s"
  using assms ring_pos [OF assms] by (auto intro!: bscan_run simp: ring_def linked_def nexts_def prevs_def)

subsection \<open>Contents\<close>

text \<open>A buffer without its links.\<close>

definition core :: "buf \<Rightarrow> buf" where
  "core x = x\<lparr>b_prev := 0, b_next := 0\<rparr>"

lemma core_links [simp]: "core (x\<lparr>b_prev := i\<rparr>) = core x" "core (x\<lparr>b_next := i\<rparr>) = core x"
  by (simp_all add: core_def)

lemma core_fields:
  "core x = core y \<Longrightarrow> b_valid x = b_valid y \<and> b_dirty x = b_dirty y \<and> b_dev x = b_dev y \<and>
    b_blockno x = b_blockno y \<and> b_refcnt x = b_refcnt y \<and> b_data x = b_data y"
  by (cases x; cases y) (simp add: core_def)

lemma core_upd [simp]: "(\<And>x. core (f x) = core x) \<Longrightarrow> core (upd_nth a f bs ! j) = core (bs ! j)"
  by (cases "a < length bs") (auto simp: upd_nth_def nth_list_update list_update_beyond)

definition dblk :: "(uint \<Rightarrow> byte) \<Rightarrow> uint \<Rightarrow> byte list" where
  "dblk m n = get_bytes (n * of_nat BSIZE) BSIZE m"

lemma upd_nth_neq [simp]: "i \<noteq> j \<Longrightarrow> upd_nth i f xs ! j = xs ! j"
  by (simp add: upd_nth_def)

lemma length_dblk [simp]: "length (dblk m n) = BSIZE"
  by (simp add: dblk_def get_bytes_def)

text \<open>Blocks below \<open>2 ^ 23\<close> do not overlap in the 32-bit address space.\<close>

lemma block_offset:
  assumes "n < (0x800000 :: uint)" "m < 0x800000" "i < BSIZE" "j < BSIZE"
    "n * of_nat BSIZE + of_nat i = m * of_nat BSIZE + (of_nat j :: uint)"
  shows "n = m"
proof -
  have u: "unat (k * of_nat BSIZE + of_nat i :: uint) = unat k * BSIZE + i" if "k < 0x800000" "i < BSIZE" for k :: uint and i
  proof -
    have k: "unat k < 0x800000" using that(1) by (simp add: word_less_nat_alt)
    have "(of_nat (unat k * BSIZE + i) :: uint) = k * of_nat BSIZE + of_nat i" by simp
    moreover have "unat k * BSIZE + i < 2 ^ 32" using k that(2) by (simp add: BSIZE_def)
    then have "unat (of_nat (unat k * BSIZE + i) :: uint) = unat k * BSIZE + i" by (simp add: unat_of_nat del: of_nat_add of_nat_mult)
    ultimately show ?thesis by simp
  qed
  have "unat n * BSIZE + i = unat m * BSIZE + j" using u assms by metis
  then have "(unat n * BSIZE + i) div BSIZE = (unat m * BSIZE + j) div BSIZE" by simp
  then have "unat n = unat m" using assms(3,4) by (simp add: BSIZE_def)
  then show ?thesis by (rule unat32_eqI)
qed

lemma dblk_put:
  assumes "n < 0x800000" "m < 0x800000" "length xs = BSIZE"
  shows "dblk (put_bytes (n * of_nat BSIZE) xs d) m = (if m = n then xs else dblk d m)"
proof -
  have i: "unat (of_nat i :: uint) = i" if "i < BSIZE" for i
    using that by (simp add: unat_of_nat BSIZE_def)
  have ne: "\<not> unat (m * of_nat BSIZE + of_nat i - n * of_nat BSIZE :: uint) < BSIZE" if "m \<noteq> n" "i < BSIZE" for i
  proof
    let ?j = "unat (m * of_nat BSIZE + of_nat i - n * of_nat BSIZE :: uint)"
    assume "?j < BSIZE"
    moreover have "n * of_nat BSIZE + of_nat ?j = m * of_nat BSIZE + (of_nat i :: uint)" by simp
    ultimately show False using block_offset [OF assms(1,2) _ that(2)] that(1) by blast
  qed
  show ?thesis
    by (rule nth_equalityI) (auto simp: dblk_def get_bytes_def put_bytes_def i ne assms(3))
qed

subsection \<open>The invariant of the cache and the view of a client\<close>

text \<open>
  Between the operations of one thread a buffer's lock is held, by this thread, exactly when its
  reference count is 1. A valid buffer belongs to a block of the disk; unless it is locked or dirty
  it agrees with the disk.
\<close>

definition bufok :: "(uint \<Rightarrow> byte) \<Rightarrow> uint \<Rightarrow> bool \<Rightarrow> buf \<Rightarrow> bool" where
  "bufok m dsz lk x \<longleftrightarrow> length (b_data x) = BSIZE \<and> b_refcnt x = (if lk then 1 else 0) \<and>
     (b_valid x \<longleftrightarrow> b_dev x = 1) \<and> (b_valid x \<longrightarrow> b_blockno x < dsz) \<and> (b_dirty x \<longrightarrow> b_valid x) \<and> (lk \<longrightarrow> b_valid x) \<and>
     (b_valid x \<and> \<not> b_dirty x \<and> \<not> lk \<longrightarrow> b_data x = dblk m (b_blockno x))"

abbreviation bufat :: "'z bcst_scheme \<Rightarrow> nat \<Rightarrow> buf" where
  "bufat s b \<equiv> bufs s ! b"

abbreviation blocked :: "'z bcst_scheme \<Rightarrow> nat \<Rightarrow> bool" where
  "blocked s b \<equiv> sl_locked (slk s (BufLk b))"

definition bc :: "'z bcst_scheme \<Rightarrow> bool" where
  "bc s \<longleftrightarrow> (\<exists>L. ring (bufs s) L) \<and> (\<forall>b<NBUF. bufok (memdisk s) (disksize s) (blocked s b) (bufat s b)) \<and>
     (\<forall>b<NBUF. \<forall>c<NBUF. b \<noteq> c \<longrightarrow> b_valid (bufat s b) \<longrightarrow> b_valid (bufat s c) \<longrightarrow> b_blockno (bufat s b) \<noteq> b_blockno (bufat s c)) \<and>
     held s = {} \<and> table_ok s \<and> disksize s \<le> 0x800000"

lemma bcD:
  assumes "bc s"
  shows "\<exists>L. ring (bufs s) L" "b < NBUF \<Longrightarrow> bufok (memdisk s) (disksize s) (blocked s b) (bufat s b)"
    "b < NBUF \<Longrightarrow> c < NBUF \<Longrightarrow> b \<noteq> c \<Longrightarrow> b_valid (bufat s b) \<Longrightarrow> b_valid (bufat s c) \<Longrightarrow>
      b_blockno (bufat s b) \<noteq> b_blockno (bufat s c)"
    "held s = {}" "table_ok s" "disksize s \<le> 0x800000"
  using assms unfolding bc_def by blast+

lemma bc_length: "bc s \<Longrightarrow> length (bufs s) = NBUF + 1"
  using bcD(1) by (auto simp: ring_def)

text \<open>The block a client sees: the cached copy if there is one, else the disk.\<close>

definition cached :: "'z bcst_scheme \<Rightarrow> uint \<Rightarrow> nat option" where
  "cached s n = find_slot (\<lambda>x. b_valid x \<and> b_blockno x = n) (take NBUF (bufs s))"

definition cblk :: "'z bcst_scheme \<Rightarrow> uint \<Rightarrow> byte list" where
  "cblk s n = (case cached s n of Some b \<Rightarrow> b_data (bufat s b) | None \<Rightarrow> dblk (memdisk s) n)"

record bview =
  v_size :: uint
  v_cache :: "uint \<Rightarrow> byte list"
  v_disk :: "uint \<Rightarrow> byte list"
  v_pin :: "uint set"
  v_held :: "nat \<rightharpoonup> uint"
  v_hist :: "(uint \<times> byte list) list"

definition pins :: "'z bcst_scheme \<Rightarrow> uint set" where
  "pins s = {n. \<exists>b<NBUF. b_dirty (bufat s b) \<and> b_blockno (bufat s b) = n}"

definition heldb :: "'z bcst_scheme \<Rightarrow> nat \<rightharpoonup> uint" where
  "heldb s = (\<lambda>b. if b < NBUF \<and> blocked s b then Some (b_blockno (bufat s b)) else None)"

definition view :: "'z bcst_scheme \<Rightarrow> bview" where
  "view s = \<lparr>v_size = disksize s, v_cache = (\<lambda>n. if n < disksize s then cblk s n else []),
     v_disk = (\<lambda>n. if n < disksize s then dblk (memdisk s) n else []), v_pin = pins s, v_held = heldb s, v_hist = dwrites s\<rparr>"

lemma heldb_ran: "b < NBUF \<Longrightarrow> blocked s b \<Longrightarrow> b_blockno (bufat s b) \<in> ran (heldb s)"
  by (rule ranI [of _ b]) (simp add: heldb_def)

lemma cblk_at:
  assumes "bc s" "b < NBUF" "b_valid (bufat s b)" "b_blockno (bufat s b) = n"
  shows "cblk s n = b_data (bufat s b)"
proof -
  have "\<exists>j\<le>b. cached s n = Some j"
    unfolding cached_def by (rule find_slot_nth) (use assms bc_length [OF assms(1)] in simp_all)
  then obtain j where j: "cached s n = Some j" by blast
  then have "j < NBUF" "b_valid (bufat s j)" "b_blockno (bufat s j) = n"
    using bc_length [OF assms(1)] by (auto simp: cached_def find_slot_Some)
  then have "j = b" using bcD(3) [OF assms(1,2), of j] assms(3,4) by metis
  then show ?thesis using j by (simp add: cblk_def)
qed

lemma cblk_none:
  assumes "\<And>b. b < NBUF \<Longrightarrow> b_valid (bufat s b) \<Longrightarrow> b_blockno (bufat s b) \<noteq> n" "length (bufs s) = NBUF + 1"
  shows "cblk s n = dblk (memdisk s) n"
proof -
  have "\<not> (b_valid x \<and> b_blockno x = n)" if "x \<in> set (take NBUF (bufs s))" for x
  proof -
    from that obtain b where "b < length (take NBUF (bufs s))" "take NBUF (bufs s) ! b = x"
      by (auto simp only: in_set_conv_nth)
    then show ?thesis using assms(1) [of b] by auto
  qed
  then have "cached s n = None" unfolding cached_def find_slot_None by blast
  then show ?thesis by (simp add: cblk_def)
qed

lemma bc_agree:
  assumes "bc s" "n \<notin> pins s" "n \<notin> ran (heldb s)"
  shows "cblk s n = dblk (memdisk s) n"
proof (cases "\<exists>b<NBUF. b_valid (bufat s b) \<and> b_blockno (bufat s b) = n")
  case True
  then obtain b where b: "b < NBUF" "b_valid (bufat s b)" "b_blockno (bufat s b) = n" by blast
  have "\<not> blocked s b" "\<not> b_dirty (bufat s b)" using assms(2,3) b heldb_ran [of b s] by (auto simp: pins_def)
  then show ?thesis using cblk_at [OF assms(1) b] bcD(2) [OF assms(1) b(1)] b by (simp add: bufok_def)
qed (use cblk_none bc_length [OF assms(1)] in blast)

text \<open>
  An operation that touches the buffer \<open>b\<close> only: the other buffers keep everything but their links,
  and the disk changes at most in the block of \<open>b\<close>.
\<close>

definition touch :: "nat \<Rightarrow> 'z bcst_scheme \<Rightarrow> 'z bcst_scheme \<Rightarrow> bool" where
  "touch b s s' \<longleftrightarrow> (\<forall>c. c \<noteq> b \<longrightarrow> core (bufat s' c) = core (bufat s c)) \<and>
     (\<forall>c. c \<noteq> b \<longrightarrow> slk s' (BufLk c) = slk s (BufLk c)) \<and>
     (\<exists>L. ring (bufs s') L) \<and> held s' = {} \<and> table_ok s' \<and> disksize s' = disksize s \<and>
     (\<forall>k<disksize s. k \<noteq> b_blockno (bufat s' b) \<longrightarrow> dblk (memdisk s') k = dblk (memdisk s) k)"

definition touched :: "nat \<Rightarrow> uint \<Rightarrow> 'z bcst_scheme \<Rightarrow> 'z bcst_scheme \<Rightarrow> bool" where
  "touched b n s s' \<longleftrightarrow> bc s \<and> touch b s s' \<and> b < NBUF \<and> bufok (memdisk s') (disksize s') (blocked s' b) (bufat s' b) \<and>
     b_valid (bufat s' b) \<and> b_blockno (bufat s' b) = n \<and>
     (\<forall>c<NBUF. c \<noteq> b \<longrightarrow> b_valid (bufat s c) \<longrightarrow> b_blockno (bufat s c) \<noteq> n) \<and>
     (b_valid (bufat s b) \<longrightarrow> b_blockno (bufat s b) \<noteq> n \<longrightarrow>
       \<not> b_dirty (bufat s b) \<and> b_data (bufat s b) = dblk (memdisk s) (b_blockno (bufat s b)))"

lemma touchedD:
  assumes "touched b n s s'"
  shows "bc s" "touch b s s'" "b < NBUF" "bufok (memdisk s') (disksize s') (blocked s' b) (bufat s' b)"
    "b_valid (bufat s' b)" "b_blockno (bufat s' b) = n"
    "c < NBUF \<Longrightarrow> c \<noteq> b \<Longrightarrow> b_valid (bufat s c) \<Longrightarrow> b_blockno (bufat s c) \<noteq> n"
    "b_valid (bufat s b) \<Longrightarrow> b_blockno (bufat s b) \<noteq> n \<Longrightarrow>
       \<not> b_dirty (bufat s b) \<and> b_data (bufat s b) = dblk (memdisk s) (b_blockno (bufat s b))"
  using assms unfolding touched_def by blast+

lemma touched_upd:
  assumes "bc s" "b < NBUF" "bufs s' = upd_nth b f (bufs s)" "\<And>x. b_next (f x) = b_next x" "\<And>x. b_prev (f x) = b_prev x"
    "\<And>c. c \<noteq> b \<Longrightarrow> slk s' (BufLk c) = slk s (BufLk c)" "held s' = held s" "procs s' = procs s" "disksize s' = disksize s"
    "\<And>k. k < disksize s \<Longrightarrow> k \<noteq> n \<Longrightarrow> dblk (memdisk s') k = dblk (memdisk s) k"
    "bufok (memdisk s') (disksize s) (blocked s' b) (f (bufat s b))" "b_valid (f (bufat s b))" "b_blockno (f (bufat s b)) = n"
    "\<And>c. c < NBUF \<Longrightarrow> c \<noteq> b \<Longrightarrow> b_valid (bufat s c) \<Longrightarrow> b_blockno (bufat s c) \<noteq> n"
    "b_valid (bufat s b) \<Longrightarrow> b_blockno (bufat s b) \<noteq> n \<Longrightarrow>
       \<not> b_dirty (bufat s b) \<and> b_data (bufat s b) = dblk (memdisk s) (b_blockno (bufat s b))"
  shows "touched b n s s'" "bufat s' b = f (bufat s b)"
proof -
  obtain L where "ring (bufs s) L" using bcD(1) [OF assms(1)] by blast
  then have r: "ring (bufs s') L" using ring_same assms(3-5) by simp
  show b: "bufat s' b = f (bufat s b)" using assms(2,3) bc_length [OF assms(1)] by simp
  have c: "core (bufat s' c) = core (bufat s c)" if "c \<noteq> b" for c using that assms(3) by simp
  have "touch b s s'" unfolding touch_def b assms(13)
    using r c assms(6-10) bcD(4,5) [OF assms(1)] by (auto simp: table_ok_def)
  then show "touched b n s s'" unfolding touched_def b using assms(1,2,9,11-15) by auto
qed

lemma simps_upd:
  "bufs (s\<lparr>bufs := upd_nth b f (bufs s), slk := k\<rparr>) = upd_nth b f (bufs s)"
  "bufs (s\<lparr>slk := k, bufs := upd_nth b f (bufs s)\<rparr>) = upd_nth b f (bufs s)"
  by simp_all

lemma touched_other:
  assumes "touched b n s s'" "c \<noteq> b"
  shows "b_valid (bufat s' c) = b_valid (bufat s c)" "b_dirty (bufat s' c) = b_dirty (bufat s c)"
    "b_dev (bufat s' c) = b_dev (bufat s c)" "b_blockno (bufat s' c) = b_blockno (bufat s c)"
    "b_refcnt (bufat s' c) = b_refcnt (bufat s c)" "b_data (bufat s' c) = b_data (bufat s c)"
    "slk s' (BufLk c) = slk s (BufLk c)"
  using core_fields [of "bufat s' c" "bufat s c"] touchedD(2) [OF assms(1)] assms(2) by (auto simp: touch_def)

lemma touched_disk:
  assumes "touched b n s s'"
  shows "disksize s' = disksize s" "n < disksize s"
    "k < disksize s \<Longrightarrow> k \<noteq> n \<Longrightarrow> dblk (memdisk s') k = dblk (memdisk s) k"
  using touchedD(2,4-6) [OF assms] by (auto simp: touch_def bufok_def)

lemma touched_inv:
  assumes "touched b n s s'"
  shows "bc s'"
proof -
  note d = touchedD [OF assms] and o = touched_other [OF assms] and k = touched_disk [OF assms]
  have "bufok (memdisk s') (disksize s') (blocked s' c) (bufat s' c)" if c: "c < NBUF" for c
  proof (cases "c = b")
    case False
    have "dblk (memdisk s') (b_blockno (bufat s c)) = dblk (memdisk s) (b_blockno (bufat s c))" if "b_valid (bufat s c)"
      using k(3) d(7) [OF c False that] bcD(2) [OF d(1) c] that by (simp add: bufok_def)
    then show ?thesis using bcD(2) [OF d(1) c] by (auto simp: bufok_def k o [OF False])
  qed (use d(4) in simp)
  moreover have "b_blockno (bufat s' c) \<noteq> b_blockno (bufat s' e)"
    if "c < NBUF" "e < NBUF" "c \<noteq> e" "b_valid (bufat s' c)" "b_valid (bufat s' e)" for c e
    using that bcD(3) [OF d(1) that(1-3)] o [of c] o [of e] d(6) d(7) [of c] d(7) [of e] by (cases "c = b"; cases "e = b") auto
  ultimately show ?thesis using d(2) bcD(6) [OF d(1)] by (auto simp: bc_def touch_def)
qed

lemma touched_cache:
  assumes "touched b n s s'" "k < disksize s"
  shows "cblk s' k = (if k = n then b_data (bufat s' b) else cblk s k)"
proof (cases "k = n")
  case True
  then show ?thesis using cblk_at [OF touched_inv [OF assms(1)] touchedD(3,5,6) [OF assms(1)]] by simp
next
  case k: False
  note d = touchedD [OF assms(1)] and o = touched_other [OF assms(1)] and i = touched_inv [OF assms(1)]
  show ?thesis
  proof (cases "\<exists>c<NBUF. c \<noteq> b \<and> b_valid (bufat s c) \<and> b_blockno (bufat s c) = k")
    case True
    then obtain c where c: "c < NBUF" "c \<noteq> b" "b_valid (bufat s c)" "b_blockno (bufat s c) = k" by blast
    then have "cblk s' k = b_data (bufat s' c)" using cblk_at [OF i c(1)] o [OF c(2)] by simp
    then show ?thesis using cblk_at [OF d(1) c(1,3,4)] k o [OF c(2)] by simp
  next
    case False
    have "cblk s' k = dblk (memdisk s') k"
    proof (rule cblk_none)
      fix c assume "c < NBUF" "b_valid (bufat s' c)"
      then show "b_blockno (bufat s' c) \<noteq> k" using False o [of c] k d(6) by (cases "c = b") auto
    qed (rule bc_length [OF i])
    moreover have "cblk s k = dblk (memdisk s) k"
    proof (cases "b_valid (bufat s b) \<and> b_blockno (bufat s b) = k")
      case True
      then show ?thesis using cblk_at [OF d(1,3)] d(8) k by simp
    next
      case nb: False
      show ?thesis by (rule cblk_none) (use False nb bc_length [OF d(1)] in auto)
    qed
    ultimately show ?thesis using touched_disk(3) [OF assms k] k by simp
  qed
qed

lemma pins_split:
  "b < NBUF \<Longrightarrow> k \<in> pins s \<longleftrightarrow> (b_dirty (bufat s b) \<and> b_blockno (bufat s b) = k) \<or>
    (\<exists>c<NBUF. c \<noteq> b \<and> b_dirty (bufat s c) \<and> b_blockno (bufat s c) = k)"
  unfolding pins_def by blast

lemma touched_pins:
  assumes "touched b n s s'"
  shows "pins s' = (if b_dirty (bufat s' b) then insert n (pins s) else pins s - {n})"
proof -
  note d = touchedD [OF assms] and o = touched_other [OF assms]
  define P where "P k \<longleftrightarrow> (\<exists>c<NBUF. c \<noteq> b \<and> b_dirty (bufat s c) \<and> b_blockno (bufat s c) = k)" for k
  have "k \<in> pins s' \<longleftrightarrow> (b_dirty (bufat s' b) \<and> n = k) \<or> P k" for k
    unfolding pins_split [OF d(3), of k s'] P_def d(6) using o(2,4) by auto
  moreover have "k \<in> pins s \<longleftrightarrow> (b_dirty (bufat s b) \<and> n = k) \<or> P k" for k
    unfolding pins_split [OF d(3), of k s] P_def using d(8) bcD(2) [OF d(1,3)] by (auto simp: bufok_def)
  moreover have "\<not> P n" unfolding P_def using d(7) bcD(2) [OF d(1)] by (auto simp: bufok_def)
  ultimately show ?thesis by auto
qed

lemma touched_held:
  "touched b n s s' \<Longrightarrow> heldb s' = (heldb s)(b := if blocked s' b then Some n else None)"
  using touched_other touchedD(3,6) by (fastforce simp: heldb_def)

lemma touched_view:
  assumes "touched b n s s'"
  shows "view s' = (view s)\<lparr>v_cache := (v_cache (view s))(n := b_data (bufat s' b)),
    v_disk := (v_disk (view s))(n := dblk (memdisk s') n),
    v_pin := (if b_dirty (bufat s' b) then insert n (pins s) else pins s - {n}),
    v_held := (heldb s)(b := if blocked s' b then Some n else None), v_hist := dwrites s'\<rparr>"
proof -
  note k = touched_disk [OF assms] and c = touched_cache [OF assms]
  have "(\<lambda>m. if m < disksize s then cblk s' m else []) = (v_cache (view s))(n := b_data (bufat s' b))"
    using c k(2) by (auto simp: view_def)
  moreover have "(\<lambda>m. if m < disksize s then dblk (memdisk s') m else []) = (v_disk (view s))(n := dblk (memdisk s') n)"
    using k(2,3) by (auto simp: view_def)
  ultimately show ?thesis by (simp add: view_def k(1) touched_pins [OF assms] touched_held [OF assms])
qed

subsection \<open>The operations on the view\<close>

lemma iderw_read:
  assumes "blocked s b" "held s = {}" "b < length (bufs s)" "\<not> b_valid (bufat s b)" "\<not> b_dirty (bufat s b)"
    "b_dev (bufat s b) = 1" "b_blockno (bufat s b) < disksize s"
  shows "iderw b s = Ok () (s\<lparr>bufs := upd_nth b (\<lambda>x. x\<lparr>b_data := dblk (memdisk s) (b_blockno (bufat s b)), b_valid := True\<rparr>) (bufs s)\<rparr>)"
  using assms by (simp add: iderw_def kstep dblk_def comp_def linorder_not_le)

lemma iderw_write:
  assumes "blocked s b" "held s = {}" "b < length (bufs s)" "b_dirty (bufat s b)"
    "b_dev (bufat s b) = 1" "b_blockno (bufat s b) < disksize s"
  shows "iderw b s = Ok () (s\<lparr>bufs := upd_nth b (\<lambda>x. x\<lparr>b_dirty := False, b_valid := True\<rparr>) (bufs s),
    memdisk := put_bytes (b_blockno (bufat s b) * of_nat BSIZE) (b_data (bufat s b)) (memdisk s),
    dwrites := dwrites s @ [(b_blockno (bufat s b), b_data (bufat s b))]\<rparr>)"
  using assms by (simp add: iderw_def kstep comp_def linorder_not_le)

lemma find_ring:
  assumes "set L = {..<NBUF}"
  shows "find P L = Some b \<Longrightarrow> b < NBUF \<and> P b" "find P L = None \<longleftrightarrow> (\<forall>b<NBUF. \<not> P b)"
    "find P (rev L) = Some b \<Longrightarrow> b < NBUF \<and> P b" "find P (rev L) = None \<longleftrightarrow> (\<forall>b<NBUF. \<not> P b)"
  using assms by (auto simp: find_None_iff find_Some_iff in_set_conv_nth) (metis in_set_conv_nth lessThan_iff length_rev set_rev nth_mem)+

lemma bread_hit:
  assumes "bc s" "find (\<lambda>b. b_dev (bufat s b) = 1 \<and> b_blockno (bufat s b) = n) L = Some b" "ring (bufs s) L" "\<not> blocked s b"
  shows "\<exists>k. sl_locked k \<and> bread 1 n s = Ok b (s\<lparr>bufs := upd_nth b (\<lambda>x. x\<lparr>b_refcnt := b_refcnt x + 1\<rparr>) (bufs s), slk := (slk s)(BufLk b := k)\<rparr>)"
proof -
  have b: "b < NBUF" "b_dev (bufat s b) = 1" using find_ring(1) [OF _ assms(2)] assms(3) by (auto simp: ring_def)
  then have "b_valid (bufat s b)" using bcD(2) [OF assms(1) b(1)] by (simp add: bufok_def)
  then show ?thesis
    using assms b bcD(4) [OF assms(1)] bc_length [OF assms(1)]
    by (simp add: bread_def bget_def kstep bscan_ring slk_held_def) (rule exI, rule conjI [rotated], rule refl, simp)
qed

lemma bread_miss:
  assumes "bc s" "find (\<lambda>b. b_dev (bufat s b) = 1 \<and> b_blockno (bufat s b) = n) L = None" "ring (bufs s) L"
    "find (\<lambda>b. b_refcnt (bufat s b) = 0 \<and> \<not> b_dirty (bufat s b)) (rev L) = Some b" "\<not> blocked s b" "n < disksize s"
  shows "\<exists>k. sl_locked k \<and> bread 1 n s = Ok b (s\<lparr>slk := (slk s)(BufLk b := k), bufs := upd_nth b (\<lambda>x. x\<lparr>b_dev := 1, b_blockno := n, b_dirty := False,
      b_refcnt := 1, b_data := dblk (memdisk s) n, b_valid := True\<rparr>) (bufs s)\<rparr>)"
proof -
  have b: "b < NBUF" using find_ring(3) [OF _ assms(4)] assms(3) by (auto simp: ring_def)
  have "ring (upd_nth b f (bufs s)) L" if "\<And>x. b_next (f x) = b_next x" "\<And>x. b_prev (f x) = b_prev x" for f
    using ring_same [OF assms(3)] that by blast
  then show ?thesis
    using assms b bcD(4) [OF assms(1)] bc_length [OF assms(1)]
    by (simp add: bread_def bget_def kstep bscan_ring slk_held_def iderw_read comp_def)
      (rule exI, rule conjI [rotated], rule refl, simp)
qed

text \<open>With a block neither pinned nor held for every buffer there is a buffer to recycle.\<close>

lemma bc_room:
  assumes "bc s" "card (pins s \<union> ran (heldb s)) < NBUF"
  shows "\<exists>b<NBUF. \<not> b_dirty (bufat s b) \<and> \<not> blocked s b"
proof (rule ccontr)
  assume "\<not> ?thesis"
  then have all: "b_dirty (bufat s b) \<or> blocked s b" if "b < NBUF" for b using that by blast
  have v: "b_valid (bufat s b)" if "b < NBUF" for b using all [OF that] bcD(2) [OF assms(1) that] by (auto simp: bufok_def)
  let ?f = "\<lambda>b. b_blockno (bufat s b)"
  have "inj_on ?f {..<NBUF}" using bcD(3) [OF assms(1)] v by (auto simp: inj_on_def)
  moreover have "?f ` {..<NBUF} \<subseteq> pins s \<union> ran (heldb s)" using all by (auto simp: pins_def heldb_def ran_def)
  ultimately have "NBUF \<le> card (pins s \<union> ran (heldb s))" using card_mono [of "pins s \<union> ran (heldb s)" "?f ` {..<NBUF}"]
    by (simp add: card_image)
  then show False using assms(2) by simp
qed

lemma bread_fin:
  assumes "touched b n s s'" "blocked s' b" "b_data (bufat s' b) = cblk s n"
    "b_dirty (bufat s' b) = (n \<in> pins s)" "memdisk s' = memdisk s" "dwrites s' = dwrites s"
  shows "view s' = (view s)\<lparr>v_held := (v_held (view s))(b \<mapsto> n)\<rparr>"
  unfolding touched_view [OF assms(1)] using assms touched_disk(2) [OF assms(1)] by (auto simp: view_def insert_absorb)

lemma bread_view_hit:
  assumes "bc s" "n \<notin> ran (heldb s)" "ring (bufs s) L"
    "find (\<lambda>b. b_dev (bufat s b) = 1 \<and> b_blockno (bufat s b) = n) L = Some b"
  shows "\<exists>s'. bread 1 n s = Ok b s' \<and> bc s' \<and> heldb s b = None \<and>
    view s' = (view s)\<lparr>v_held := (v_held (view s))(b \<mapsto> n)\<rparr> \<and> bcst.more s' = bcst.more s"
proof -
  have sL: "set L = {..<NBUF}" using assms(3) by (simp add: ring_def)
  have b: "b < NBUF" "b_dev (bufat s b) = 1" "b_blockno (bufat s b) = n" using find_ring(1) [OF sL assms(4)] by auto
  have nb: "\<not> blocked s b" using assms(2) b heldb_ran by metis
  let ?s = "\<lambda>k. s\<lparr>bufs := upd_nth b (\<lambda>x. x\<lparr>b_refcnt := b_refcnt x + 1\<rparr>) (bufs s), slk := (slk s)(BufLk b := k)\<rparr>"
  obtain k where k: "sl_locked k" "bread 1 n s = Ok b (?s k)" using bread_hit [OF assms(1,4,3) nb] by blast
  note ok = bcD(2) [OF assms(1) b(1)]
  have v: "b_valid (bufat s b)" using ok b(2) by (simp add: bufok_def)
  have u: "b_blockno (bufat s c) \<noteq> n" if "c < NBUF" "c \<noteq> b" "b_valid (bufat s c)" for c
    using bcD(3) [OF assms(1) b(1) that(1) _ v that(3)] that(2) b(3) by metis
  have "c = b" if "c < NBUF" "b_dirty (bufat s c)" "b_blockno (bufat s c) = n" for c
    using u [OF that(1)] that bcD(2) [OF assms(1) that(1)] by (auto simp: bufok_def)
  then have dn: "b_dirty (bufat s b) = (n \<in> pins s)" using b by (auto simp: pins_def)
  have T: "touched b n s (?s k)"
    by (rule touched_upd(1) [OF assms(1) b(1) simps_upd(1)]) (use k(1) b(2,3) nb ok v u in \<open>simp_all add: bufok_def\<close>)
  have "bufat (?s k) b = (bufat s b)\<lparr>b_refcnt := b_refcnt (bufat s b) + 1\<rparr>" using b(1) bc_length [OF assms(1)] by simp
  then have "view (?s k) = (view s)\<lparr>v_held := (v_held (view s))(b \<mapsto> n)\<rparr>"
    by (intro bread_fin [OF T]) (use k(1) dn cblk_at [OF assms(1) b(1) v b(3)] in simp_all)
  moreover have "heldb s b = None" using nb by (simp add: heldb_def)
  ultimately show ?thesis using k(2) touched_inv [OF T] by simp
qed

lemma bread_view_miss:
  assumes "bc s" "n < disksize s" "card (pins s \<union> ran (heldb s)) < NBUF \<or> n \<in> pins s" "ring (bufs s) L"
    "find (\<lambda>b. b_dev (bufat s b) = 1 \<and> b_blockno (bufat s b) = n) L = None"
  shows "\<exists>b s'. bread 1 n s = Ok b s' \<and> bc s' \<and> heldb s b = None \<and>
    view s' = (view s)\<lparr>v_held := (v_held (view s))(b \<mapsto> n)\<rparr> \<and> bcst.more s' = bcst.more s"
proof -
  have sL: "set L = {..<NBUF}" using assms(4) by (simp add: ring_def)
  have nc: "b_blockno (bufat s c) \<noteq> n" if "c < NBUF" "b_valid (bufat s c)" for c
    using find_ring(2) [OF sL] assms(5) bcD(2) [OF assms(1) that(1)] that by (auto simp: bufok_def)
  then have np: "n \<notin> pins s" using bcD(2) [OF assms(1)] by (auto simp: pins_def bufok_def)
  then obtain c where c: "c < NBUF" "\<not> b_dirty (bufat s c)" "\<not> blocked s c" using bc_room [OF assms(1)] assms(3) by blast
  have "b_refcnt (bufat s c) = 0" using bcD(2) [OF assms(1) c(1)] c(3) by (simp add: bufok_def)
  then have "find (\<lambda>b. b_refcnt (bufat s b) = 0 \<and> \<not> b_dirty (bufat s b)) (rev L) \<noteq> None"
    unfolding find_ring(4) [OF sL] using c(1,2) by blast
  then obtain b where f: "find (\<lambda>b. b_refcnt (bufat s b) = 0 \<and> \<not> b_dirty (bufat s b)) (rev L) = Some b" by blast
  have b: "b < NBUF" "b_refcnt (bufat s b) = 0" "\<not> b_dirty (bufat s b)" using find_ring(3) [OF sL f] by auto
  note ok = bcD(2) [OF assms(1) b(1)]
  have nb: "\<not> blocked s b" using ok b by (auto simp: bufok_def)
  let ?f = "\<lambda>x. x\<lparr>b_dev := 1, b_blockno := n, b_dirty := False, b_refcnt := 1, b_data := dblk (memdisk s) n, b_valid := True\<rparr>"
  let ?s = "\<lambda>k. s\<lparr>slk := (slk s)(BufLk b := k), bufs := upd_nth b ?f (bufs s)\<rparr>"
  obtain k where k: "sl_locked k" "bread 1 n s = Ok b (?s k)"
    using bread_miss [OF assms(1,5,4) f nb assms(2)] by blast
  have cn: "cblk s n = dblk (memdisk s) n" by (rule cblk_none) (use nc bc_length [OF assms(1)] in auto)
  have T: "touched b n s (?s k)"
    by (rule touched_upd(1) [OF assms(1) b(1) simps_upd(2)]) (use k(1) b(2,3) nb ok nc assms(2) in \<open>simp_all add: bufok_def\<close>)
  have "bufat (?s k) b = ?f (bufat s b)" using b(1) bc_length [OF assms(1)] by simp
  then have "view (?s k) = (view s)\<lparr>v_held := (v_held (view s))(b \<mapsto> n)\<rparr>"
    by (intro bread_fin [OF T]) (use k(1) np cn in simp_all)
  moreover have "heldb s b = None" using nb by (simp add: heldb_def)
  ultimately show ?thesis using k(2) touched_inv [OF T] by auto
qed

lemma view_fields [simp]:
  "v_size (view s) = disksize s" "v_pin (view s) = pins s" "v_held (view s) = heldb s" "v_hist (view s) = dwrites s"
  by (simp_all add: view_def)

lemma bread_view:
  assumes "bc s" "n < v_size (view s)" "n \<notin> ran (v_held (view s))"
    "card (v_pin (view s) \<union> ran (v_held (view s))) < NBUF \<or> n \<in> v_pin (view s)"
  shows "\<exists>b s'. bread 1 n s = Ok b s' \<and> bc s' \<and> v_held (view s) b = None \<and>
    view s' = (view s)\<lparr>v_held := (v_held (view s))(b \<mapsto> n)\<rparr> \<and> bcst.more s' = bcst.more s"
proof -
  obtain L where L: "ring (bufs s) L" using bcD(1) [OF assms(1)] by blast
  show ?thesis
    using bread_view_hit [OF assms(1) _ L, of n] bread_view_miss [OF assms(1) _ _ L, of n] assms(2-4)
    by (cases "find (\<lambda>b. b_dev (bufat s b) = 1 \<and> b_blockno (bufat s b) = n) L") auto
qed

text \<open>A buffer this thread holds.\<close>

lemma heldD:
  assumes "bc s" "heldb s b = Some n"
  shows "b < NBUF" "blocked s b" "b_blockno (bufat s b) = n" "b_valid (bufat s b)" "b_dev (bufat s b) = 1" "n < disksize s"
    "b_refcnt (bufat s b) = 1" "length (b_data (bufat s b)) = BSIZE" "cblk s n = b_data (bufat s b)"
    "c < NBUF \<Longrightarrow> c \<noteq> b \<Longrightarrow> b_valid (bufat s c) \<Longrightarrow> b_blockno (bufat s c) \<noteq> n"
    "b_dirty (bufat s b) = (n \<in> pins s)"
proof -
  show b: "b < NBUF" "blocked s b" "b_blockno (bufat s b) = n" using assms(2) by (simp_all add: heldb_def split: if_splits)
  show v: "b_valid (bufat s b)" "b_dev (bufat s b) = 1" "n < disksize s" "b_refcnt (bufat s b) = 1" "length (b_data (bufat s b)) = BSIZE"
    using bcD(2) [OF assms(1) b(1)] b by (auto simp: bufok_def)
  show "cblk s n = b_data (bufat s b)" by (rule cblk_at [OF assms(1) b(1) v(1) b(3)])
  have u: "b_blockno (bufat s c) \<noteq> n" if "c < NBUF" "c \<noteq> b" "b_valid (bufat s c)" for c
    using bcD(3) [OF assms(1) b(1) that(1) _ v(1) that(3)] that(2) b(3) by metis
  then show "c < NBUF \<Longrightarrow> c \<noteq> b \<Longrightarrow> b_valid (bufat s c) \<Longrightarrow> b_blockno (bufat s c) \<noteq> n" .
  have "c = b" if "c < NBUF" "b_dirty (bufat s c)" "b_blockno (bufat s c) = n" for c
    using u [OF that(1)] that bcD(2) [OF assms(1) that(1)] by (auto simp: bufok_def)
  then show "b_dirty (bufat s b) = (n \<in> pins s)" using b by (auto simp: pins_def)
qed

lemma set_data_view:
  assumes "bc s" "v_held (view s) b = Some n" "length xs = BSIZE"
  shows "\<exists>s'. set_data b xs s = Ok () s' \<and> bc s' \<and> view s' = (view s)\<lparr>v_cache := (v_cache (view s))(n := xs)\<rparr> \<and>
    bcst.more s' = bcst.more s"
proof -
  have h: "heldb s b = Some n" using assms(2) by simp
  note d = heldD [OF assms(1) h]
  let ?s = "s\<lparr>bufs := upd_nth b (b_data_update (\<lambda>_. xs)) (bufs s)\<rparr>"
  have T: "touched b n s ?s"
    by (rule touched_upd(1) [OF assms(1) d(1), of _ "b_data_update (\<lambda>_. xs)"])
      (use d bcD(2) [OF assms(1) d(1)] assms(3) in \<open>simp_all add: bufok_def\<close>)
  have "bufat ?s b = (bufat s b)\<lparr>b_data := xs\<rparr>" using d(1) bc_length [OF assms(1)] by simp
  then have "view ?s = (view s)\<lparr>v_cache := (v_cache (view s))(n := xs)\<rparr>"
    unfolding touched_view [OF T] using d h by (auto simp: view_def insert_absorb)
  then show ?thesis using touched_inv [OF T] by (simp add: set_data_def kstep)
qed

text \<open>The flag log_write sets: the block stays in the cache until it has been written.\<close>

lemma pin_view:
  assumes "bc s" "v_held (view s) b = Some n"
  shows "\<exists>s'. updb b (b_dirty_update (\<lambda>_. True)) s = Ok () s' \<and> bc s' \<and> view s' = (view s)\<lparr>v_pin := insert n (v_pin (view s))\<rparr> \<and>
    bcst.more s' = bcst.more s"
proof -
  have h: "heldb s b = Some n" using assms(2) by simp
  note d = heldD [OF assms(1) h]
  let ?s = "s\<lparr>bufs := upd_nth b (b_dirty_update (\<lambda>_. True)) (bufs s)\<rparr>"
  have T: "touched b n s ?s"
    by (rule touched_upd(1) [OF assms(1) d(1), of _ "b_dirty_update (\<lambda>_. True)"])
      (use d bcD(2) [OF assms(1) d(1)] in \<open>simp_all add: bufok_def\<close>)
  have "bufat ?s b = (bufat s b)\<lparr>b_dirty := True\<rparr>" using d(1) bc_length [OF assms(1)] by simp
  then have "view ?s = (view s)\<lparr>v_pin := insert n (v_pin (view s))\<rparr>"
    unfolding touched_view [OF T] using d h by (auto simp: view_def)
  then show ?thesis using touched_inv [OF T] by (simp add: kstep)
qed

lemma bwrite_view:
  assumes "bc s" "v_held (view s) b = Some n"
  shows "\<exists>s'. bwrite b s = Ok () s' \<and> bc s' \<and>
    view s' = (view s)\<lparr>v_disk := (v_disk (view s))(n := v_cache (view s) n), v_pin := v_pin (view s) - {n},
      v_hist := v_hist (view s) @ [(n, v_cache (view s) n)]\<rparr> \<and> bcst.more s' = bcst.more s"
proof -
  have h: "heldb s b = Some n" using assms(2) by simp
  note d = heldD [OF assms(1) h]
  let ?x = "b_data (bufat s b)"
  let ?f = "\<lambda>x. x\<lparr>b_dirty := False, b_valid := True\<rparr>"
  let ?s = "s\<lparr>bufs := upd_nth b ?f (bufs s), memdisk := put_bytes (n * of_nat BSIZE) ?x (memdisk s), dwrites := dwrites s @ [(n, ?x)]\<rparr>"
  have l: "b < length (bufs s)" using d(1) bc_length [OF assms(1)] by simp
  have r: "bwrite b s = Ok () ?s"
    using d l bcD(4) [OF assms(1)] by (simp add: bwrite_def kstep iderw_write comp_def)
  have lt: "k < 0x800000" if "k < disksize s" for k using that bcD(6) [OF assms(1)] by simp
  have dk: "dblk (memdisk ?s) k = (if k = n then ?x else dblk (memdisk s) k)" if "k < disksize s" for k
    using dblk_put [OF lt [OF d(6)] lt [OF that] d(8)] by simp
  have T: "touched b n s ?s"
    by (rule touched_upd(1) [OF assms(1) d(1), of _ ?f])
      (use d bcD(2) [OF assms(1) d(1)] dk in \<open>simp_all add: bufok_def\<close>)
  have "bufat ?s b = ?f (bufat s b)" using l by simp
  then have "view ?s = (view s)\<lparr>v_disk := (v_disk (view s))(n := ?x), v_pin := pins s - {n}, v_hist := dwrites s @ [(n, ?x)]\<rparr>"
    unfolding touched_view [OF T] using d h dk [OF d(6)] by (auto simp: view_def)
  then show ?thesis using touched_inv [OF T] r d(6,9) by (simp add: view_def)
qed

text \<open>brelse moves the buffer to the front of the ring.\<close>

definition relink :: "nat \<Rightarrow> buf list \<Rightarrow> buf list" where
  "relink b bs =
    (let bs1 = upd_nth (nexts bs b) (b_prev_update (\<lambda>_. prevs bs b)) bs;
         bs2 = upd_nth (prevs bs1 b) (b_next_update (\<lambda>_. nexts bs1 b)) bs1;
         bs3 = upd_nth b (b_next_update (\<lambda>_. nexts bs2 head)) bs2;
         bs4 = upd_nth b (b_prev_update (\<lambda>_. head)) bs3;
         bs5 = upd_nth (nexts bs4 head) (b_prev_update (\<lambda>_. b)) bs4
     in upd_nth head (b_next_update (\<lambda>_. b)) bs5)"

lemma chain_range: "chain nx a xs e \<Longrightarrow> nx a \<in> insert e (set xs)"
  by (cases xs) auto

lemma linked_range:
  assumes "linked nx pv L" "b \<in> insert head (set L)"
  shows "nx b \<le> NBUF" "pv b \<le> NBUF"
proof -
  have sub: "\<And>x. x \<in> insert head (set L) \<Longrightarrow> x \<le> NBUF" using assms(1) by (auto simp: linked_def)
  have "nx b \<in> insert head (set L) \<and> pv b \<in> insert head (set L)"
  proof (cases "b = head")
    case True
    then show ?thesis using assms(1) chain_range [of nx head L head] chain_range [of pv head "rev L" head]
      by (simp add: linked_def)
  next
    case False
    then obtain us ws where L: "L = us @ b # ws" using assms(2) split_list by force
    then have "chain nx b ws head" "chain pv b (rev us) head" using assms(1) by (simp_all add: linked_def)
    then show ?thesis using chain_range [of nx b ws head] chain_range [of pv b "rev us" head] L by auto
  qed
  then show "nx b \<le> NBUF" "pv b \<le> NBUF" using sub by blast+
qed

lemma ring_relink:
  assumes "ring bs L" "b < NBUF"
  shows "ring (relink b bs) (b # remove1 b L)" "core (relink b bs ! c) = core (bs ! c)"
proof -
  have l: "linked (nexts bs) (prevs bs) L" "set L = {..<NBUF}" "length bs = Suc NBUF" using assms(1) by (simp_all add: ring_def)
  obtain us ws where L: "L = us @ b # ws" "b \<notin> set us" using l(2) assms(2) split_list_first [of b L] by auto
  have r: "nexts bs b < Suc NBUF" "prevs bs b < Suc NBUF" using linked_range [OF l(1), of b] l(2) assms(2) by (auto simp: less_Suc_eq_le)
  let ?nx = "(nexts bs)(prevs bs b := nexts bs b)" and ?pv = "(prevs bs)(nexts bs b := prevs bs b)"
  have u: "linked ?nx ?pv (us @ ws)" using linked_unlink l(1) L by blast
  have h: "?nx head < Suc NBUF" using linked_range(1) [OF u, of head] by (simp add: less_Suc_eq_le)
  have nb: "b \<notin> set (us @ ws)" using l(1) L by (auto simp: linked_def)
  have n: "nexts (relink b bs) = push_nx b ?nx" "prevs (relink b bs) = push_pv b ?nx ?pv"
    using r h l(3) assms(2) by (auto simp: relink_def Let_def push_nx_def push_pv_def simp del: upd_nth_upd_nth_same)
  have "remove1 b L = us @ ws" using L by (simp add: remove1_append)
  then show "ring (relink b bs) (b # remove1 b L)"
    using linked_push [OF u assms(2) nb] l(2,3) L assms(2) unfolding ring_def n by (auto simp: relink_def Let_def)
  show "core (relink b bs ! c) = core (bs ! c)" by (simp add: relink_def Let_def)
qed

lemma brelse_run:
  assumes "blocked s b" "held s = {}" "table_ok s" "b < length (bufs s)" "b_refcnt (bufat s b) = 1"
  shows "brelse b s = Ok () (s\<lparr>slk := (slk s)(BufLk b := slk_free), procs := map (wake (ChSleeplk (BufLk b))) (procs s),
    bufs := relink b (upd_nth b (\<lambda>x. x\<lparr>b_refcnt := b_refcnt x - 1\<rparr>) (bufs s))\<rparr>)"
  using assms by (simp add: brelse_def kstep relink_def Let_def nexts_def prevs_def)

lemma brelse_view:
  assumes "bc s" "v_held (view s) b = Some n" "v_cache (view s) n = v_disk (view s) n \<or> n \<in> v_pin (view s)"
  shows "\<exists>s'. brelse b s = Ok () s' \<and> bc s' \<and> view s' = (view s)\<lparr>v_held := (v_held (view s))(b := None)\<rparr> \<and>
    bcst.more s' = bcst.more s"
proof -
  have h: "heldb s b = Some n" using assms(2) by simp
  note d = heldD [OF assms(1) h] and i = bcD [OF assms(1)]
  let ?f = "\<lambda>x. x\<lparr>b_refcnt := b_refcnt x - 1\<rparr>"
  let ?s = "s\<lparr>slk := (slk s)(BufLk b := slk_free), procs := map (wake (ChSleeplk (BufLk b))) (procs s),
    bufs := relink b (upd_nth b ?f (bufs s))\<rparr>"
  have l: "b < length (bufs s)" using d(1) bc_length [OF assms(1)] by simp
  have r: "brelse b s = Ok () ?s" by (rule brelse_run) (use d i l in simp_all)
  obtain L where "ring (bufs s) L" using i(1) by blast
  then have L: "ring (upd_nth b ?f (bufs s)) L" by (rule ring_same) simp_all
  note rl = ring_relink [OF L d(1)]
  have b: "core (bufat ?s b) = core (?f (bufat s b))" using rl(2) [of b] l by simp
  note bf = core_fields [OF b]
  have c: "core (bufat ?s c) = core (bufat s c)" if "c \<noteq> b" for c using rl(2) [of c] that by simp
  have "touch b s ?s" unfolding touch_def using rl(1) c i(4,5) by (auto simp: table_ok_def)
  moreover have "b_dirty (bufat s b) \<or> b_data (bufat s b) = dblk (memdisk s) n" using assms(3) d(6,9,11) by (auto simp: view_def)
  then have "bufok (memdisk ?s) (disksize ?s) (blocked ?s b) (bufat ?s b)"
    using bf d i(2) [OF d(1)] by (auto simp: bufok_def slk_free_def)
  ultimately have T: "touched b n s ?s" unfolding touched_def using bf d assms(1) by auto
  have "view ?s = (view s)\<lparr>v_held := (v_held (view s))(b := None)\<rparr>"
    unfolding touched_view [OF T] using d h bf by (auto simp: view_def slk_free_def insert_absorb)
  then show ?thesis using touched_inv [OF T] r by simp
qed

text \<open>binit makes the ring of all buffers, the last one first.\<close>

lemma slk_clear: "x\<lparr>sl_locked := False, sl_pid := 0\<rparr> = slk_free" for x :: sleeplock
  by (simp add: slk_free_def)

lemma binit_link_run:
  assumes "length (bufs s) = NBUF + 1" "linked (nexts (bufs s)) (prevs (bufs s)) L" "b < NBUF" "b \<notin> set L" "held s = {}"
  shows "\<exists>bs. binit_link b s = Ok () (s\<lparr>slk := (slk s)(BufLk b := slk_free), bufs := bs\<rparr>) \<and> length bs = NBUF + 1 \<and>
    linked (nexts bs) (prevs bs) (b # L) \<and> (\<forall>c. core (bs ! c) = core (bufs s ! c))"
proof -
  let ?bs = "bufs s"
  let ?bs1 = "upd_nth b (b_prev_update (\<lambda>_. head)) (upd_nth b (b_next_update (\<lambda>_. nexts ?bs head)) ?bs)"
  let ?bs2 = "upd_nth head (b_next_update (\<lambda>_. b)) (upd_nth (nexts ?bs1 head) (b_prev_update (\<lambda>_. b)) ?bs1)"
  have h: "nexts ?bs head < Suc NBUF" using linked_range(1) [OF assms(2), of head] by (simp add: less_Suc_eq_le)
  have "binit_link b s = Ok () (s\<lparr>slk := (slk s)(BufLk b := slk_free), bufs := ?bs2\<rparr>)"
    using assms by (simp add: binit_link_def initsleeplock_def kstep nexts_def slk_clear del: upd_nth_upd_nth_same)
  moreover have "nexts ?bs2 = push_nx b (nexts ?bs)" "prevs ?bs2 = push_pv b (nexts ?bs) (prevs ?bs)"
    using h assms(1,3) by (auto simp: push_nx_def push_pv_def simp del: upd_nth_upd_nth_same)
  ultimately show ?thesis using linked_push [OF assms(2,3,4)] assms(1) by (intro exI [of _ ?bs2]) simp
qed

definition zero_buf :: buf where
  "zero_buf = \<lparr>b_valid = False, b_dirty = False, b_dev = 0, b_blockno = 0, b_refcnt = 0, b_prev = 0, b_next = 0,
     b_data = replicate BSIZE 0\<rparr>"

lemma binit_ok:
  assumes "bufs s = replicate (NBUF + 1) zero_buf" "held s = {}" "table_ok s" "disksize s \<le> 0x800000"
  shows "\<exists>s'. binit s = Ok () s' \<and> bc s' \<and> v_pin (view s') = {} \<and> v_held (view s') = Map.empty \<and>
    memdisk s' = memdisk s \<and> disksize s' = disksize s \<and> dwrites s' = dwrites s \<and> ring (bufs s') (rev [0..<NBUF]) \<and>
    (\<forall>b<NBUF. \<not> b_valid (bufat s' b)) \<and> bcst.more s' = bcst.more s"
proof -
  let ?s = "s\<lparr>bufs := upd_nth head (b_next_update (\<lambda>_. head)) (upd_nth head (b_prev_update (\<lambda>_. head)) (bufs s))\<rparr>"
  let ?I = "\<lambda>us t. length (bufs t) = NBUF + 1 \<and> linked (nexts (bufs t)) (prevs (bufs t)) (rev us) \<and>
    (\<forall>c\<le>NBUF. core (bufs t ! c) = core zero_buf) \<and> (\<forall>b\<in>set us. slk t (BufLk b) = slk_free) \<and>
    held t = {} \<and> procs t = procs s \<and> memdisk t = memdisk s \<and> disksize t = disksize s \<and> dwrites t = dwrites s \<and> bcst.more t = bcst.more s"
  have "\<exists>s'. kfor binit_link [0..<NBUF] ?s = Ok () s' \<and> ?I [0..<NBUF] s'"
  proof (rule kfor_rule [of ?I])
    have "nexts (bufs ?s) head = head" "prevs (bufs ?s) head = head"
      by (simp_all add: assms(1) nexts_upd prevs_upd del: upd_nth_upd_nth_same)
    moreover have "core (bufat s c) = core zero_buf" if "c \<le> NBUF" for c
      using that nth_replicate [of c "NBUF + 1" zero_buf] by (simp only: assms(1))
    ultimately show "?I [] ?s" using assms(2) arg_cong [OF assms(1), of length]
      by (simp add: linked_def del: upd_nth_upd_nth_same)
  next
    fix us v ws t
    assume v: "[0..<NBUF] = us @ v # ws" and I: "?I us t"
    have "distinct (us @ v # ws)" "set (us @ v # ws) = {..<NBUF}" using v [symmetric] by (auto simp del: upt_Suc)
    then have "v < NBUF" "v \<notin> set (rev us)" by auto
    then show "\<exists>t'. binit_link v t = Ok () t' \<and> ?I (us @ [v]) t'" using binit_link_run [of t "rev us" v] I by auto
  qed
  then obtain s' where r: "kfor binit_link [0..<NBUF] ?s = Ok () s'" and I: "?I [0..<NBUF] s'" by blast
  have "binit s = Ok () s'" using r assms(2) by (simp add: binit_def kstep del: upd_nth_upd_nth_same)
  moreover have b: "\<not> b_valid (bufat s' b)" "\<not> b_dirty (bufat s' b)" "b_dev (bufat s' b) = 0" "b_refcnt (bufat s' b) = 0"
    "length (b_data (bufat s' b)) = BSIZE" "\<not> blocked s' b" if "b < NBUF" for b
    using core_fields [of "bufat s' b" zero_buf] I that by (auto simp: zero_buf_def slk_free_def)
  moreover have R: "ring (bufs s') (rev [0..<NBUF])" using I by (auto simp: ring_def)
  moreover have "bc s'" unfolding bc_def using R b I assms(3,4) by (auto simp: bufok_def table_ok_def)
  ultimately show ?thesis using I by (auto simp: pins_def heldb_def)
qed

subsection \<open>The interface of the cache\<close>

text \<open>
  What log.c and fs.c rely on: the operations move the view as stated, a held buffer shows the cached
  block, and outside held and pinned blocks cache and disk agree.
\<close>

locale block_store =
  fixes rd :: "uint \<Rightarrow> ('s, nat) kern"
    and wr rl pn :: "nat \<Rightarrow> ('s, unit) kern"
    and st :: "nat \<Rightarrow> byte list \<Rightarrow> ('s, unit) kern"
    and dat :: "'s \<Rightarrow> nat \<Rightarrow> byte list"
    and bno :: "'s \<Rightarrow> nat \<Rightarrow> uint"
    and ok :: "'s \<Rightarrow> bool"
    and vw :: "'s \<Rightarrow> bview"
    and rest :: "'s \<Rightarrow> 'r"
  assumes rd: "ok s \<Longrightarrow> n < v_size (vw s) \<Longrightarrow> n \<notin> ran (v_held (vw s)) \<Longrightarrow>
      card (v_pin (vw s) \<union> ran (v_held (vw s))) < NBUF \<or> n \<in> v_pin (vw s) \<Longrightarrow>
      \<exists>b s'. rd n s = Ok b s' \<and> ok s' \<and> v_held (vw s) b = None \<and>
        vw s' = (vw s)\<lparr>v_held := (v_held (vw s))(b \<mapsto> n)\<rparr> \<and> rest s' = rest s"
    and st: "ok s \<Longrightarrow> v_held (vw s) b = Some n \<Longrightarrow> length xs = BSIZE \<Longrightarrow>
      \<exists>s'. st b xs s = Ok () s' \<and> ok s' \<and> vw s' = (vw s)\<lparr>v_cache := (v_cache (vw s))(n := xs)\<rparr> \<and> rest s' = rest s"
    and pn: "ok s \<Longrightarrow> v_held (vw s) b = Some n \<Longrightarrow>
      \<exists>s'. pn b s = Ok () s' \<and> ok s' \<and> vw s' = (vw s)\<lparr>v_pin := insert n (v_pin (vw s))\<rparr> \<and> rest s' = rest s"
    and wr: "ok s \<Longrightarrow> v_held (vw s) b = Some n \<Longrightarrow>
      \<exists>s'. wr b s = Ok () s' \<and> ok s' \<and>
        vw s' = (vw s)\<lparr>v_disk := (v_disk (vw s))(n := v_cache (vw s) n), v_pin := v_pin (vw s) - {n},
          v_hist := v_hist (vw s) @ [(n, v_cache (vw s) n)]\<rparr> \<and> rest s' = rest s"
    and rl: "ok s \<Longrightarrow> v_held (vw s) b = Some n \<Longrightarrow> v_cache (vw s) n = v_disk (vw s) n \<or> n \<in> v_pin (vw s) \<Longrightarrow>
      \<exists>s'. rl b s = Ok () s' \<and> ok s' \<and> vw s' = (vw s)\<lparr>v_held := (v_held (vw s))(b := None)\<rparr> \<and> rest s' = rest s"
    and dat: "ok s \<Longrightarrow> v_held (vw s) b = Some n \<Longrightarrow> dat s b = v_cache (vw s) n \<and> bno s b = n"
    and clean: "ok s \<Longrightarrow> n \<notin> v_pin (vw s) \<Longrightarrow> n \<notin> ran (v_held (vw s)) \<Longrightarrow> v_cache (vw s) n = v_disk (vw s) n"
    and len: "ok s \<Longrightarrow> n < v_size (vw s) \<Longrightarrow> length (v_cache (vw s) n) = BSIZE"
    and pin_range: "ok s \<Longrightarrow> v_pin (vw s) \<subseteq> {..<v_size (vw s)}"
begin

text \<open>Two blocks read one after the other.\<close>

lemma rd2:
  assumes "ok s" "v_held (vw s) = Map.empty" "m < v_size (vw s)" "n < v_size (vw s)" "m \<noteq> n" "card (v_pin (vw s)) < NBUF"
    "card (insert m (v_pin (vw s))) < NBUF \<or> n \<in> v_pin (vw s)"
  shows "\<exists>a d s1 s2. rd m s = Ok a s1 \<and> rd n s1 = Ok d s2 \<and> a \<noteq> d \<and> ok s2 \<and> rest s1 = rest s \<and> rest s2 = rest s \<and>
    vw s2 = (vw s)\<lparr>v_held := [a \<mapsto> m, d \<mapsto> n]\<rparr>"
proof -
  obtain a s1 where s1: "rd m s = Ok a s1" "ok s1" "vw s1 = (vw s)\<lparr>v_held := [a \<mapsto> m]\<rparr>" "rest s1 = rest s"
    using rd [OF assms(1,3)] assms(2,6) by auto
  obtain d s2 where s2: "rd n s1 = Ok d s2" "ok s2" "v_held (vw s1) d = None"
    "vw s2 = (vw s1)\<lparr>v_held := (v_held (vw s1))(d \<mapsto> n)\<rparr>" "rest s2 = rest s1"
    using rd [OF s1(2), of n] s1(3) assms(4,5,7) by auto
  show ?thesis using s1 s2 by (auto split: if_splits)
qed

text \<open>
  Copying one held block over another, writing it out and releasing both: the step of write_log and
  of install_trans.
\<close>

lemma copy_out:
  assumes "ok s" "v_held (vw s) = [a \<mapsto> m, d \<mapsto> n] \<or> v_held (vw s) = [d \<mapsto> n, a \<mapsto> m]" "a \<noteq> d" "m \<noteq> n" "m < v_size (vw s)"
    "v_cache (vw s) m = v_disk (vw s) m \<or> m \<in> v_pin (vw s)"
  shows "\<exists>s'. kseq (\<lambda>s. st d (dat s a) s) (kseq (wr d) (kseq (rl a) (rl d))) s = Ok () s' \<and> ok s' \<and> rest s' = rest s \<and>
    vw s' = (vw s)\<lparr>v_cache := (v_cache (vw s))(n := v_cache (vw s) m), v_disk := (v_disk (vw s))(n := v_cache (vw s) m),
      v_pin := v_pin (vw s) - {n}, v_held := Map.empty, v_hist := v_hist (vw s) @ [(n, v_cache (vw s) m)]\<rparr>"
proof -
  have h: "v_held (vw s) a = Some m" "v_held (vw s) d = Some n" "(v_held (vw s))(a := None, d := None) = Map.empty"
    using assms(2,3) by auto
  have l: "length (dat s a) = BSIZE" using dat [OF assms(1) h(1)] len [OF assms(1,5)] by simp
  obtain s1 where s1: "st d (dat s a) s = Ok () s1" "ok s1" "rest s1 = rest s"
    "vw s1 = (vw s)\<lparr>v_cache := (v_cache (vw s))(n := v_cache (vw s) m)\<rparr>"
    using st [OF assms(1) h(2) l] dat [OF assms(1) h(1)] by auto
  obtain s2 where s2: "wr d s1 = Ok () s2" "ok s2" "rest s2 = rest s1"
    "vw s2 = (vw s1)\<lparr>v_disk := (v_disk (vw s1))(n := v_cache (vw s1) n), v_pin := v_pin (vw s1) - {n},
          v_hist := v_hist (vw s1) @ [(n, v_cache (vw s1) n)]\<rparr>"
    using wr [OF s1(2), of d n] s1(4) h(2) by auto
  obtain s3 where s3: "rl a s2 = Ok () s3" "ok s3" "rest s3 = rest s2" "vw s3 = (vw s2)\<lparr>v_held := (v_held (vw s2))(a := None)\<rparr>"
    using rl [OF s2(2), of a m] s2(4) s1(4) h(1) assms(4,6) by auto
  obtain s4 where s4: "rl d s3 = Ok () s4" "ok s4" "rest s4 = rest s3" "vw s4 = (vw s3)\<lparr>v_held := (v_held (vw s3))(d := None)\<rparr>"
    using rl [OF s3(2), of d n] s3(4) s2(4) s1(4) h(2) assms(3) by auto
  show ?thesis using s1 s2 s3 s4 h(3) by (simp add: kstep)
qed

text \<open>Storing into the held block, writing it out and releasing it.\<close>

lemma store_out:
  assumes "ok s" "v_held (vw s) = [b \<mapsto> n]" "length xs = BSIZE"
  shows "\<exists>s'. kseq (st b xs) (kseq (wr b) (rl b)) s = Ok () s' \<and> ok s' \<and> rest s' = rest s \<and>
    vw s' = (vw s)\<lparr>v_cache := (v_cache (vw s))(n := xs), v_disk := (v_disk (vw s))(n := xs),
      v_pin := v_pin (vw s) - {n}, v_held := Map.empty, v_hist := v_hist (vw s) @ [(n, xs)]\<rparr>"
proof -
  obtain s2 where s2: "st b xs s = Ok () s2" "ok s2" "rest s2 = rest s" "vw s2 = (vw s)\<lparr>v_cache := (v_cache (vw s))(n := xs)\<rparr>"
    using st [OF assms(1) _ assms(3), of b n] assms(2) by auto
  obtain s3 where s3: "wr b s2 = Ok () s3" "ok s3" "rest s3 = rest s2"
    "vw s3 = (vw s2)\<lparr>v_disk := (v_disk (vw s2))(n := v_cache (vw s2) n), v_pin := v_pin (vw s2) - {n},
          v_hist := v_hist (vw s2) @ [(n, v_cache (vw s2) n)]\<rparr>"
    using wr [OF s2(2), of b n] s2(4) assms(2) by auto
  obtain s4 where s4: "rl b s3 = Ok () s4" "ok s4" "rest s4 = rest s3" "vw s4 = (vw s3)\<lparr>v_held := (v_held (vw s3))(b := None)\<rparr>"
    using rl [OF s3(2), of b n] s3(4) s2(4) assms(2) by auto
  have "vw s4 = (vw s)\<lparr>v_cache := (v_cache (vw s))(n := xs), v_disk := (v_disk (vw s))(n := xs),
      v_pin := v_pin (vw s) - {n}, v_held := Map.empty, v_hist := v_hist (vw s) @ [(n, xs)]\<rparr>"
    using assms(2) s2(4) s3(4) s4(4) by simp
  then show ?thesis using s2 s3 s4 by (simp add: kstep)
qed

text \<open>A block that is only looked at.\<close>

lemma peek:
  assumes "ok s" "v_held (vw s) = Map.empty" "n < v_size (vw s)" "card (v_pin (vw s)) < NBUF"
  shows "\<exists>b s1. rd n s = Ok b s1 \<and> ok s1 \<and> rest s1 = rest s \<and> vw s1 = (vw s)\<lparr>v_held := [b \<mapsto> n]\<rparr> \<and> dat s1 b = v_cache (vw s) n"
proof -
  obtain b s1 where s1: "rd n s = Ok b s1" "ok s1" "vw s1 = (vw s)\<lparr>v_held := [b \<mapsto> n]\<rparr>" "rest s1 = rest s"
    using rd [OF assms(1,3)] assms(2,4) by auto
  then show ?thesis using dat [OF s1(2), of b n] by auto
qed

lemma unpeek:
  assumes "ok s1" "vw s1 = v\<lparr>v_held := [b \<mapsto> n]\<rparr>" "v_held v = Map.empty" "v_cache v n = v_disk v n \<or> n \<in> v_pin v"
  shows "\<exists>s2. rl b s1 = Ok () s2 \<and> ok s2 \<and> rest s2 = rest s1 \<and> vw s2 = v"
  using rl [OF assms(1), of b n] assms(2-4) by auto

end

interpretation bs: block_store "bread 1" bwrite brelse "\<lambda>b. updb b (b_dirty_update (\<lambda>_. True))" set_data
  "\<lambda>s b. b_data (bufat s b)" "\<lambda>s b. b_blockno (bufat s b)" bc view bcst.more
proof unfold_locales
  fix s :: "'a bcst_scheme" and n b
  show "bc s \<Longrightarrow> v_held (view s) b = Some n \<Longrightarrow> b_data (bufat s b) = v_cache (view s) n \<and> b_blockno (bufat s b) = n"
    using heldD [of s b n] by (simp add: view_def)
  assume "bc s"
  note i = bcD [OF this] and at = cblk_at [OF this] and none = cblk_none [of s n, OF _ bc_length [OF this]]
  have c: "(\<exists>b<NBUF. b_valid (bufat s b) \<and> b_blockno (bufat s b) = n \<and> cblk s n = b_data (bufat s b)) \<or> cblk s n = dblk (memdisk s) n"
    using at none by blast
  show "n \<notin> v_pin (view s) \<Longrightarrow> n \<notin> ran (v_held (view s)) \<Longrightarrow> v_cache (view s) n = v_disk (view s) n"
    using bc_agree [OF \<open>bc s\<close>, of n] by (simp add: view_def)
  show "n < v_size (view s) \<Longrightarrow> length (v_cache (view s) n) = BSIZE"
    using c i(2) by (auto simp: view_def bufok_def)
  show "v_pin (view s) \<subseteq> {..<v_size (view s)}" using i(2) by (auto simp: view_def bufok_def pins_def)
qed (rule bread_view set_data_view pin_view bwrite_view brelse_view; assumption)+

subsection \<open>Properties\<close>

text \<open>
  C15: the buffer cache implements the block store its clients see. bread of a block that is not held
  returns a locked buffer with the block's current contents, provided some buffer is neither pinned
  nor held or the block itself is pinned; bwrite makes the disk equal to the buffer; brelse gives the
  buffer back. None of them changes what a client sees of any other block, and all keep the invariant:
  a ring of all buffers, no block cached twice, clean free buffers equal to the disk.
\<close>

theorem buffer_cache_refines_view:
  fixes s :: "'z bcst_scheme"
  assumes "bc s"
  shows "(n < v_size (view s) \<and> n \<notin> ran (v_held (view s)) \<and>
      (card (v_pin (view s) \<union> ran (v_held (view s))) < NBUF \<or> n \<in> v_pin (view s)) \<longrightarrow>
      (\<exists>b s'. bread 1 n s = Ok b s' \<and> bc s' \<and> b_data (bufat s' b) = v_cache (view s) n \<and> v_held (view s) b = None \<and>
        view s' = (view s)\<lparr>v_held := (v_held (view s))(b \<mapsto> n)\<rparr>)) \<and>
    (v_held (view s) b = Some n \<longrightarrow>
      (\<exists>s'. bwrite b s = Ok () s' \<and> bc s' \<and>
        view s' = (view s)\<lparr>v_disk := (v_disk (view s))(n := v_cache (view s) n), v_pin := v_pin (view s) - {n},
          v_hist := v_hist (view s) @ [(n, v_cache (view s) n)]\<rparr>)) \<and>
    (v_held (view s) b = Some n \<and> (v_cache (view s) n = v_disk (view s) n \<or> n \<in> v_pin (view s)) \<longrightarrow>
      (\<exists>s'. brelse b s = Ok () s' \<and> bc s' \<and> view s' = (view s)\<lparr>v_held := (v_held (view s))(b := None)\<rparr>))"
proof (intro conjI impI)
  assume "n < v_size (view s) \<and> n \<notin> ran (v_held (view s)) \<and>
      (card (v_pin (view s) \<union> ran (v_held (view s))) < NBUF \<or> n \<in> v_pin (view s))"
  then obtain b s' where s': "bread 1 n s = Ok b s'" "bc s'" "v_held (view s) b = None"
    "view s' = (view s)\<lparr>v_held := (v_held (view s))(b \<mapsto> n)\<rparr>" using bs.rd [OF assms, of n] by blast
  moreover have "b_data (bufat s' b) = v_cache (view s') n" using bs.dat [OF s'(2), of b n] s'(4) by simp
  ultimately show "\<exists>b s'. bread 1 n s = Ok b s' \<and> bc s' \<and> b_data (bufat s' b) = v_cache (view s) n \<and> v_held (view s) b = None \<and>
        view s' = (view s)\<lparr>v_held := (v_held (view s))(b \<mapsto> n)\<rparr>" by auto
qed (use bs.wr [OF assms, of b n] bs.rl [OF assms, of b n] in blast)+

text \<open>A machine with an empty cache over a blank disk of 1000 blocks.\<close>

definition boot_bcst :: bcst where
  "boot_bcst = slst.extend boot_slst (bcst.fields (replicate (NBUF + 1) zero_buf) (\<lambda>_. 0) 1000 [])"

lemma boot_cache:
  "\<exists>s. binit boot_bcst = Ok () s \<and> bc s \<and> v_pin (view s) = {} \<and> v_held (view s) = Map.empty \<and>
    memdisk s = (\<lambda>_. 0) \<and> disksize s = 1000 \<and> dwrites s = [] \<and> ring (bufs s) (rev [0..<NBUF]) \<and>
    (\<forall>b<NBUF. \<not> b_valid (bufat s b))"
proof -
  have "table_ok boot_bcst" "held boot_bcst = {}" "bufs boot_bcst = replicate (NBUF + 1) zero_buf" "disksize boot_bcst \<le> 0x800000"
    by (simp_all add: boot_bcst_def boot_slst_def boot_ptab_def ptab.defs slst.defs bcst.defs table_ok_def NPROC_def)
  then have "\<exists>s. binit boot_bcst = Ok () s \<and> bc s \<and> v_pin (view s) = {} \<and> v_held (view s) = Map.empty \<and>
    memdisk s = memdisk boot_bcst \<and> disksize s = disksize boot_bcst \<and> dwrites s = dwrites boot_bcst \<and> ring (bufs s) (rev [0..<NBUF]) \<and>
    (\<forall>b<NBUF. \<not> b_valid (bufat s b))"
    using binit_ok [of boot_bcst] by blast
  then show ?thesis by (simp add: boot_bcst_def boot_slst_def boot_ptab_def ptab.defs slst.defs bcst.defs)
qed

theorem buffer_cache_refines_view_witness:
  "\<exists>s b s'. binit boot_bcst = Ok () s \<and> bread 1 7 s = Ok b s' \<and> b_data (bufat s' b) = replicate BSIZE 0 \<and> bc s'"
proof -
  obtain s where s: "binit boot_bcst = Ok () s" "bc s" "v_pin (view s) = {}" "v_held (view s) = Map.empty" "memdisk s = (\<lambda>_. 0)" "disksize s = 1000"
    using boot_cache by blast
  have "v_cache (view s) 7 = v_disk (view s) 7" by (rule bs.clean [OF s(2)]) (use s(3,4) in simp_all)
  moreover have "v_disk (view s) 7 = replicate BSIZE 0" using s(5,6) by (auto simp: view_def dblk_def get_bytes_def map_replicate_const)
  moreover have "\<exists>b s'. bread 1 7 s = Ok b s' \<and> bc s' \<and> b_data (bufat s' b) = v_cache (view s) 7"
    using buffer_cache_refines_view [OF s(2), of 7] s(3,4,6) by (auto simp: NBUF_def MAXOPBLOCKS_def)
  ultimately show ?thesis using s(1) by auto
qed

text \<open>
  C16: the list is kept in most-recently-used order and buffers are recycled from its other end.
  brelse moves the buffer to the front; bread of a block that is not cached takes the last buffer on
  the list that is neither in use nor dirty, and leaves the order alone.
\<close>

theorem buffer_cache_lru:
  fixes s :: "'z bcst_scheme"
  assumes "bc s" "ring (bufs s) L"
  shows "(v_held (view s) b = Some n \<longrightarrow> (\<exists>s'. brelse b s = Ok () s' \<and> ring (bufs s') (b # remove1 b L))) \<and>
    ((\<forall>c<NBUF. b_valid (bufat s c) \<longrightarrow> b_blockno (bufat s c) \<noteq> n) \<and> n < disksize s \<and>
      find (\<lambda>b. b_refcnt (bufat s b) = 0 \<and> \<not> b_dirty (bufat s b)) (rev L) = Some d \<longrightarrow>
      (\<exists>s'. bread 1 n s = Ok d s' \<and> ring (bufs s') L))"
proof (intro conjI impI)
  assume h: "v_held (view s) b = Some n"
  note d = heldD [OF assms(1), of b n] and i = bcD [OF assms(1)]
  have "ring (upd_nth b (\<lambda>x. x\<lparr>b_refcnt := b_refcnt x - 1\<rparr>) (bufs s)) L" by (rule ring_same [OF assms(2)]) simp_all
  then have "ring (relink b (upd_nth b (\<lambda>x. x\<lparr>b_refcnt := b_refcnt x - 1\<rparr>) (bufs s))) (b # remove1 b L)"
    by (rule ring_relink(1)) (use d h in simp)
  then show "\<exists>s'. brelse b s = Ok () s' \<and> ring (bufs s') (b # remove1 b L)"
    using brelse_run [of s b] d h i(4,5) bc_length [OF assms(1)] by simp
next
  assume m: "(\<forall>c<NBUF. b_valid (bufat s c) \<longrightarrow> b_blockno (bufat s c) \<noteq> n) \<and> n < disksize s \<and>
      find (\<lambda>b. b_refcnt (bufat s b) = 0 \<and> \<not> b_dirty (bufat s b)) (rev L) = Some d"
  have sL: "set L = {..<NBUF}" using assms(2) by (simp add: ring_def)
  have "find (\<lambda>b. b_dev (bufat s b) = 1 \<and> b_blockno (bufat s b) = n) L = None"
    unfolding find_ring(2) [OF sL] using m bcD(2) [OF assms(1)] by (auto simp: bufok_def)
  moreover have "d < NBUF" "b_refcnt (bufat s d) = 0" using find_ring(3) [OF sL] m by blast+
  then have "\<not> blocked s d" using bcD(2) [OF assms(1), of d] by (auto simp: bufok_def)
  ultimately show "\<exists>s'. bread 1 n s = Ok d s' \<and> ring (bufs s') L"
    using bread_miss [OF assms(1) _ assms(2), of n d] m ring_same [OF assms(2)] by fastforce
qed

theorem buffer_cache_lru_witness:
  "\<exists>s s'. binit boot_bcst = Ok () s \<and> bread 1 7 s = Ok 0 s' \<and> ring (bufs s') (rev [0..<NBUF])"
proof -
  obtain s where s: "binit boot_bcst = Ok () s" "bc s" "v_pin (view s) = {}" "v_held (view s) = Map.empty"
    "disksize s = 1000" "ring (bufs s) (rev [0..<NBUF])" "\<forall>b<NBUF. \<not> b_valid (bufat s b)" using boot_cache by blast
  have "[0..<NBUF] = 0 # [1..<NBUF]" by (simp add: upt_conv_Cons NBUF_def MAXOPBLOCKS_def)
  moreover have z: "0 < NBUF" by (simp add: NBUF_def MAXOPBLOCKS_def)
  have "\<not> b_dirty (bufat s 0)" "\<not> blocked s 0" using s(3,4) z heldb_ran [OF z, of s] by (auto simp: pins_def)
  then have "b_refcnt (bufat s 0) = 0 \<and> \<not> b_dirty (bufat s 0)" using bcD(2) [OF s(2) z] by (simp add: bufok_def)
  ultimately have "find (\<lambda>b. b_refcnt (bufat s b) = 0 \<and> \<not> b_dirty (bufat s b)) (rev (rev [0..<NBUF])) = Some 0" by simp
  then show ?thesis using buffer_cache_lru [OF s(2,6), of _ 7 0] s(1,5,7) by auto
qed

end
