(* ===== verification/Bytes.thy ===== *)
theory Bytes
  imports Memory
begin

text \<open>
  C objects inside a block's data: little-endian 16- and 32-bit fields of a byte list, at a byte
  offset, and arrays of 32-bit words. The lemmas are the algebra of loads and stores: a load gives
  what the last store at that offset put there, and stores elsewhere do not matter.
\<close>

unbundle bit_operations_syntax

definition rd32 :: "byte list \<Rightarrow> nat \<Rightarrow> uint" where
  "rd32 xs i = ucast (xs ! i) OR push_bit 8 (ucast (xs ! (i + 1))) OR push_bit 16 (ucast (xs ! (i + 2))) OR
     push_bit 24 (ucast (xs ! (i + 3)))"

definition wr32 :: "nat \<Rightarrow> uint \<Rightarrow> byte list \<Rightarrow> byte list" where
  "wr32 i w xs = xs[i := byte_of 0 w, i + 1 := byte_of 1 w, i + 2 := byte_of 2 w, i + 3 := byte_of 3 w]"

definition rd16 :: "byte list \<Rightarrow> nat \<Rightarrow> ushort" where
  "rd16 xs i = ucast (xs ! i) OR push_bit 8 (ucast (xs ! (i + 1)))"

definition wr16 :: "nat \<Rightarrow> ushort \<Rightarrow> byte list \<Rightarrow> byte list" where
  "wr16 i w xs = xs[i := ucast w, i + 1 := ucast (drop_bit 8 w)]"

text \<open>A run of consecutive words, as a loop over an array stores them.\<close>

fun wr32s :: "nat \<Rightarrow> uint list \<Rightarrow> byte list \<Rightarrow> byte list" where
  "wr32s i [] xs = xs"
| "wr32s i (w # ws) xs = wr32s (i + 4) ws (wr32 i w xs)"

definition rd32s :: "byte list \<Rightarrow> nat \<Rightarrow> nat \<Rightarrow> uint list" where
  "rd32s xs i n = map (\<lambda>k. rd32 xs (i + 4 * k)) [0..<n]"

lemma length_wr [simp]: "length (wr32 i w xs) = length xs" "length (wr16 i v xs) = length xs" "length (wr32s i ws xs) = length xs"
  by (simp_all add: wr32_def wr16_def) (induction ws arbitrary: i xs; simp add: wr32_def)

lemma nth_wr32: "j < i \<or> i + 4 \<le> j \<Longrightarrow> wr32 i w xs ! j = xs ! j"
  by (auto simp: wr32_def)

lemma nth_wr16: "j < i \<or> i + 2 \<le> j \<Longrightarrow> wr16 i w xs ! j = xs ! j"
  by (auto simp: wr16_def)

lemma nth_wr32s: "j < i \<or> i + 4 * length ws \<le> j \<Longrightarrow> wr32s i ws xs ! j = xs ! j"
  by (induction ws arbitrary: i xs) (auto simp: nth_wr32)

lemma rd32_wr32 [simp]: "i + 3 < length xs \<Longrightarrow> rd32 (wr32 i w xs) i = w"
  by (simp add: rd32_def wr32_def nth_list_update join_bytes)

lemma join_bytes16: "(ucast (ucast w :: byte) :: ushort) OR push_bit 8 (ucast (ucast (drop_bit 8 w) :: byte)) = w"
proof (rule bit_word_eqI)
  fix n :: nat
  assume "n < LENGTH(16)"
  then have "n < 16" by simp
  then consider "n < 8" | "8 \<le> n" "n < 16" by linarith
  then show "bit ((ucast (ucast w :: byte) :: ushort) OR push_bit 8 (ucast (ucast (drop_bit 8 w) :: byte))) n = bit w n"
    by cases (auto simp: bit_simps)
qed

lemma rd16_wr16 [simp]: "i + 1 < length xs \<Longrightarrow> rd16 (wr16 i w xs) i = w"
  by (simp add: rd16_def wr16_def nth_list_update join_bytes16)

lemma rd32_other:
  "j + 4 \<le> i \<or> i + 4 \<le> j \<Longrightarrow> rd32 (wr32 i w xs) j = rd32 xs j"
  "j + 4 \<le> i \<or> i + 2 \<le> j \<Longrightarrow> rd32 (wr16 i v xs) j = rd32 xs j"
  "j + 4 \<le> i \<or> i + 4 * length ws \<le> j \<Longrightarrow> rd32 (wr32s i ws xs) j = rd32 xs j"
  by (auto simp: rd32_def nth_wr32 nth_wr16 nth_wr32s)

lemma rd16_other:
  "j + 2 \<le> i \<or> i + 4 \<le> j \<Longrightarrow> rd16 (wr32 i w xs) j = rd16 xs j"
  "j + 2 \<le> i \<or> i + 2 \<le> j \<Longrightarrow> rd16 (wr16 i v xs) j = rd16 xs j"
  "j + 2 \<le> i \<or> i + 4 * length ws \<le> j \<Longrightarrow> rd16 (wr32s i ws xs) j = rd16 xs j"
  by (auto simp: rd16_def nth_wr32 nth_wr16 nth_wr32s)

lemma length_rd32s [simp]: "length (rd32s xs i n) = n"
  by (simp add: rd32s_def)

lemma rd32s_wr32s [simp]: "i + 4 * length ws \<le> length xs \<Longrightarrow> n = length ws \<Longrightarrow> rd32s (wr32s i ws xs) i n = ws"
proof (induction ws arbitrary: i xs n)
  case (Cons w ws)
  have "rd32s (wr32s (i + 4) ws (wr32 i w xs)) i n = rd32 (wr32s (i + 4) ws (wr32 i w xs)) i # rd32s (wr32s (i + 4) ws (wr32 i w xs)) (i + 4) (length ws)"
    using Cons.prems(2) by (simp add: rd32s_def upt_conv_Cons map_Suc_upt [symmetric] add.assoc del: upt_Suc)
  then show ?case using Cons by (simp add: rd32_other)
qed (simp add: rd32s_def)

lemma rd32s_other: "j + 4 * n \<le> i \<or> i + 4 * length ws \<le> j \<Longrightarrow> rd32s (wr32s i ws xs) j n = rd32s xs j n"
  by (auto simp: rd32s_def rd32_other)

lemma rd32s_wr32: "j + 4 * n \<le> i \<or> i + 4 \<le> j \<Longrightarrow> rd32s (wr32 i w xs) j n = rd32s xs j n"
  by (auto simp: rd32s_def rd32_other)

lemma rd32s_wr16: "j + 4 * n \<le> i \<or> i + 2 \<le> j \<Longrightarrow> rd32s (wr16 i w xs) j n = rd32s xs j n"
  by (auto simp: rd32s_def rd32_other)

lemma rd32s_nth [simp]: "k < n \<Longrightarrow> rd32s xs i n ! k = rd32 xs (i + 4 * k)"
  by (simp add: rd32s_def)

end
