(* ===== verification/Log.thy ===== *)
theory Log
  imports Bio Bytes
begin

text \<open>
  The write-ahead log (log.c). The header is kept in memory (\<open>lh\<close>) and in the first block of the log on
  disk; a transaction is the list of blocks logged since the last commit. The theorems show that a
  commit is atomic: whatever prefix of its disk writes a crash leaves behind, recovery produces either
  the file system before the transaction or the one after it.
\<close>

record superblock =
  sb_size :: uint
  sb_nblocks :: uint
  sb_ninodes :: uint
  sb_nlog :: uint
  sb_logstart :: uint
  sb_inodestart :: uint
  sb_bmapstart :: uint

text \<open>\<^verbatim>\<open>memmove(sb, bp->data, sizeof(*sb))\<close>.\<close>

definition get_sb :: "byte list \<Rightarrow> superblock" where
  "get_sb xs = \<lparr>sb_size = rd32 xs 0, sb_nblocks = rd32 xs 4, sb_ninodes = rd32 xs 8, sb_nlog = rd32 xs 12,
     sb_logstart = rd32 xs 16, sb_inodestart = rd32 xs 20, sb_bmapstart = rd32 xs 24\<rparr>"

definition readsb :: "uint \<Rightarrow> ('z bcst_scheme, superblock) kern" where
  "readsb dev =
     kbind (bread dev 1) (\<lambda>bp.
     kbind (gets (\<lambda>s. get_sb (b_data (bufat s bp)))) (\<lambda>sb.
     kseq (brelse bp) (ret sb)))"

record logheader =
  lh_n :: int
  lh_block :: "uint list"

record log =
  l_start :: uint
  l_size :: int
  l_outstanding :: int
  l_committing :: bool
  l_dev :: uint
  l_lh :: logheader

record lgst = bcst +
  lg :: log

definition upd_lg :: "(log \<Rightarrow> log) \<Rightarrow> ('z lgst_scheme, unit) kern" where
  "upd_lg f = modify (\<lambda>s. s\<lparr>lg := f (lg s)\<rparr>)"

definition set_n :: "int \<Rightarrow> ('z lgst_scheme, unit) kern" where
  "set_n n = upd_lg (\<lambda>l. l\<lparr>l_lh := (l_lh l)\<lparr>lh_n := n\<rparr>\<rparr>)"

text \<open>An access outside an object, which C leaves undefined.\<close>

definition undef :: "('s, 'a) kern" where
  "undef = panic ''undefined behaviour''"

definition install_block :: "nat \<Rightarrow> ('z lgst_scheme, unit) kern" where
  "install_block tail =
     (if LOGSIZE \<le> tail then undef
      else
       kbind (\<lambda>s. bread (l_dev (lg s)) (l_start (lg s) + of_nat tail + 1) s) (\<lambda>lbuf.
       kbind (\<lambda>s. bread (l_dev (lg s)) (lh_block (l_lh (lg s)) ! tail) s) (\<lambda>dbuf.
       kseq (\<lambda>s. set_data dbuf (b_data (bufat s lbuf)) s)
       (kseq (bwrite dbuf)
       (kseq (brelse lbuf)
             (brelse dbuf))))))"

definition install_trans :: "('z lgst_scheme, unit) kern" where
  "install_trans = (\<lambda>s. kfor install_block [0..<nat (lh_n (l_lh (lg s)))] s)"

definition read_head_entry :: "nat \<Rightarrow> nat \<Rightarrow> ('z lgst_scheme, unit) kern" where
  "read_head_entry buf i =
     (if LOGSIZE \<le> i then undef
      else (\<lambda>s. upd_lg (\<lambda>l. l\<lparr>l_lh := (l_lh l)\<lparr>lh_block := (lh_block (l_lh l))[i := rd32 (b_data (bufat s buf)) (4 + 4 * i)]\<rparr>\<rparr>) s))"

definition read_head :: "('z lgst_scheme, unit) kern" where
  "read_head =
     kbind (\<lambda>s. bread (l_dev (lg s)) (l_start (lg s)) s) (\<lambda>buf.
     kseq (\<lambda>s. set_n (sint (rd32 (b_data (bufat s buf)) 0)) s)
     (kseq (\<lambda>s. kfor (read_head_entry buf) [0..<nat (lh_n (l_lh (lg s)))] s)
           (brelse buf)))"

text \<open>The stores of write_head into the header block.\<close>

definition put_head :: "logheader \<Rightarrow> byte list \<Rightarrow> byte list" where
  "put_head h xs = wr32s 4 (take (nat (lh_n h)) (lh_block h)) (wr32 0 (word_of_int (lh_n h)) xs)"

definition write_head :: "('z lgst_scheme, unit) kern" where
  "write_head =
     kif (\<lambda>s. int LOGSIZE < lh_n (l_lh (lg s))) undef
     (kbind (\<lambda>s. bread (l_dev (lg s)) (l_start (lg s)) s) (\<lambda>buf.
      kseq (\<lambda>s. set_data buf (put_head (l_lh (lg s)) (b_data (bufat s buf))) s)
      (kseq (bwrite buf)
            (brelse buf))))"

definition recover_from_log :: "('z lgst_scheme, unit) kern" where
  "recover_from_log = kseq read_head (kseq install_trans (kseq (set_n 0) write_head))"

definition initlog :: "uint \<Rightarrow> ('z lgst_scheme, unit) kern" where
  "initlog dev =
     (if 4 + 4 * LOGSIZE \<ge> BSIZE then panic ''initlog: too big logheader''
      else
       kseq (modify (\<lambda>s. s\<lparr>held := held s - {LogLock}\<rparr>))
       (kbind (readsb dev) (\<lambda>sb.
        kseq (upd_lg (\<lambda>l. l\<lparr>l_start := sb_logstart sb, l_size := sint (sb_nlog sb), l_dev := dev\<rparr>))
             recover_from_log)))"

text \<open>
  begin_op waits in a loop; \<open>begin_op_resume\<close> is what runs when the sleep inside the loop returns.
\<close>

definition begin_op_loop :: "('z lgst_scheme, unit) kern" where
  "begin_op_loop =
     kif (\<lambda>s. l_committing (lg s)) (sleep ChLog (Some LogLock))
     (kif (\<lambda>s. lh_n (l_lh (lg s)) + (l_outstanding (lg s) + 1) * int MAXOPBLOCKS > int LOGSIZE) (sleep ChLog (Some LogLock))
     (kseq (upd_lg (\<lambda>l. l\<lparr>l_outstanding := l_outstanding l + 1\<rparr>))
           (release LogLock)))"

definition begin_op :: "('z lgst_scheme, unit) kern" where
  "begin_op = kseq (acquire LogLock) begin_op_loop"

definition begin_op_resume :: "('z lgst_scheme, unit) kern" where
  "begin_op_resume = kseq (sleep_exit (Some LogLock)) begin_op_loop"

definition log_block :: "nat \<Rightarrow> ('z lgst_scheme, unit) kern" where
  "log_block tail =
     (if LOGSIZE \<le> tail then undef
      else
       kbind (\<lambda>s. bread (l_dev (lg s)) (l_start (lg s) + of_nat tail + 1) s) (\<lambda>to.
       kbind (\<lambda>s. bread (l_dev (lg s)) (lh_block (l_lh (lg s)) ! tail) s) (\<lambda>from.
       kseq (\<lambda>s. set_data to (b_data (bufat s from)) s)
       (kseq (bwrite to)
       (kseq (brelse from)
             (brelse to))))))"

definition write_log :: "('z lgst_scheme, unit) kern" where
  "write_log = (\<lambda>s. kfor log_block [0..<nat (lh_n (l_lh (lg s)))] s)"

definition commit :: "('z lgst_scheme, unit) kern" where
  "commit =
     kwhen (\<lambda>s. lh_n (l_lh (lg s)) > 0)
     (kseq write_log
     (kseq write_head
     (kseq install_trans
     (kseq (set_n 0)
           write_head))))"

definition end_op :: "('z lgst_scheme, unit) kern" where
  "end_op =
     kseq (acquire LogLock)
     (kseq (upd_lg (\<lambda>l. l\<lparr>l_outstanding := l_outstanding l - 1\<rparr>))
     (kif (\<lambda>s. l_committing (lg s)) (panic ''log.committing'')
     (kbind (gets (\<lambda>s. l_outstanding (lg s) = 0)) (\<lambda>do_commit.
      kseq (if do_commit then upd_lg (\<lambda>l. l\<lparr>l_committing := True\<rparr>) else wakeup ChLog)
      (kseq (release LogLock)
            (if do_commit then
               kseq commit
               (kseq (acquire LogLock)
               (kseq (upd_lg (\<lambda>l. l\<lparr>l_committing := False\<rparr>))
               (kseq (wakeup ChLog)
                     (release LogLock))))
             else ret ()))))))"

text \<open>
  The scan of log_write ends at the entry of the block or at the end of the list; the store that
  follows is in range because the first test has excluded a full header.
\<close>

definition log_scan :: "uint \<Rightarrow> logheader \<Rightarrow> nat" where
  "log_scan n h = (case find_slot (\<lambda>x. x = n) (take (nat (lh_n h)) (lh_block h)) of Some i \<Rightarrow> i | None \<Rightarrow> nat (lh_n h))"

definition log_write :: "nat \<Rightarrow> ('z lgst_scheme, unit) kern" where
  "log_write b =
     kif (\<lambda>s. lh_n (l_lh (lg s)) \<ge> int LOGSIZE \<or> lh_n (l_lh (lg s)) \<ge> l_size (lg s) - 1) (panic ''too big a transaction'')
     (kif (\<lambda>s. l_outstanding (lg s) < 1) (panic ''log_write outside of trans'')
     (kseq (acquire LogLock)
     (kbind (gets (\<lambda>s. log_scan (b_blockno (bufat s b)) (l_lh (lg s)))) (\<lambda>i.
      kseq (\<lambda>s. upd_lg (\<lambda>l. l\<lparr>l_lh := (l_lh l)\<lparr>lh_block := (lh_block (l_lh l))[i := b_blockno (bufat s b)]\<rparr>\<rparr>) s)
      (kseq (kwhen (\<lambda>s. int i = lh_n (l_lh (lg s))) (upd_lg (\<lambda>l. l\<lparr>l_lh := (l_lh l)\<lparr>lh_n := lh_n (l_lh l) + 1\<rparr>\<rparr>)))
      (kseq (updb b (b_dirty_update (\<lambda>_. True)))
            (release LogLock)))))))"

subsection \<open>Disk writes and block copies on the view\<close>

text \<open>What a sequence of block writes makes of a disk.\<close>

definition replay :: "(uint \<times> byte list) list \<Rightarrow> (uint \<Rightarrow> byte list) \<Rightarrow> uint \<Rightarrow> byte list" where
  "replay ws d = fold (\<lambda>(n, x) d. d(n := x)) ws d"

lemma replay_simps [simp]:
  "replay [] d = d" "replay ((n, x) # ws) d = replay ws (d(n := x))" "replay (vs @ ws) d = replay ws (replay vs d)"
  by (simp_all add: replay_def)

lemma replay_other: "k \<notin> fst ` set ws \<Longrightarrow> replay ws d k = d k"
  by (induction ws arbitrary: d) auto

lemma replay_take_other: "k \<notin> fst ` set ws \<Longrightarrow> replay (take j ws) d k = d k"
  by (rule replay_other) (meson image_mono set_take_subset subsetD)

lemma replay_map:
  assumes "inj_on f (set is)" "j \<in> set is"
  shows "replay (map (\<lambda>i. (f i, g i)) is) d (f j) = g j"
  using assms
proof (induction "is" rule: rev_induct)
  case (snoc i us)
  show ?case
  proof (cases "j \<in> set us")
    case True
    then show ?thesis using snoc by (cases "i = j") (auto simp: inj_on_def)
  qed (use snoc in auto)
qed simp

text \<open>Block \<open>m\<close> copied over block \<open>n\<close>, in the cache and on disk.\<close>

definition cpv :: "uint \<Rightarrow> uint \<Rightarrow> bview \<Rightarrow> bview" where
  "cpv m n v = v\<lparr>v_cache := (v_cache v)(n := v_cache v m), v_disk := (v_disk v)(n := v_cache v m),
      v_pin := v_pin v - {n}, v_hist := v_hist v @ [(n, v_cache v m)]\<rparr>"

lemma fold_cpv:
  assumes "\<And>i j. i \<in> set is \<Longrightarrow> j \<in> set is \<Longrightarrow> src i \<noteq> dst j"
  shows "fold (\<lambda>i. cpv (src i) (dst i)) is v =
    v\<lparr>v_cache := replay (map (\<lambda>i. (dst i, v_cache v (src i))) is) (v_cache v),
      v_disk := replay (map (\<lambda>i. (dst i, v_cache v (src i))) is) (v_disk v),
      v_pin := v_pin v - dst ` set is, v_hist := v_hist v @ map (\<lambda>i. (dst i, v_cache v (src i))) is\<rparr>"
  using assms
proof (induction "is" rule: rev_induct)
  case (snoc i us)
  have "replay (map (\<lambda>i. (dst i, v_cache v (src i))) us) (v_cache v) (src i) = v_cache v (src i)"
    by (rule replay_other) (use snoc.prems in force)
  moreover have "v_pin v - dst ` set us - {dst i} = v_pin v - dst ` set (us @ [i])" by auto
  moreover have "fold (\<lambda>i. cpv (src i) (dst i)) (us @ [i]) v = cpv (src i) (dst i) (fold (\<lambda>i. cpv (src i) (dst i)) us v)" by simp
  moreover note snoc.IH
  ultimately show ?case using snoc.prems by (simp add: cpv_def [of "src i" "dst i"] fun_upd_def del: fold_append)
qed simp

subsection \<open>The layout of the log\<close>

definition logblk :: "log \<Rightarrow> nat \<Rightarrow> uint" where
  "logblk l i = l_start l + of_nat i + 1"

definition in_log :: "log \<Rightarrow> uint \<Rightarrow> bool" where
  "in_log l k \<longleftrightarrow> l_start l \<le> k \<and> unat k \<le> unat (l_start l) + LOGSIZE"

definition log_at :: "log \<Rightarrow> bview \<Rightarrow> bool" where
  "log_at l v \<longleftrightarrow> l_dev l = 1 \<and> length (lh_block (l_lh l)) = LOGSIZE \<and> unat (l_start l) + LOGSIZE < unat (v_size v)"

lemma unat_logblk:
  assumes "log_at l v" "i < LOGSIZE"
  shows "unat (logblk l i) = unat (l_start l) + i + 1"
proof -
  have "unat (l_start l) + i + 1 < 2 ^ 32" using assms unat32_less [of "v_size v"] by (simp add: log_at_def)
  then have "unat (of_nat (unat (l_start l) + i + 1) :: uint) = unat (l_start l) + i + 1"
    by (simp add: unat_of_nat del: of_nat_add of_nat_Suc)
  moreover have "of_nat (unat (l_start l) + i + 1) = logblk l i" by (simp add: logblk_def ac_simps)
  ultimately show ?thesis by simp
qed

lemma logblk_facts:
  assumes "log_at l v" "i < LOGSIZE"
  shows "in_log l (logblk l i)" "logblk l i \<noteq> l_start l" "logblk l i < v_size v" "in_log l (l_start l)" "l_start l < v_size v"
    "j < LOGSIZE \<Longrightarrow> i \<noteq> j \<Longrightarrow> logblk l i \<noteq> logblk l j"
  using unat_logblk [OF assms] unat_logblk [OF assms(1), of j] assms
  by (auto simp: in_log_def log_at_def word_less_nat_alt word_le_nat_alt)

lemma logblk_inj: "log_at l v \<Longrightarrow> n \<le> LOGSIZE \<Longrightarrow> inj_on (logblk l) (set [0..<n])"
  by (rule inj_onI, rule ccontr) (use logblk_facts(6) [of l v] in auto)

lemma log_at_more: "log_at l v \<Longrightarrow> l_start l' = l_start l \<Longrightarrow> l_dev l' = l_dev l \<Longrightarrow> v_size v' = v_size v \<Longrightarrow>
    length (lh_block (l_lh l')) = LOGSIZE \<Longrightarrow> log_at l' v'"
  by (simp add: log_at_def)

lemma lgst_more_fields:
  fixes s s' :: "'z lgst_scheme"
  shows "bcst.more s' = bcst.more s \<Longrightarrow> lg s' = lg s"
  by (cases s; cases s'; simp)

lemma lg_view [simp]: "bc (s\<lparr>lg := l\<rparr>) = bc s" "view (s\<lparr>lg := l\<rparr>) = view s"
  by (simp_all add: bc_def view_def cblk_def cached_def pins_def heldb_def table_ok_def cong: if_cong option.case_cong)

lemma upd_lg_run [kstep]: "upd_lg f s = Ok () (s\<lparr>lg := f (lg s)\<rparr>)"
  by (simp add: upd_lg_def)

lemma set_n_run [kstep]: "set_n n s = Ok () (s\<lparr>lg := (lg s)\<lparr>l_lh := (l_lh (lg s))\<lparr>lh_n := n\<rparr>\<rparr>\<rparr>)"
  by (simp add: set_n_def kstep)

subsection \<open>The steps of a commit\<close>

text \<open>The state between two disk operations of the log: no buffer held, room for one more block.\<close>

definition calm :: "'z lgst_scheme \<Rightarrow> bool" where
  "calm s \<longleftrightarrow> bc s \<and> v_held (view s) = Map.empty \<and> log_at (lg s) (view s) \<and> card (v_pin (view s)) < NBUF"

lemma calmD:
  assumes "calm s"
  shows "bc s" "v_held (view s) = Map.empty" "log_at (lg s) (view s)" "card (v_pin (view s)) < NBUF" "l_dev (lg s) = 1"
  using assms by (simp_all add: calm_def log_at_def)

lemma copy_step:
  assumes "calm s" "i < LOGSIZE" "L = logblk (lg s) i" "B = lh_block (l_lh (lg s)) ! i" "B < v_size (view s)" "\<not> in_log (lg s) B"
  shows log_block_step: "L \<notin> v_pin (view s) \<Longrightarrow> B \<in> v_pin (view s) \<Longrightarrow>
      \<exists>s'. log_block i s = Ok () s' \<and> bc s' \<and> view s' = cpv B L (view s) \<and> bcst.more s' = bcst.more s"
    and install_block_step: "L \<notin> v_pin (view s) \<Longrightarrow> B \<in> v_pin (view s) \<or> card (insert L (v_pin (view s))) < NBUF \<Longrightarrow>
      \<exists>s'. install_block i s = Ok () s' \<and> bc s' \<and> view s' = cpv L B (view s) \<and> bcst.more s' = bcst.more s"
proof -
  note c = calmD [OF assms(1)] and l = logblk_facts [OF calmD(3) [OF assms(1)] assms(2), folded assms(3)]
  have ne: "L \<noteq> B" using l(1) assms(6) by auto
  show "\<exists>s'. log_block i s = Ok () s' \<and> bc s' \<and> view s' = cpv B L (view s) \<and> bcst.more s' = bcst.more s"
    if p: "L \<notin> v_pin (view s)" "B \<in> v_pin (view s)"
  proof -
    obtain a d s1 s2 where r: "bread 1 L s = Ok a s1" "bread 1 B s1 = Ok d s2" "a \<noteq> d" "bc s2" "bcst.more s1 = bcst.more s"
      "bcst.more s2 = bcst.more s" "view s2 = (view s)\<lparr>v_held := [a \<mapsto> L, d \<mapsto> B]\<rparr>"
      using bs.rd2 [OF c(1,2) l(3) assms(5) ne c(4)] p by blast
    show ?thesis
      using bs.copy_out [OF r(4), of d B a L] r lgst_more_fields [OF r(5)] c ne p assms
      by (auto simp: log_block_def kstep logblk_def cpv_def)
  qed
  show "\<exists>s'. install_block i s = Ok () s' \<and> bc s' \<and> view s' = cpv L B (view s) \<and> bcst.more s' = bcst.more s"
    if p: "L \<notin> v_pin (view s)" "B \<in> v_pin (view s) \<or> card (insert L (v_pin (view s))) < NBUF"
  proof -
    obtain a d s1 s2 where r: "bread 1 L s = Ok a s1" "bread 1 B s1 = Ok d s2" "a \<noteq> d" "bc s2" "bcst.more s1 = bcst.more s"
      "bcst.more s2 = bcst.more s" "view s2 = (view s)\<lparr>v_held := [a \<mapsto> L, d \<mapsto> B]\<rparr>"
      using bs.rd2 [OF c(1,2) l(3) assms(5) ne c(4)] p by blast
    have "v_cache (view s) L = v_disk (view s) L" using bs.clean [OF c(1) p(1)] c(2) by simp
    then show ?thesis
      using bs.copy_out [OF r(4), of a L d B] r lgst_more_fields [OF r(5)] c l ne p assms
      by (auto simp: install_block_def kstep logblk_def cpv_def)
  qed
qed

text \<open>The blocks of the transaction and where they go.\<close>

definition ntx :: "log \<Rightarrow> nat" where
  "ntx l = nat (lh_n (l_lh l))"

definition home :: "log \<Rightarrow> nat \<Rightarrow> uint" where
  "home l i = lh_block (l_lh l) ! i"

definition homes_ok :: "log \<Rightarrow> bview \<Rightarrow> bool" where
  "homes_ok l v \<longleftrightarrow> ntx l \<le> LOGSIZE \<and> (\<forall>i<ntx l. home l i < v_size v \<and> \<not> in_log l (home l i))"

lemma cpv_same [simp]: "v_size (cpv m n v) = v_size v" "v_held (cpv m n v) = v_held v" "v_pin (cpv m n v) = v_pin v - {n}"
  by (simp_all add: cpv_def)

lemma fold_cpv_same [simp]:
  "v_size (fold (\<lambda>i. cpv (f i) (g i)) is v) = v_size v" "v_held (fold (\<lambda>i. cpv (f i) (g i)) is v) = v_held v"
  "v_pin (fold (\<lambda>i. cpv (f i) (g i)) is v) = v_pin v - g ` set is"
  by (induction "is" arbitrary: v) auto

lemma upt_split:
  assumes "[0..<n] = us @ v # ws"
  shows "us = [0..<v] \<and> v < n"
proof -
  have l: "length us < n" using arg_cong [OF assms, of length] by simp
  then have "v = length us" using arg_cong [OF assms, of "\<lambda>xs. xs ! length us"] by simp
  moreover have "us = take (length us) [0..<n]" by (simp add: assms)
  ultimately show ?thesis using l by (simp add: take_upt)
qed

lemma write_log_run:
  assumes "calm s" "homes_ok (lg s) (view s)" "\<And>i. i < ntx (lg s) \<Longrightarrow> home (lg s) i \<in> v_pin (view s)"
    "\<And>i. i < LOGSIZE \<Longrightarrow> logblk (lg s) i \<notin> v_pin (view s)"
  shows "\<exists>s'. write_log s = Ok () s' \<and> calm s' \<and> bcst.more s' = bcst.more s \<and>
    view s' = fold (\<lambda>i. cpv (home (lg s) i) (logblk (lg s) i)) [0..<ntx (lg s)] (view s)"
proof -
  note c = calmD [OF assms(1)]
  let ?I = "\<lambda>us t. calm t \<and> bcst.more t = bcst.more s \<and> view t = fold (\<lambda>i. cpv (home (lg s) i) (logblk (lg s) i)) us (view s)"
  have "\<exists>s'. kfor log_block [0..<ntx (lg s)] s = Ok () s' \<and> ?I [0..<ntx (lg s)] s'"
  proof (rule kfor_rule [of ?I])
    show "?I [] s" using assms(1) by simp
  next
    fix us i ws t
    assume u: "[0..<ntx (lg s)] = us @ i # ws" and I: "?I us t"
    have i: "us = [0..<i]" "i < ntx (lg s)" "i < LOGSIZE" using upt_split [OF u] assms(2) by (auto simp: homes_ok_def)
    have l: "lg t = lg s" using I lgst_more_fields by blast
    have p: "v_pin (view t) = v_pin (view s)" "v_size (view t) = v_size (view s)" "v_held (view t) = Map.empty"
      using I assms(4) i c(2) by auto
    obtain t' where t': "log_block i t = Ok () t'" "bc t'" "view t' = cpv (home (lg s) i) (logblk (lg s) i) (view t)" "bcst.more t' = bcst.more t"
      using log_block_step [of t i, OF _ i(3) refl refl] I l p assms(2-4) i by (auto simp: homes_ok_def home_def)
    moreover have "calm t'" using t'(2,3) lgst_more_fields [OF t'(4)] l p c assms(4) i by (auto simp: calm_def log_at_def)
    ultimately show "\<exists>t'. log_block i t = Ok () t' \<and> ?I (us @ [i]) t'" using I by auto
  qed
  then show ?thesis by (auto simp: write_log_def ntx_def)
qed

lemma install_run:
  assumes "calm s" "homes_ok (lg s) (view s)"
    "(\<forall>i<ntx (lg s). home (lg s) i \<in> v_pin (view s)) \<and> inj_on (home (lg s)) {..<ntx (lg s)} \<or> v_pin (view s) = {}"
    "\<And>i. i < LOGSIZE \<Longrightarrow> logblk (lg s) i \<notin> v_pin (view s)"
  shows "\<exists>s'. install_trans s = Ok () s' \<and> calm s' \<and> bcst.more s' = bcst.more s \<and>
    view s' = fold (\<lambda>i. cpv (logblk (lg s) i) (home (lg s) i)) [0..<ntx (lg s)] (view s)"
proof -
  note c = calmD [OF assms(1)]
  let ?I = "\<lambda>us t. calm t \<and> bcst.more t = bcst.more s \<and> view t = fold (\<lambda>i. cpv (logblk (lg s) i) (home (lg s) i)) us (view s)"
  have "\<exists>s'. kfor install_block [0..<ntx (lg s)] s = Ok () s' \<and> ?I [0..<ntx (lg s)] s'"
  proof (rule kfor_rule [of ?I])
    show "?I [] s" using assms(1) by simp
  next
    fix us i ws t
    assume u: "[0..<ntx (lg s)] = us @ i # ws" and I: "?I us t"
    have i: "us = [0..<i]" "i < ntx (lg s)" "i < LOGSIZE" using upt_split [OF u] assms(2) by (auto simp: homes_ok_def)
    have l: "lg t = lg s" using I lgst_more_fields by blast
    have p: "v_pin (view t) = v_pin (view s) - home (lg s) ` {0..<i}" "v_size (view t) = v_size (view s)" "v_held (view t) = Map.empty"
      using I i c(2) by auto
    have "home (lg s) i \<notin> home (lg s) ` {0..<i}" if "inj_on (home (lg s)) {..<ntx (lg s)}"
      using inj_onD [OF that, of i] i(2) by force
    then have "home (lg s) i \<in> v_pin (view t) \<or> v_pin (view t) = {}" using assms(3) i(2) p(1) by auto
    then have "home (lg s) i \<in> v_pin (view t) \<or> card (insert (logblk (lg s) i) (v_pin (view t))) < NBUF"
      by (auto simp: NBUF_def MAXOPBLOCKS_def)
    then obtain t' where t': "install_block i t = Ok () t'" "bc t'" "view t' = cpv (logblk (lg s) i) (home (lg s) i) (view t)" "bcst.more t' = bcst.more t"
      using install_block_step [of t i, OF _ i(3) refl refl] I l p assms(2,4) i by (auto simp: homes_ok_def home_def)
    moreover have "card (v_pin (view t')) < NBUF" unfolding t'(3) cpv_same p(1)
      by (rule le_less_trans [OF card_mono c(4)]) auto
    then have "calm t'" using t'(2,3) lgst_more_fields [OF t'(4)] l p c by (auto simp: calm_def log_at_def)
    ultimately show "\<exists>t'. install_block i t = Ok () t' \<and> ?I (us @ [i]) t'" using I by auto
  qed
  then show ?thesis by (auto simp: install_trans_def ntx_def)
qed

text \<open>One block written through to the disk.\<close>

definition wrv :: "uint \<Rightarrow> byte list \<Rightarrow> bview \<Rightarrow> bview" where
  "wrv n x v = v\<lparr>v_cache := (v_cache v)(n := x), v_disk := (v_disk v)(n := x), v_pin := v_pin v - {n}, v_hist := v_hist v @ [(n, x)]\<rparr>"

lemma wrv_same [simp]: "v_size (wrv n x v) = v_size v" "v_held (wrv n x v) = v_held v" "v_pin (wrv n x v) = v_pin v - {n}"
  by (simp_all add: wrv_def)

lemma length_put_head [simp]: "length (put_head h xs) = length xs"
  by (simp add: put_head_def)

lemma log_start:
  assumes "log_at l v"
  shows "l_start l < v_size v"
  using logblk_facts(5) [OF assms, of 0] by (simp add: LOGSIZE_def MAXOPBLOCKS_def)

lemma write_head_run:
  assumes "calm s" "ntx (lg s) \<le> LOGSIZE"
  shows "\<exists>s'. write_head s = Ok () s' \<and> calm s' \<and> bcst.more s' = bcst.more s \<and>
    view s' = wrv (l_start (lg s)) (put_head (l_lh (lg s)) (v_cache (view s) (l_start (lg s)))) (view s)"
proof -
  note c = calmD [OF assms(1)] and st = log_start [OF calmD(3) [OF assms(1)]]
  obtain b s1 where s1: "bread 1 (l_start (lg s)) s = Ok b s1" "bc s1" "bcst.more s1 = bcst.more s"
    "view s1 = (view s)\<lparr>v_held := [b \<mapsto> l_start (lg s)]\<rparr>" "b_data (bufat s1 b) = v_cache (view s) (l_start (lg s))"
    using bs.peek [OF c(1,2) st c(4)] by blast
  let ?x = "put_head (l_lh (lg s1)) (b_data (bufat s1 b))"
  obtain s2 where s2: "kseq (set_data b ?x) (kseq (bwrite b) (brelse b)) s1 = Ok () s2" "bc s2" "bcst.more s2 = bcst.more s1"
    "view s2 = (view s1)\<lparr>v_cache := (v_cache (view s1))(l_start (lg s) := ?x), v_disk := (v_disk (view s1))(l_start (lg s) := ?x),
      v_pin := v_pin (view s1) - {l_start (lg s)}, v_held := Map.empty, v_hist := v_hist (view s1) @ [(l_start (lg s), ?x)]\<rparr>"
    using bs.store_out [OF s1(2), of b "l_start (lg s)" ?x] s1(4,5) bs.len [OF c(1) st] by auto
  have l: "lg s1 = lg s" "lg s2 = lg s" using lgst_more_fields s1(3) s2(3) by metis+
  have r: "write_head s = Ok () s2"
    using s1(1) s2(1) c(5) assms(2) by (simp add: write_head_def kstep kseq_def kbind_def ntx_def)
  have v: "view s2 = wrv (l_start (lg s)) (put_head (l_lh (lg s)) (v_cache (view s) (l_start (lg s)))) (view s)"
    using s2(4) s1(4,5) l c(2) by (simp add: wrv_def)
  have "card (v_pin (view s2)) < NBUF" unfolding v wrv_same by (rule le_less_trans [OF card_mono c(4)]) auto
  then have "calm s2" using s2(2) c l v by (simp add: calm_def log_at_def)
  then show ?thesis using r v s1(3) s2(3) by simp
qed

text \<open>The header block as read_head decodes it.\<close>

definition head_n :: "byte list \<Rightarrow> int" where
  "head_n x = sint (rd32 x 0)"

definition head_blocks :: "byte list \<Rightarrow> uint list" where
  "head_blocks x = rd32s x 4 (nat (head_n x))"

lemma head_put_head:
  assumes "length x = BSIZE" "0 \<le> lh_n h" "lh_n h \<le> int LOGSIZE" "length (lh_block h) = LOGSIZE"
  shows "head_n (put_head h x) = lh_n h" "head_blocks (put_head h x) = take (nat (lh_n h)) (lh_block h)"
proof -
  have "sint (word_of_int (lh_n h) :: uint) = lh_n h"
    using assms(2,3) by (simp add: int_word_sint mod_pos_pos_trivial LOGSIZE_def MAXOPBLOCKS_def)
  then show n: "head_n (put_head h x) = lh_n h"
    using assms(1) by (simp add: head_n_def put_head_def rd32_other BSIZE_def)
  show "head_blocks (put_head h x) = take (nat (lh_n h)) (lh_block h)"
    unfolding head_blocks_def n using assms by (simp add: put_head_def LOGSIZE_def MAXOPBLOCKS_def BSIZE_def)
qed

text \<open>The loop of read_head copies the block numbers one by one.\<close>

lemma read_blocks_run:
  assumes "n \<le> LOGSIZE" "length (lh_block (l_lh (lg s))) = LOGSIZE" "x = b_data (bufat s b)"
  shows "\<exists>bl. kfor (read_head_entry b) [0..<n] s =
      Ok () (s\<lparr>lg := (lg s)\<lparr>l_lh := (l_lh (lg s))\<lparr>lh_block := bl\<rparr>\<rparr>\<rparr>) \<and> length bl = LOGSIZE \<and> take n bl = rd32s x 4 n"
proof -
  let ?I = "\<lambda>us t. \<exists>bl. t = s\<lparr>lg := (lg s)\<lparr>l_lh := (l_lh (lg s))\<lparr>lh_block := bl\<rparr>\<rparr>\<rparr> \<and> length bl = LOGSIZE \<and>
    (\<forall>i\<in>set us. bl ! i = rd32 x (4 + 4 * i))"
  have "\<exists>t. kfor (read_head_entry b) [0..<n] s =
      Ok () t \<and> ?I [0..<n] t"
  proof (rule kfor_rule [of ?I])
    show "?I [] s" using assms(2) by (intro exI [of _ "lh_block (l_lh (lg s))"]) simp
  next
    fix us i ws t
    assume u: "[0..<n] = us @ i # ws" and "?I us t"
    then obtain bl where bl: "t = s\<lparr>lg := (lg s)\<lparr>l_lh := (l_lh (lg s))\<lparr>lh_block := bl\<rparr>\<rparr>\<rparr>" "length bl = LOGSIZE"
      "\<forall>i\<in>set us. bl ! i = rd32 x (4 + 4 * i)" by blast
    have "i < LOGSIZE" using upt_split [OF u] assms(1) by simp
    then show "\<exists>t'. read_head_entry b i t = Ok () t' \<and> ?I (us @ [i]) t'"
      using bl assms(3) by (auto simp: read_head_entry_def kstep nth_list_update intro!: exI [of _ "bl[i := rd32 x (4 + 4 * i)]"])
  qed
  then obtain bl where "length bl = LOGSIZE" "\<forall>i\<in>set [0..<n]. bl ! i = rd32 x (4 + 4 * i)" and r: "kfor (read_head_entry b) [0..<n] s =
      Ok () (s\<lparr>lg := (lg s)\<lparr>l_lh := (l_lh (lg s))\<lparr>lh_block := bl\<rparr>\<rparr>\<rparr>)" by blast
  then have "length bl = LOGSIZE" "take n bl = rd32s x 4 n" using assms(1) by (auto intro!: nth_equalityI)
  then show ?thesis using r by blast
qed

lemma read_head_run:
  assumes "calm s" "l_start (lg s) \<notin> v_pin (view s)" "x = v_cache (view s) (l_start (lg s))" "head_n x \<le> int LOGSIZE"
  shows "\<exists>s' bl. read_head s = Ok () s' \<and> calm s' \<and> view s' = view s \<and> length bl = LOGSIZE \<and>
    lg s' = (lg s)\<lparr>l_lh := \<lparr>lh_n = head_n x, lh_block = bl\<rparr>\<rparr> \<and> take (nat (head_n x)) bl = head_blocks x"
proof -
  note c = calmD [OF assms(1)] and st = log_start [OF calmD(3) [OF assms(1)]]
  obtain b s1 where s1: "bread 1 (l_start (lg s)) s = Ok b s1" "bc s1" "bcst.more s1 = bcst.more s"
    "view s1 = (view s)\<lparr>v_held := [b \<mapsto> l_start (lg s)]\<rparr>" "b_data (bufat s1 b) = x"
    using bs.peek [OF c(1,2) st c(4)] assms(3) by blast
  have l1: "lg s1 = lg s" using lgst_more_fields [OF s1(3)] .
  let ?s2 = "s1\<lparr>lg := (lg s1)\<lparr>l_lh := (l_lh (lg s1))\<lparr>lh_n := head_n x\<rparr>\<rparr>\<rparr>"
  have "nat (head_n x) \<le> LOGSIZE" "length (lh_block (l_lh (lg ?s2))) = LOGSIZE" "x = b_data (bufat ?s2 b)"
    using assms(4) c(3) l1 s1(5) by (simp_all add: log_at_def)
  note rb = read_blocks_run [OF this]
  then obtain bl where bl: "length bl = LOGSIZE" "take (nat (head_n x)) bl = rd32s x 4 (nat (head_n x))"
    and r3: "kfor (read_head_entry b) [0..<nat (head_n x)] ?s2 =
      Ok () (?s2\<lparr>lg := (lg ?s2)\<lparr>l_lh := (l_lh (lg ?s2))\<lparr>lh_block := bl\<rparr>\<rparr>\<rparr>)" by blast
  let ?s3 = "?s2\<lparr>lg := (lg ?s2)\<lparr>l_lh := (l_lh (lg ?s2))\<lparr>lh_block := bl\<rparr>\<rparr>\<rparr>"
  have "v_cache (view s) (l_start (lg s)) = v_disk (view s) (l_start (lg s))" by (rule bs.clean [OF c(1) assms(2)]) (use c(2) in simp)
  then obtain s4 where s4: "brelse b ?s3 = Ok () s4" "bc s4" "bcst.more s4 = bcst.more ?s3" "view s4 = view s"
    using bs.unpeek [of ?s3 b "l_start (lg s)" "view s"] s1(2,4) c(2) by auto
  have l4: "lg s4 = (lg s)\<lparr>l_lh := \<lparr>lh_n = head_n x, lh_block = bl\<rparr>\<rparr>" using lgst_more_fields [OF s4(3)] l1 by simp
  have "read_head s = Ok () s4"
    using s1(1,5) c(5) r3 s4(1) by (simp add: read_head_def kstep head_n_def)
  moreover have "calm s4" using s4 l4 c bl(1) by (simp add: calm_def log_at_def)
  ultimately show ?thesis using s4(4) l4 bl by (auto simp: head_blocks_def)
qed

subsection \<open>Commit and recovery on the view\<close>

text \<open>The disk writes of a commit, in order: the log, the header, the home blocks, the empty header.\<close>

definition log_writes :: "log \<Rightarrow> bview \<Rightarrow> (uint \<times> byte list) list" where
  "log_writes l v = map (\<lambda>i. (logblk l i, v_cache v (home l i))) [0..<ntx l]"

definition home_writes :: "log \<Rightarrow> bview \<Rightarrow> (uint \<times> byte list) list" where
  "home_writes l v = map (\<lambda>i. (home l i, v_cache v (home l i))) [0..<ntx l]"

definition full_head :: "log \<Rightarrow> bview \<Rightarrow> byte list" where
  "full_head l v = put_head (l_lh l) (v_cache v (l_start l))"

definition empty_head :: "log \<Rightarrow> byte list \<Rightarrow> byte list" where
  "empty_head l x = put_head ((l_lh l)\<lparr>lh_n := 0\<rparr>) x"

definition commit_writes :: "log \<Rightarrow> bview \<Rightarrow> (uint \<times> byte list) list" where
  "commit_writes l v = log_writes l v @ [(l_start l, full_head l v)] @ home_writes l v @ [(l_start l, empty_head l (full_head l v))]"

text \<open>
  A transaction ready to commit: the logged blocks are distinct, pinned, and outside the log; the
  header on disk is empty.
\<close>

definition tx_ready :: "'z lgst_scheme \<Rightarrow> bool" where
  "tx_ready s \<longleftrightarrow> calm s \<and> 0 \<le> lh_n (l_lh (lg s)) \<and> homes_ok (lg s) (view s) \<and> inj_on (home (lg s)) {..<ntx (lg s)} \<and>
     v_pin (view s) = home (lg s) ` {..<ntx (lg s)} \<and> head_n (v_disk (view s) (l_start (lg s))) = 0"

lemma tx_readyD:
  assumes "tx_ready s"
  shows "calm s" "0 \<le> lh_n (l_lh (lg s))" "homes_ok (lg s) (view s)" "inj_on (home (lg s)) {..<ntx (lg s)}"
    "v_pin (view s) = home (lg s) ` {..<ntx (lg s)}" "head_n (v_disk (view s) (l_start (lg s))) = 0"
    "i < LOGSIZE \<Longrightarrow> logblk (lg s) i \<notin> v_pin (view s)" "l_start (lg s) \<notin> v_pin (view s)"
    "i < ntx (lg s) \<Longrightarrow> home (lg s) i \<in> v_pin (view s)" "i < ntx (lg s) \<Longrightarrow> home (lg s) i \<noteq> l_start (lg s)"
    "i < ntx (lg s) \<Longrightarrow> j < LOGSIZE \<Longrightarrow> home (lg s) i \<noteq> logblk (lg s) j" "ntx (lg s) \<le> LOGSIZE"
proof -
  show c: "calm s" "0 \<le> lh_n (l_lh (lg s))" and h: "homes_ok (lg s) (view s)" and "inj_on (home (lg s)) {..<ntx (lg s)}"
    and p: "v_pin (view s) = home (lg s) ` {..<ntx (lg s)}" and "head_n (v_disk (view s) (l_start (lg s))) = 0"
    using assms unfolding tx_ready_def by blast+
  note lf = logblk_facts [OF calmD(3) [OF c(1)]]
  have s: "in_log (lg s) (l_start (lg s))" using lf(4) [of 0] by (simp add: LOGSIZE_def MAXOPBLOCKS_def)
  have q: "home (lg s) i \<noteq> k" if "i < ntx (lg s)" "in_log (lg s) k" for i k using h that by (auto simp: homes_ok_def)
  then have "k \<notin> v_pin (view s)" if "in_log (lg s) k" for k unfolding p using that by auto
  then show "i < LOGSIZE \<Longrightarrow> logblk (lg s) i \<notin> v_pin (view s)" "l_start (lg s) \<notin> v_pin (view s)" using lf(1) s by blast+
  show "i < ntx (lg s) \<Longrightarrow> home (lg s) i \<in> v_pin (view s)" unfolding p by blast
  show "i < ntx (lg s) \<Longrightarrow> home (lg s) i \<noteq> l_start (lg s)" "i < ntx (lg s) \<Longrightarrow> j < LOGSIZE \<Longrightarrow> home (lg s) i \<noteq> logblk (lg s) j"
    using q s lf(1) by blast+
  show "ntx (lg s) \<le> LOGSIZE" using h by (simp add: homes_ok_def)
qed

text \<open>After the log and the header have been written the transaction is on disk.\<close>

lemma log_phase:
  assumes "tx_ready s"
  shows "\<exists>s1 s2. write_log s = Ok () s1 \<and> write_head s1 = Ok () s2 \<and> calm s2 \<and> lg s2 = lg s \<and>
    view s2 = (view s)\<lparr>v_cache := (replay (log_writes (lg s) (view s)) (v_cache (view s)))(l_start (lg s) := full_head (lg s) (view s)),
      v_disk := (replay (log_writes (lg s) (view s)) (v_disk (view s)))(l_start (lg s) := full_head (lg s) (view s)),
      v_hist := v_hist (view s) @ log_writes (lg s) (view s) @ [(l_start (lg s), full_head (lg s) (view s))]\<rparr>"
proof -
  note d = tx_readyD [OF assms(1)] and l = logblk_facts [OF calmD(3) [OF tx_readyD(1) [OF assms(1)]]]
  let ?l = "lg s" and ?v = "view s" and ?n = "ntx (lg s)"
  obtain s1 where s1: "write_log s = Ok () s1" "calm s1" "bcst.more s1 = bcst.more s"
    "view s1 = fold (\<lambda>i. cpv (home ?l i) (logblk ?l i)) [0..<?n] ?v" using write_log_run [OF d(1,3) d(9) d(7)] by blast
  have l1: "lg s1 = ?l" using lgst_more_fields [OF s1(3)] .
  have p1: "v_pin ?v - logblk ?l ` set [0..<?n] = v_pin ?v" using d(7,12) by force
  have v1: "view s1 = ?v\<lparr>v_cache := replay (log_writes ?l ?v) (v_cache ?v), v_disk := replay (log_writes ?l ?v) (v_disk ?v),
      v_hist := v_hist ?v @ log_writes ?l ?v\<rparr>"
    unfolding s1(4) log_writes_def by (subst fold_cpv) (use d(11,12) p1 in auto)
  have st: "replay (log_writes ?l ?v) e (l_start ?l) = e (l_start ?l)" for e
    by (rule replay_other) (use l(2) d(12) in \<open>force simp: log_writes_def dest: sym\<close>)
  obtain s2 where s2: "write_head s1 = Ok () s2" "calm s2" "bcst.more s2 = bcst.more s1"
    "view s2 = wrv (l_start ?l) (put_head (l_lh ?l) (v_cache (view s1) (l_start ?l))) (view s1)"
    using write_head_run [OF s1(2)] l1 d(12) by metis
  have "lg s2 = ?l" using lgst_more_fields [OF s2(3)] l1 by simp
  moreover have "view s2 = ?v\<lparr>v_cache := (replay (log_writes ?l ?v) (v_cache ?v))(l_start ?l := full_head ?l ?v),
      v_disk := (replay (log_writes ?l ?v) (v_disk ?v))(l_start ?l := full_head ?l ?v),
      v_hist := v_hist ?v @ log_writes ?l ?v @ [(l_start ?l, full_head ?l ?v)]\<rparr>"
    unfolding s2(4) wrv_def using d(8) by (simp add: v1 st full_head_def)
  ultimately show ?thesis using s1(1) s2(1,2) by blast
qed

lemma replay_log:
  assumes "log_at l v" "ntx l \<le> LOGSIZE" "i < ntx l"
  shows "replay (log_writes l w) d (logblk l i) = v_cache w (home l i)"
  unfolding log_writes_def by (rule replay_map) (use logblk_inj [OF assms(1,2)] assms(3) in auto)

lemma commit_run:
  assumes "tx_ready s" "lh_n (l_lh (lg s)) > 0"
  shows "\<exists>s'. commit s = Ok () s' \<and> calm s' \<and> lg s' = (lg s)\<lparr>l_lh := (l_lh (lg s))\<lparr>lh_n := 0\<rparr>\<rparr> \<and>
    view s' = (view s)\<lparr>v_cache := replay (commit_writes (lg s) (view s)) (v_cache (view s)),
      v_disk := replay (commit_writes (lg s) (view s)) (v_disk (view s)), v_pin := {},
      v_hist := v_hist (view s) @ commit_writes (lg s) (view s)\<rparr>"
proof -
  note d = tx_readyD [OF assms(1)] and l = logblk_facts [OF calmD(3) [OF tx_readyD(1) [OF assms(1)]]]
  let ?l = "lg s" and ?v = "view s" and ?n = "ntx (lg s)" and ?f = "full_head (lg s) (view s)"
  obtain s1 s2 where s2: "write_log s = Ok () s1" "write_head s1 = Ok () s2" "calm s2" "lg s2 = ?l"
    and v2: "view s2 = ?v\<lparr>v_cache := (replay (log_writes ?l ?v) (v_cache ?v))(l_start ?l := ?f),
      v_disk := (replay (log_writes ?l ?v) (v_disk ?v))(l_start ?l := ?f), v_hist := v_hist ?v @ log_writes ?l ?v @ [(l_start ?l, ?f)]\<rparr>"
    using log_phase [OF assms(1)] by blast
  have p2: "v_pin (view s2) = v_pin ?v" "v_size (view s2) = v_size ?v" unfolding v2 by simp_all
  obtain s3 where s3: "install_trans s2 = Ok () s3" "calm s3" "bcst.more s3 = bcst.more s2"
    "view s3 = fold (\<lambda>i. cpv (logblk ?l i) (home ?l i)) [0..<?n] (view s2)"
    using install_run [OF s2(3)] d(3,4,7,9) unfolding s2(4) p2 homes_ok_def by blast
  have l3: "lg s3 = ?l" using lgst_more_fields [OF s3(3)] s2(4) by simp
  have w: "map (\<lambda>i. (home ?l i, v_cache (view s2) (logblk ?l i))) [0..<?n] = home_writes ?l ?v"
    using replay_log [OF calmD(3) [OF d(1)] d(12)] l(2) d(12) by (auto simp: home_writes_def v2)
  have "v_pin (view s2) - home ?l ` set [0..<?n] = {}" using d(5) p2 by auto
  then have v3: "view s3 = (view s2)\<lparr>v_cache := replay (home_writes ?l ?v) (v_cache (view s2)),
      v_disk := replay (home_writes ?l ?v) (v_disk (view s2)), v_pin := {}, v_hist := v_hist (view s2) @ home_writes ?l ?v\<rparr>"
    unfolding s3(4) by (subst fold_cpv) (use d(11,12) w in \<open>auto dest: sym\<close>)
  let ?s4 = "s3\<lparr>lg := ?l\<lparr>l_lh := (l_lh ?l)\<lparr>lh_n := 0\<rparr>\<rparr>\<rparr>"
  have c4: "calm ?s4" "ntx (lg ?s4) \<le> LOGSIZE" using s3(2) l3 by (simp_all add: calm_def log_at_def ntx_def)
  obtain s5 where s5: "write_head ?s4 = Ok () s5" "calm s5" "bcst.more s5 = bcst.more ?s4"
    "view s5 = wrv (l_start ?l) (put_head ((l_lh ?l)\<lparr>lh_n := 0\<rparr>) (v_cache (view s3) (l_start ?l))) (view s3)"
    using write_head_run [OF c4] by auto
  have "replay (home_writes ?l ?v) e (l_start ?l) = e (l_start ?l)" for e
    by (rule replay_other) (use d(10) in \<open>force simp: home_writes_def\<close>)
  then have "view s5 = ?v\<lparr>v_cache := replay (commit_writes ?l ?v) (v_cache ?v),
      v_disk := replay (commit_writes ?l ?v) (v_disk ?v), v_pin := {}, v_hist := v_hist ?v @ commit_writes ?l ?v\<rparr>"
    unfolding s5(4) wrv_def by (simp add: v3 v2 commit_writes_def empty_head_def)
  moreover have "commit s = Ok () s5" using s2(1,2) s3(1) s5(1) l3 assms(2) by (simp add: commit_def kstep)
  moreover have "lg s5 = ?l\<lparr>l_lh := (l_lh ?l)\<lparr>lh_n := 0\<rparr>\<rparr>" using lgst_more_fields [OF s5(3)] by simp
  ultimately show ?thesis using s5(2) by blast
qed

text \<open>What recovery makes of a disk, apart from the header block: the committed blocks are copied home.\<close>

definition recovered :: "log \<Rightarrow> (uint \<Rightarrow> byte list) \<Rightarrow> uint \<Rightarrow> byte list" where
  "recovered l d = (let bl = head_blocks (d (l_start l)) in replay (map (\<lambda>i. (bl ! i, d (logblk l i))) [0..<length bl]) d)"

definition head_ok :: "log \<Rightarrow> uint \<Rightarrow> byte list \<Rightarrow> bool" where
  "head_ok l sz x \<longleftrightarrow> head_n x \<le> int LOGSIZE \<and> (\<forall>b\<in>set (head_blocks x). b < sz \<and> \<not> in_log l b)"

lemma recover_run:
  assumes "calm s" "v_pin (view s) = {}" "head_ok (lg s) (v_size (view s)) (v_disk (view s) (l_start (lg s)))"
  shows "\<exists>s'. recover_from_log s = Ok () s' \<and> calm s' \<and> lh_n (l_lh (lg s')) = 0 \<and> l_start (lg s') = l_start (lg s) \<and>
    v_pin (view s') = {} \<and> head_n (v_disk (view s') (l_start (lg s))) = 0 \<and>
    (\<forall>k. k \<noteq> l_start (lg s) \<longrightarrow> v_disk (view s') k = recovered (lg s) (v_disk (view s)) k)"
proof -
  note c = calmD [OF assms(1)]
  let ?l = "lg s" and ?d = "v_disk (view s)" and ?x = "v_disk (view s) (l_start (lg s))"
  have cd: "v_cache (view s) = ?d"
    by (rule ext, rule bs.clean [OF c(1)]) (use c(2) assms(2) in simp_all)
  have hn: "head_n ?x \<le> int LOGSIZE" using assms(3) by (simp add: head_ok_def)
  then have hn': "length (head_blocks ?x) \<le> LOGSIZE" by (simp add: head_blocks_def)
  obtain s1 bl where s1: "read_head s = Ok () s1" "calm s1" "view s1 = view s" "length bl = LOGSIZE"
    "lg s1 = ?l\<lparr>l_lh := \<lparr>lh_n = head_n ?x, lh_block = bl\<rparr>\<rparr>" "take (nat (head_n ?x)) bl = head_blocks ?x"
    using read_head_run [OF assms(1) _ refl] assms(2) cd hn by auto
  have n1: "ntx (lg s1) = length (head_blocks ?x)" by (simp add: s1(5) ntx_def head_blocks_def)
  have h1: "home (lg s1) i = head_blocks ?x ! i" if "i < ntx (lg s1)" for i
    using that s1(4-6) by (metis home_def log.select_convs(6) log.surjective log.update_convs(6) logheader.select_convs(2) n1 length_take min_less_iff_conj nth_take)
  have b1: "logblk (lg s1) = logblk ?l" "in_log (lg s1) = in_log ?l" by (auto simp: s1(5) logblk_def in_log_def fun_eq_iff)
  have hm: "homes_ok (lg s1) (view s1)"
    unfolding homes_ok_def b1 s1(3) n1 using assms(3) h1 n1 hn' by (auto simp: head_ok_def)
  obtain s2 where s2: "install_trans s1 = Ok () s2" "calm s2" "bcst.more s2 = bcst.more s1"
    "view s2 = fold (\<lambda>i. cpv (logblk ?l i) (home (lg s1) i)) [0..<ntx (lg s1)] (view s)"
    using install_run [OF s1(2) hm] assms(2) by (auto simp: b1 s1(3))
  have src: "logblk ?l i \<noteq> home (lg s1) j" if "i < ntx (lg s1)" "j < ntx (lg s1)" for i j
    using hm logblk_facts(1) [OF c(3), of i] that unfolding homes_ok_def b1 by fastforce
  have w: "map (\<lambda>i. (home (lg s1) i, v_cache (view s) (logblk ?l i))) [0..<ntx (lg s1)] =
      map (\<lambda>i. (head_blocks ?x ! i, ?d (logblk ?l i))) [0..<length (head_blocks ?x)]"
    using h1 n1 cd by auto
  have "v_disk (view s2) = replay (map (\<lambda>i. (home (lg s1) i, v_cache (view s) (logblk ?l i))) [0..<ntx (lg s1)]) ?d"
    unfolding s2(4) by (subst fold_cpv) (use src in auto)
  then have d2: "v_disk (view s2) = recovered ?l ?d" unfolding w recovered_def Let_def .
  have p2: "v_pin (view s2) = {}" using assms(2) by (simp only: s2(4) fold_cpv_same) simp
  let ?s3 = "s2\<lparr>lg := (lg s2)\<lparr>l_lh := (l_lh (lg s2))\<lparr>lh_n := 0\<rparr>\<rparr>\<rparr>"
  have l2: "lg s2 = lg s1" using lgst_more_fields [OF s2(3)] .
  have c3: "calm ?s3" "ntx (lg ?s3) \<le> LOGSIZE" using s2(2) by (simp_all add: calm_def log_at_def ntx_def)
  let ?y = "put_head (l_lh (lg ?s3)) (v_cache (view s2) (l_start ?l))"
  obtain s4 where s4: "write_head ?s3 = Ok () s4" "calm s4" "bcst.more s4 = bcst.more ?s3" "view s4 = wrv (l_start ?l) ?y (view s2)"
    using write_head_run [OF c3] by (auto simp: l2 s1(5))
  have "length (v_cache (view s2) (l_start ?l)) = BSIZE"
    using bs.len [OF calmD(1) [OF s2(2)]] log_start [OF calmD(3) [OF s2(2)]] by (simp add: l2 s1(5))
  then have "head_n ?y = 0" using head_put_head(1) [of _ "l_lh (lg ?s3)"] s1(4,5) l2 by simp
  moreover have "recover_from_log s = Ok () s4" using s1(1) s2(1) s4(1) by (simp add: recover_from_log_def kstep)
  moreover have "lh_n (l_lh (lg s4)) = 0" "l_start (lg s4) = l_start ?l" using lgst_more_fields [OF s4(3)] l2 s1(5) by simp_all
  moreover have "v_pin (view s4) = {}" unfolding s4(4) using p2 by simp
  moreover have "v_disk (view s4) = (recovered ?l ?d)(l_start ?l := ?y)" unfolding s4(4) wrv_def using d2 by simp
  ultimately show ?thesis using s4(2) by auto
qed

subsection \<open>Logging a block\<close>

text \<open>The entry log_write makes: none if the block is already in the transaction.\<close>

definition logged :: "uint \<Rightarrow> log \<Rightarrow> log" where
  "logged n l = (if n \<in> home l ` {..<ntx l} then l
     else l\<lparr>l_lh := \<lparr>lh_n = lh_n (l_lh l) + 1, lh_block = (lh_block (l_lh l))[ntx l := n]\<rparr>\<rparr>)"

lemma lg_bufs: "s\<lparr>lg := l, bufs := x\<rparr> = s\<lparr>bufs := x, lg := l\<rparr>" for s :: "'z lgst_scheme"
  by (cases s) simp

lemma logheader_eq: "h\<lparr>lh_block := x, lh_n := y\<rparr> = \<lparr>lh_n = y, lh_block = x\<rparr>" for h :: logheader
  by (cases h) simp

lemma home_mem: "ntx l \<le> length (lh_block (l_lh l)) \<Longrightarrow> set (take (ntx l) (lh_block (l_lh l))) = home l ` {..<ntx l}"
  by (force simp: home_def in_set_conv_nth)

text \<open>The index the scan of log_write stops at, and the header after it.\<close>

lemma log_slot:
  assumes "0 \<le> lh_n (l_lh l)" "lh_n (l_lh l) < int LOGSIZE" "length (lh_block (l_lh l)) = LOGSIZE"
    "i = log_scan n (l_lh l)"
  shows "(if int i = lh_n (l_lh l) then l\<lparr>l_lh := \<lparr>lh_n = lh_n (l_lh l) + 1, lh_block = (lh_block (l_lh l))[i := n]\<rparr>\<rparr>
      else l\<lparr>l_lh := (l_lh l)\<lparr>lh_block := (lh_block (l_lh l))[i := n]\<rparr>\<rparr>) = logged n l"
proof (cases "find_slot (\<lambda>x. x = n) (take (nat (lh_n (l_lh l))) (lh_block (l_lh l)))")
  case None
  then have "n \<notin> home l ` {..<ntx l}" using home_mem [of l] assms(1-3) by (auto simp: find_slot_None ntx_def)
  then show ?thesis using None assms(1) by (simp add: assms(4) log_scan_def logged_def ntx_def)
next
  case (Some k)
  then have k: "k < ntx l" "lh_block (l_lh l) ! k = n" by (auto simp: find_slot_Some ntx_def)
  then have "n \<in> home l ` {..<ntx l}" by (auto simp: home_def)
  moreover have "(lh_block (l_lh l))[k := n] = lh_block (l_lh l)" using k(2) by (metis list_update_id)
  ultimately show ?thesis using Some k(1) by (simp add: assms(4) log_scan_def logged_def ntx_def)
qed

lemma log_write_run:
  assumes "bc s" "v_held (view s) b = Some n" "0 \<le> lh_n (l_lh (lg s))" "lh_n (l_lh (lg s)) < int LOGSIZE"
    "lh_n (l_lh (lg s)) < l_size (lg s) - 1" "1 \<le> l_outstanding (lg s)" "length (lh_block (l_lh (lg s))) = LOGSIZE"
  shows "\<exists>s'. log_write b s = Ok () s' \<and> bc s' \<and> view s' = (view s)\<lparr>v_pin := insert n (v_pin (view s))\<rparr> \<and> lg s' = logged n (lg s) \<and>
    lgst.more s' = lgst.more s"
proof -
  let ?t = "s\<lparr>bufs := upd_nth b (b_dirty_update (\<lambda>_. True)) (bufs s)\<rparr>"
  have n: "b_blockno (bufat s b) = n" using bs.dat [OF assms(1,2)] by simp
  have t: "bc ?t" "view ?t = (view s)\<lparr>v_pin := insert n (v_pin (view s))\<rparr>" using pin_view [OF assms(1,2)] by (auto simp: kstep)
  obtain i where i: "log_scan n (l_lh (lg s)) = i" by blast
  note ls = log_slot [OF assms(3,4,7) i [symmetric]]
  have "log_write b s = Ok () (s\<lparr>lg := logged n (lg s), bufs := upd_nth b (b_dirty_update (\<lambda>_. True)) (bufs s)\<rparr>)"
    unfolding ls [symmetric] using assms(4-6) bcD(4) [OF assms(1)] n i
    by (cases "int i = lh_n (l_lh (lg s))") (simp_all add: log_write_def kstep logheader_eq)
  then show ?thesis using t by (simp add: lg_bufs)
qed

text \<open>
  The invariant of an open transaction: the header lists distinct blocks outside the log, exactly the
  pinned ones, and the header on disk is empty.
\<close>

definition in_tx :: "'z lgst_scheme \<Rightarrow> bool" where
  "in_tx s \<longleftrightarrow> bc s \<and> log_at (lg s) (view s) \<and> 0 \<le> lh_n (l_lh (lg s)) \<and> homes_ok (lg s) (view s) \<and> inj_on (home (lg s)) {..<ntx (lg s)} \<and>
     v_pin (view s) = home (lg s) ` {..<ntx (lg s)} \<and> head_n (v_disk (view s) (l_start (lg s))) = 0"

lemma tx_ready_iff: "tx_ready s \<longleftrightarrow> in_tx s \<and> v_held (view s) = Map.empty \<and> ntx (lg s) < NBUF"
proof -
  have "card (home (lg s) ` {..<ntx (lg s)}) = ntx (lg s)" if "inj_on (home (lg s)) {..<ntx (lg s)}" using card_image [OF that] by simp
  then show ?thesis by (auto simp: tx_ready_def in_tx_def calm_def simp del: view_fields)
qed

lemma logged_facts:
  assumes "0 \<le> lh_n (l_lh l)" "lh_n (l_lh l) < int LOGSIZE" "length (lh_block (l_lh l)) = LOGSIZE"
  shows "home (logged n l) ` {..<ntx (logged n l)} = insert n (home l ` {..<ntx l})"
    "inj_on (home l) {..<ntx l} \<Longrightarrow> inj_on (home (logged n l)) {..<ntx (logged n l)}"
    "0 \<le> lh_n (l_lh (logged n l))" "l_start (logged n l) = l_start l" "l_dev (logged n l) = l_dev l" "l_size (logged n l) = l_size l"
    "l_outstanding (logged n l) = l_outstanding l" "length (lh_block (l_lh (logged n l))) = LOGSIZE"
    "ntx (logged n l) = (if n \<in> home l ` {..<ntx l} then ntx l else ntx l + 1)" "ntx (logged n l) \<le> LOGSIZE"
    "in_log (logged n l) = in_log l"
proof -
  have n: "ntx l < LOGSIZE" using assms(1,2) by (simp add: ntx_def nat_less_iff)
  show nt: "ntx (logged n l) = (if n \<in> home l ` {..<ntx l} then ntx l else ntx l + 1)"
    using assms(1) by (auto simp: logged_def ntx_def nat_add_distrib)
  have old: "home (logged n l) i = home l i" if "i < ntx l" for i using that by (auto simp: logged_def home_def)
  have new: "home (logged n l) (ntx l) = n" if "n \<notin> home l ` {..<ntx l}" using that n assms(3) by (simp add: logged_def home_def)
  show "home (logged n l) ` {..<ntx (logged n l)} = insert n (home l ` {..<ntx l})"
    unfolding nt using old new by (auto simp: lessThan_Suc image_iff)
  show "inj_on (home (logged n l)) {..<ntx (logged n l)}" if "inj_on (home l) {..<ntx l}"
    unfolding nt using old new that by (auto simp: lessThan_Suc inj_on_def image_iff)
  show "ntx (logged n l) \<le> LOGSIZE" unfolding nt using n by simp
  show "0 \<le> lh_n (l_lh (logged n l))" "l_start (logged n l) = l_start l" "l_dev (logged n l) = l_dev l" "l_size (logged n l) = l_size l"
    "l_outstanding (logged n l) = l_outstanding l" "length (lh_block (l_lh (logged n l))) = LOGSIZE" "in_log (logged n l) = in_log l"
    using assms by (auto simp: logged_def in_log_def fun_eq_iff)
qed

lemma homes_ok_range: "homes_ok l v \<longleftrightarrow> ntx l \<le> LOGSIZE \<and> (\<forall>k \<in> home l ` {..<ntx l}. k < v_size v \<and> \<not> in_log l k)"
  by (auto simp: homes_ok_def)

lemma log_write_tx:
  assumes "in_tx s" "v_held (view s) b = Some n" "\<not> in_log (lg s) n" "lh_n (l_lh (lg s)) < int LOGSIZE"
    "lh_n (l_lh (lg s)) < l_size (lg s) - 1" "1 \<le> l_outstanding (lg s)"
  shows "\<exists>s'. log_write b s = Ok () s' \<and> in_tx s' \<and> view s' = (view s)\<lparr>v_pin := insert n (v_pin (view s))\<rparr> \<and> lg s' = logged n (lg s) \<and>
    lgst.more s' = lgst.more s"
proof -
  have t: "bc s" "log_at (lg s) (view s)" "0 \<le> lh_n (l_lh (lg s))" "homes_ok (lg s) (view s)" "inj_on (home (lg s)) {..<ntx (lg s)}"
    "v_pin (view s) = home (lg s) ` {..<ntx (lg s)}" "head_n (v_disk (view s) (l_start (lg s))) = 0"
    using assms(1) unfolding in_tx_def by blast+
  have len: "length (lh_block (l_lh (lg s))) = LOGSIZE" using t(2) by (simp add: log_at_def)
  obtain s' where s': "log_write b s = Ok () s'" "bc s'" "view s' = (view s)\<lparr>v_pin := insert n (v_pin (view s))\<rparr>" "lg s' = logged n (lg s)"
    "lgst.more s' = lgst.more s" using log_write_run [OF t(1) assms(2) t(3) assms(4,5,6) len] by blast
  note f = logged_facts [OF t(3) assms(4) len, of n]
  have "n < v_size (view s)" using heldD(6) [OF t(1), of b n] assms(2) by simp
  then have "homes_ok (lg s') (view s')" using t(4) assms(3) unfolding homes_ok_range s'(3,4) f(1,11) using f(10) by auto
  moreover have "log_at (lg s') (view s')" using t(2) by (simp add: log_at_def s'(3,4) f)
  moreover have "v_pin (view s') = home (lg s') ` {..<ntx (lg s')}" unfolding s'(3,4) f(1) using t(6) by simp
  moreover have "head_n (v_disk (view s') (l_start (lg s'))) = 0" unfolding s'(3,4) f(4) using t(7) by simp
  ultimately have "in_tx s'" unfolding in_tx_def using s'(2,4) f(2,3) t(5) by simp
  then show ?thesis using s' by blast
qed

subsection \<open>Crashes during a commit\<close>

lemma fst_writes:
  "fst ` set (log_writes l v) = logblk l ` {..<ntx l}" "fst ` set (home_writes l v) = home l ` {..<ntx l}"
  by (auto simp: log_writes_def home_writes_def image_image)

lemma not_in_log:
  assumes "tx_ready s" "\<not> in_log (lg s) k"
  shows "k \<noteq> l_start (lg s)" "k \<notin> logblk (lg s) ` {..<ntx (lg s)}"
proof -
  note d = tx_readyD [OF assms(1)]
  note l = logblk_facts [OF calmD(3) [OF d(1)]]
  have "0 < LOGSIZE" by (simp add: LOGSIZE_def MAXOPBLOCKS_def)
  then show "k \<noteq> l_start (lg s)" using l(4) assms(2) by blast
  show "k \<notin> logblk (lg s) ` {..<ntx (lg s)}" using l(1) d(12) assms(2) by auto
qed

text \<open>Once every home block is written the disk shows the transaction.\<close>

lemma replay_homes:
  assumes "tx_ready s" "k \<in> home (lg s) ` {..<ntx (lg s)} \<or> e k = v_disk (view s) k"
  shows "replay (home_writes (lg s) (view s)) e k = v_cache (view s) k"
proof (cases "k \<in> home (lg s) ` {..<ntx (lg s)}")
  case True
  then obtain i where i: "i \<in> set [0..<ntx (lg s)]" "k = home (lg s) i" by auto
  have inj: "inj_on (home (lg s)) (set [0..<ntx (lg s)])" using tx_readyD(4) [OF assms(1)] by (simp add: atLeast0LessThan)
  show ?thesis unfolding home_writes_def i(2) by (rule replay_map [OF inj i(1)])
next
  case False
  note d = tx_readyD [OF assms(1)]
  have "v_cache (view s) k = v_disk (view s) k"
    by (rule bs.clean [OF calmD(1) [OF d(1)]]) (use False d(5) calmD(2) [OF d(1)] in simp_all)
  then show ?thesis using False assms(2) replay_other [of k "home_writes (lg s) (view s)"] fst_writes by auto
qed

lemma recovered_empty: "head_n (d (l_start l)) = 0 \<Longrightarrow> recovered l d = d \<and> head_ok l sz (d (l_start l))"
  by (simp add: recovered_def head_ok_def head_blocks_def rd32s_def)

lemma full_head_facts:
  assumes "tx_ready s"
  shows "head_n (full_head (lg s) (view s)) = int (ntx (lg s))"
    "head_blocks (full_head (lg s) (view s)) = map (home (lg s)) [0..<ntx (lg s)]"
    "head_n (empty_head (lg s) (full_head (lg s) (view s))) = 0"
proof -
  note d = tx_readyD [OF assms] note c = calmD [OF d(1)]
  have len: "length (v_cache (view s) (l_start (lg s))) = BSIZE" by (rule bs.len [OF c(1) log_start [OF c(3)]])
  have n: "int (ntx (lg s)) = lh_n (l_lh (lg s))" "lh_n (l_lh (lg s)) \<le> int LOGSIZE" "length (lh_block (l_lh (lg s))) = LOGSIZE"
    using d(2,12) c(3) by (auto simp: ntx_def log_at_def)
  note h = head_put_head [OF len d(2) n(2,3)]
  show "head_n (full_head (lg s) (view s)) = int (ntx (lg s))" using h(1) n(1) by (simp add: full_head_def)
  have "take (ntx (lg s)) (lh_block (l_lh (lg s))) = map (home (lg s)) [0..<ntx (lg s)]"
    using d(12) n(3) by (intro nth_equalityI) (auto simp: home_def)
  then show "head_blocks (full_head (lg s) (view s)) = map (home (lg s)) [0..<ntx (lg s)]" using h(2) by (simp add: full_head_def ntx_def)
  show "head_n (empty_head (lg s) (full_head (lg s) (view s))) = 0"
    unfolding empty_head_def by (subst head_put_head(1)) (use len n in \<open>simp_all add: full_head_def\<close>)
qed

text \<open>A crash while the log is being written: the header is still empty.\<close>

lemma crash_logging:
  assumes "tx_ready s" "d = replay (take j (log_writes (lg s) (view s))) (v_disk (view s))"
  shows "head_ok (lg s) sz (d (l_start (lg s)))" "\<not> in_log (lg s) k \<Longrightarrow> recovered (lg s) d k = v_disk (view s) k"
proof -
  note t = tx_readyD [OF assms(1)]
  have o: "d k = v_disk (view s) k" if "k \<notin> logblk (lg s) ` {..<ntx (lg s)}" for k
    unfolding assms(2) by (rule replay_take_other) (use that fst_writes(1) [of "lg s" "view s"] in simp)
  have "l_start (lg s) \<notin> logblk (lg s) ` {..<ntx (lg s)}"
    using logblk_facts(2) [OF calmD(3) [OF t(1)]] t(12) by (metis imageE lessThan_iff less_le_trans)
  then have "head_n (d (l_start (lg s))) = 0" using o t(6) by simp
  note r = recovered_empty [of d "lg s", OF this]
  show "head_ok (lg s) sz (d (l_start (lg s)))" using r by blast
  show "\<not> in_log (lg s) k \<Longrightarrow> recovered (lg s) d k = v_disk (view s) k" using r o not_in_log(2) [OF assms(1)] by simp
qed

text \<open>A crash after the header has been written: recovery copies every block of the log home.\<close>

lemma crash_installing:
  assumes "tx_ready s" "d = replay (take m (home_writes (lg s) (view s)))
      ((replay (log_writes (lg s) (view s)) (v_disk (view s)))(l_start (lg s) := full_head (lg s) (view s)))"
  shows "head_ok (lg s) (v_size (view s)) (d (l_start (lg s)))" "\<not> in_log (lg s) k \<Longrightarrow> recovered (lg s) d k = v_cache (view s) k"
proof -
  note t = tx_readyD [OF assms(1)] and f = full_head_facts [OF assms(1)]
  let ?n = "ntx (lg s)"
  have o: "d k = ((replay (log_writes (lg s) (view s)) (v_disk (view s)))(l_start (lg s) := full_head (lg s) (view s))) k"
    if "k \<notin> home (lg s) ` {..<?n}" for k
    unfolding assms(2) by (rule replay_take_other) (use that fst_writes(2) [of "lg s" "view s"] in simp)
  have st: "d (l_start (lg s)) = full_head (lg s) (view s)" using o [of "l_start (lg s)"] t(10) by force
  show "head_ok (lg s) (v_size (view s)) (d (l_start (lg s)))"
    unfolding st head_ok_def f(1,2) using t(3) by (auto simp: homes_ok_def)
  have lb: "d (logblk (lg s) i) = v_cache (view s) (home (lg s) i)" if "i < ?n" for i
  proof -
    have "i < LOGSIZE" using that t(12) by simp
    moreover from this have "logblk (lg s) i \<notin> home (lg s) ` {..<?n}" using t(11) by (metis imageE lessThan_iff)
    ultimately show ?thesis
      using o [of "logblk (lg s) i"] logblk_facts(2) [OF calmD(3) [OF t(1)], of i] replay_log [OF calmD(3) [OF t(1)] t(12) that] by simp
  qed
  have "map (\<lambda>i. (map (home (lg s)) [0..<?n] ! i, d (logblk (lg s) i))) [0..<?n] = home_writes (lg s) (view s)"
    using lb by (auto simp: home_writes_def)
  then have "recovered (lg s) d = replay (home_writes (lg s) (view s)) d" unfolding recovered_def Let_def st f(2) by simp
  moreover assume k: "\<not> in_log (lg s) k"
  have "k \<in> home (lg s) ` {..<?n} \<or> d k = v_disk (view s) k"
    using o [of k] not_in_log [OF assms(1) k] replay_other [of k "log_writes (lg s) (view s)"] fst_writes(1) by auto
  ultimately show "recovered (lg s) d k = v_cache (view s) k" using replay_homes [OF assms(1)] by simp
qed

lemma crash_prefix:
  fixes s :: "'z lgst_scheme"
  assumes "tx_ready s" "d = replay (take j (commit_writes (lg s) (view s))) (v_disk (view s))"
  shows "head_ok (lg s) (v_size (view s)) (d (l_start (lg s)))"
    "(\<forall>k. \<not> in_log (lg s) k \<longrightarrow> recovered (lg s) d k = v_disk (view s) k) \<or>
     (\<forall>k. \<not> in_log (lg s) k \<longrightarrow> recovered (lg s) d k = v_cache (view s) k)"
proof -
  let ?l = "lg s" and ?v = "view s" and ?n = "ntx (lg s)"
  have len: "length (log_writes ?l ?v) = ?n" "length (home_writes ?l ?v) = ?n" by (simp_all add: log_writes_def home_writes_def)
  consider (log) "j \<le> ?n" | (inst) "?n < j" "j \<le> ?n + ?n + 1" | (fin) "?n + ?n + 2 \<le> j" by linarith
  then have "head_ok ?l (v_size ?v) (d (l_start ?l)) \<and> ((\<forall>k. \<not> in_log ?l k \<longrightarrow> recovered ?l d k = v_disk ?v k) \<or>
     (\<forall>k. \<not> in_log ?l k \<longrightarrow> recovered ?l d k = v_cache ?v k))"
  proof cases
    case log
    then have "d = replay (take j (log_writes ?l ?v)) (v_disk ?v)" using assms(2) len by (simp add: commit_writes_def)
    then show ?thesis using crash_logging [OF assms(1)] by blast
  next
    case inst
    define m where "m = j - ?n - 1"
    have "j = ?n + 1 + m" "m \<le> ?n" using inst by (simp_all add: m_def)
    then have "d = replay (take m (home_writes ?l ?v)) ((replay (log_writes ?l ?v) (v_disk ?v))(l_start ?l := full_head ?l ?v))"
      using assms(2) len by (simp add: commit_writes_def)
    then show ?thesis using crash_installing [OF assms(1)] by blast
  next
    case fin
    let ?e = "replay (home_writes ?l ?v) ((replay (log_writes ?l ?v) (v_disk ?v))(l_start ?l := full_head ?l ?v))"
    have d: "d = ?e(l_start ?l := empty_head ?l (full_head ?l ?v))" using assms(2) len fin by (simp add: commit_writes_def)
    then have "head_n (d (l_start ?l)) = 0" using full_head_facts(3) [OF assms(1)] by simp
    note r = recovered_empty [of d ?l, OF this]
    have "d k = v_cache ?v k" if "\<not> in_log ?l k" for k
    proof -
      note n = not_in_log [OF assms(1) that]
      have "replay (log_writes ?l ?v) (v_disk ?v) k = v_disk ?v k" by (rule replay_other) (use n fst_writes(1) in simp)
      then have "?e k = v_cache ?v k" using n by (intro replay_homes [OF assms(1)]) simp
      then show ?thesis using d n by simp
    qed
    then show ?thesis using r by simp
  qed
  then show "head_ok ?l (v_size ?v) (d (l_start ?l))" "(\<forall>k. \<not> in_log ?l k \<longrightarrow> recovered ?l d k = v_disk ?v k) \<or>
     (\<forall>k. \<not> in_log ?l k \<longrightarrow> recovered ?l d k = v_cache ?v k)" by blast+
qed

text \<open>
  C17: a commit is atomic. It writes the transaction's blocks to disk and leaves the cache clean; and
  if the machine stops after any prefix of its disk writes and boots again on that disk, recovery
  succeeds and every block outside the log is as before the transaction, or every block outside the log
  is as the transaction left it.
\<close>

theorem commit_is_crash_atomic:
  fixes s :: "'z lgst_scheme"
  assumes "tx_ready s" "lh_n (l_lh (lg s)) > 0"
  shows "\<exists>s' ws. commit s = Ok () s' \<and> bc s' \<and> lh_n (l_lh (lg s')) = 0 \<and> v_pin (view s') = {} \<and>
    (\<forall>k. \<not> in_log (lg s) k \<longrightarrow> v_disk (view s') k = v_cache (view s) k) \<and>
    v_hist (view s') = v_hist (view s) @ ws \<and> v_disk (view s') = replay ws (v_disk (view s)) \<and>
    (\<forall>j. \<forall>b :: 'z lgst_scheme. bc b \<and> v_pin (view b) = {} \<and> v_held (view b) = Map.empty \<and> log_at (lg b) (view b) \<and>
        l_start (lg b) = l_start (lg s) \<and> v_size (view b) = v_size (view s) \<and> v_disk (view b) = replay (take j ws) (v_disk (view s)) \<longrightarrow>
      (\<exists>r. recover_from_log b = Ok () r \<and>
        ((\<forall>k. \<not> in_log (lg s) k \<longrightarrow> v_disk (view r) k = v_disk (view s) k) \<or>
         (\<forall>k. \<not> in_log (lg s) k \<longrightarrow> v_disk (view r) k = v_cache (view s) k))))"
proof -
  let ?l = "lg s" and ?v = "view s" and ?ws = "commit_writes (lg s) (view s)"
  obtain s' where s': "commit s = Ok () s'" "calm s'" "lg s' = ?l\<lparr>l_lh := (l_lh ?l)\<lparr>lh_n := 0\<rparr>\<rparr>"
    "view s' = ?v\<lparr>v_cache := replay ?ws (v_cache ?v), v_disk := replay ?ws (v_disk ?v), v_pin := {}, v_hist := v_hist ?v @ ?ws\<rparr>"
    using commit_run [OF assms] by blast
  have v: "v_pin (view s') = {}" "v_hist (view s') = v_hist ?v @ ?ws" "v_disk (view s') = replay ?ws (v_disk ?v)" by (simp_all only: s'(4)) simp_all
  have new: "v_disk (view s') k = v_cache ?v k" if "\<not> in_log ?l k" for k
  proof -
    note n = not_in_log [OF assms(1) that]
    have "replay (log_writes ?l ?v) (v_disk ?v) k = v_disk ?v k" by (rule replay_other) (use n fst_writes(1) in simp)
    then have "replay (home_writes ?l ?v) ((replay (log_writes ?l ?v) (v_disk ?v))(l_start ?l := full_head ?l ?v)) k = v_cache ?v k"
      using n by (intro replay_homes [OF assms(1)]) simp
    then show ?thesis using n v(3) by (simp add: commit_writes_def)
  qed
  have "\<exists>r. recover_from_log b = Ok () r \<and>
        ((\<forall>k. \<not> in_log (lg s) k \<longrightarrow> v_disk (view r) k = v_disk (view s) k) \<or>
         (\<forall>k. \<not> in_log (lg s) k \<longrightarrow> v_disk (view r) k = v_cache (view s) k))"
    if b: "bc b" "v_pin (view b) = {}" "v_held (view b) = Map.empty" "log_at (lg b) (view b)" "l_start (lg b) = l_start ?l"
      "v_size (view b) = v_size ?v" "v_disk (view b) = replay (take j ?ws) (v_disk ?v)" for j and b :: "'z lgst_scheme"
  proof -
    note p = crash_prefix [OF assms(1) b(7)]
    have e: "in_log (lg b) = in_log ?l" "logblk (lg b) = logblk ?l" using b(5) by (auto simp: in_log_def logblk_def fun_eq_iff)
    have h: "head_ok (lg b) (v_size (view b)) (v_disk (view b) (l_start (lg b)))" using p(1) b(5,6) by (simp add: head_ok_def e)
    have "calm b" using b by (simp add: calm_def NBUF_def MAXOPBLOCKS_def)
    then obtain r where r: "recover_from_log b = Ok () r" "\<And>k. k \<noteq> l_start ?l \<Longrightarrow> v_disk (view r) k = recovered (lg b) (v_disk (view b)) k"
      using recover_run [OF _ b(2) h] b(5) by auto
    have "recovered (lg b) = recovered ?l" using b(5) by (simp add: recovered_def fun_eq_iff e(2))
    then show ?thesis using r p(2) not_in_log(1) [OF assms(1)] by auto
  qed
  then show ?thesis using s'(1,3) calmD(1) [OF s'(2)] v new by (intro exI [of _ s'] exI [of _ ?ws]) simp
qed

text \<open>A blank disk with its log at block 2, and one operation open.\<close>

definition boot_log :: log where
  "boot_log = \<lparr>l_start = 2, l_size = int LOGSIZE, l_outstanding = 1, l_committing = False, l_dev = 1,
     l_lh = \<lparr>lh_n = 0, lh_block = replicate LOGSIZE 0\<rparr>\<rparr>"

definition boot_lgst :: lgst where
  "boot_lgst = bcst.extend boot_bcst (lgst.fields boot_log)"

lemma boot_tx:
  "\<exists>s. binit boot_lgst = Ok () s \<and> in_tx s \<and> lg s = boot_log \<and> v_held (view s) = Map.empty \<and> v_size (view s) = 1000"
proof -
  have f: "table_ok boot_lgst" "held boot_lgst = {}" "bufs boot_lgst = replicate (NBUF + 1) zero_buf" "disksize boot_lgst = 1000"
    "lg boot_lgst = boot_log" "memdisk boot_lgst = (\<lambda>_. 0)"
    by (simp_all add: boot_lgst_def boot_bcst_def boot_slst_def boot_ptab_def ptab.defs slst.defs bcst.defs lgst.defs table_ok_def NPROC_def)
  then obtain s where s: "binit boot_lgst = Ok () s" "bc s" "v_pin (view s) = {}" "v_held (view s) = Map.empty"
    "memdisk s = memdisk boot_lgst" "disksize s = disksize boot_lgst" "bcst.more s = bcst.more boot_lgst"
    using binit_ok [of boot_lgst] by auto
  have l: "lg s = boot_log" using lgst_more_fields [OF s(7)] f(5) by simp
  have "v_disk (view s) 2 = replicate BSIZE 0"
    using s(5,6) f by (auto simp: view_def dblk_def get_bytes_def map_replicate_const)
  then have "head_n (v_disk (view s) 2) = 0" by (simp add: head_n_def rd32_def BSIZE_def)
  moreover have n: "ntx boot_log = 0" by (simp add: ntx_def boot_log_def)
  moreover have "log_at boot_log (view s)" using s(6) f(4) by (simp add: log_at_def boot_log_def LOGSIZE_def MAXOPBLOCKS_def)
  ultimately have "in_tx s" using s(2,3) by (simp add: in_tx_def l homes_ok_def boot_log_def)
  then show ?thesis using s(1,4,6) l f(4) by simp
qed

lemma boot_logged:
  "\<exists>s :: lgst. tx_ready s \<and> lh_n (l_lh (lg s)) = 1 \<and> lg s = logged 100 boot_log"
proof -
  obtain s0 :: lgst where s0: "in_tx s0" "lg s0 = boot_log" "v_held (view s0) = Map.empty" "v_size (view s0) = 1000" using boot_tx by blast
  have p0: "v_pin (view s0) = {}" "bc s0" using s0(1,2) by (simp_all add: in_tx_def ntx_def boot_log_def)
  obtain b and s1 :: lgst where s1: "bc s1" "bcst.more s1 = bcst.more s0" "view s1 = (view s0)\<lparr>v_held := [b \<mapsto> 100]\<rparr>"
    using bs.peek [OF p0(2) s0(3), of 100] s0(4) p0(1) by (auto simp: NBUF_def MAXOPBLOCKS_def)
  have l1: "lg s1 = boot_log" using lgst_more_fields [OF s1(2)] s0(2) by simp
  have "in_tx s1" using s0(1,2) s1(1) l1 unfolding in_tx_def s1(3) by (simp add: log_at_def homes_ok_def del: view_fields)
  moreover have "\<not> in_log (lg s1) 100" by (simp add: l1 in_log_def boot_log_def LOGSIZE_def MAXOPBLOCKS_def)
  moreover have "v_held (view s1) b = Some 100" unfolding s1(3) by simp
  ultimately obtain s2 :: lgst where s2: "in_tx s2" "view s2 = (view s1)\<lparr>v_pin := insert 100 (v_pin (view s1))\<rparr>" "lg s2 = logged 100 (lg s1)"
    using log_write_tx [of s1 b 100] l1 by (auto simp: boot_log_def LOGSIZE_def MAXOPBLOCKS_def)
  obtain s3 :: lgst where s3: "bc s3" "bcst.more s3 = bcst.more s2" "view s3 = (view s2)\<lparr>v_held := Map.empty\<rparr>"
    using bs.unpeek [of s2 b 100 "(view s2)\<lparr>v_held := Map.empty\<rparr>"] s2(1,2) s1(3) by (auto simp: in_tx_def)
  have l3: "lg s3 = logged 100 boot_log" using lgst_more_fields [OF s3(2)] s2(3) l1 by simp
  have "in_tx s3" using s2(1,3) s3(1) l1 l3 unfolding in_tx_def s3(3) by (simp add: log_at_def homes_ok_def del: view_fields)
  moreover have "lh_n (l_lh (lg s3)) = 1" by (simp add: l3 logged_def boot_log_def ntx_def)
  ultimately have "tx_ready s3" unfolding tx_ready_iff s3(3) by (simp add: ntx_def NBUF_def MAXOPBLOCKS_def)
  then show ?thesis using l3 \<open>lh_n (l_lh (lg s3)) = 1\<close> by blast
qed

theorem commit_is_crash_atomic_witness:
  "\<exists>s s' :: lgst. tx_ready s \<and> lh_n (l_lh (lg s)) = 1 \<and> commit s = Ok () s' \<and> v_disk (view s') 100 = v_cache (view s) 100"
proof -
  obtain s :: lgst where s: "tx_ready s" "lh_n (l_lh (lg s)) = 1" "lg s = logged 100 boot_log" using boot_logged by blast
  have "\<not> in_log (lg s) 100" unfolding s(3) by (simp add: in_log_def logged_def boot_log_def LOGSIZE_def MAXOPBLOCKS_def)
  then show ?thesis using commit_is_crash_atomic [OF s(1)] s(1,2) by auto
qed

subsection \<open>Log space\<close>

lemma keeps_lg_of: "keeps bcst.more m \<Longrightarrow> keeps lg m"
  by (erule keeps_weaken) (rule lgst_more_fields)

lemma keeps_log [frame]: "keeps bcst.more write_head" "keeps bcst.more write_log" "keeps bcst.more install_trans"
  unfolding write_head_def write_log_def install_trans_def log_block_def install_block_def undef_def
  by (intro frame keeps_state [of _ "kfor _"])+

lemma keeps_lg [frame]: "keeps lg write_head" "keeps lg write_log" "keeps lg install_trans" "keeps lg (acquire l)" "keeps lg (release l)"
    "keeps lg (wakeup c)" "keeps lg (sleep c lk)"
  by (rule keeps_lg_of, intro frame)+

definition emptied :: "log \<Rightarrow> log" where
  "emptied l = (if lh_n (l_lh l) > 0 then l\<lparr>l_lh := (l_lh l)\<lparr>lh_n := 0\<rparr>\<rparr> else l)"

lemma commit_lg:
  assumes "commit s = Ok () s'"
  shows "lg s' = emptied (lg s)"
  using assms by (auto simp: commit_def kwhen_def kif_def kseq_eq_Ok kstep emptied_def dest!: keepsD [OF keeps_lg(1)] keepsD [OF keeps_lg(2)] keepsD [OF keeps_lg(3)] split: if_splits)

lemma end_op_lg:
  assumes "end_op s = Ok () s'"
  shows "\<not> l_committing (lg s)" "lg s' = (let l = (lg s)\<lparr>l_outstanding := l_outstanding (lg s) - 1\<rparr> in if l_outstanding l = 0 then emptied l else l)"
  using assms
  by (auto simp: end_op_def kif_def kseq_eq_Ok kbind_eq_Ok kstep Let_def emptied_def dest!: commit_lg keepsD [OF keeps_lg(4)] keepsD [OF keeps_lg(5)] keepsD [OF keeps_lg(6)] split: if_splits)

lemma sleep_no_return: "sleep c lk s \<noteq> Ok u s'"
  by (auto simp: sleep_def kseq_eq_Ok sched_def kif_def split: if_splits)

lemma begin_op_loop_lg:
  assumes "begin_op_loop s = Ok () s'"
  shows "\<not> l_committing (lg s) \<and> lh_n (l_lh (lg s)) + (l_outstanding (lg s) + 1) * int MAXOPBLOCKS \<le> int LOGSIZE \<and>
    lg s' = (lg s)\<lparr>l_outstanding := l_outstanding (lg s) + 1\<rparr>"
  using assms by (auto simp: begin_op_loop_def kif_def sleep_no_return kseq_eq_Ok kstep dest!: keepsD [OF keeps_lg(5)] split: if_splits)

lemma begin_op_lg:
  assumes "begin_op s = Ok () s' \<or> begin_op_resume s = Ok () s'"
  shows "\<not> l_committing (lg s) \<and> lh_n (l_lh (lg s)) + (l_outstanding (lg s) + 1) * int MAXOPBLOCKS \<le> int LOGSIZE \<and>
    lg s' = (lg s)\<lparr>l_outstanding := l_outstanding (lg s) + 1\<rparr>"
proof -
  have "\<exists>t. begin_op_loop t = Ok () s' \<and> lg t = lg s"
    using assms keepsD [OF keeps_lg(4)] keepsD [OF keeps_lg_of [OF keeps_bcst_of [OF keeps_ptab_slst(2)]]]
    by (fastforce simp: begin_op_def begin_op_resume_def kseq_eq_Ok)
  then show ?thesis using begin_op_loop_lg by metis
qed

lemma log_write_lg:
  assumes "log_write b s = Ok () s'"
  shows "lh_n (l_lh (lg s')) \<le> lh_n (l_lh (lg s)) + 1" "lh_n (l_lh (lg s)) \<le> lh_n (l_lh (lg s'))"
    "l_outstanding (lg s') = l_outstanding (lg s)" "l_committing (lg s') = l_committing (lg s)" "l_size (lg s') = l_size (lg s)"
  using assms
  by (auto simp: log_write_def kif_def kwhen_def kseq_eq_Ok kbind_eq_Ok kstep acquire_def release_def split: if_splits)

text \<open>
  The operations of concurrent system calls on the log, with the number of blocks each open call may
  still log: \<open>MAXOPBLOCKS\<close> when begin_op admits it, one fewer for every log_write.
\<close>

inductive op_step :: "'z lgst_scheme \<times> (nat \<rightharpoonup> nat) \<Rightarrow> 'z lgst_scheme \<times> (nat \<rightharpoonup> nat) \<Rightarrow> bool" where
  op_begin: "ops i = None \<Longrightarrow> begin_op s = Ok () s' \<or> begin_op_resume s = Ok () s' \<Longrightarrow> op_step (s, ops) (s', ops(i \<mapsto> MAXOPBLOCKS))"
| op_write: "ops i = Some (Suc k) \<Longrightarrow> log_write b s = Ok () s' \<Longrightarrow> op_step (s, ops) (s', ops(i \<mapsto> k))"
| op_end: "ops i = Some k \<Longrightarrow> end_op s = Ok () s' \<Longrightarrow> op_step (s, ops) (s', ops(i := None))"
| op_other: "lg s' = lg s \<Longrightarrow> op_step (s, ops) (s', ops)"

definition budget :: "(nat \<rightharpoonup> nat) \<Rightarrow> nat" where
  "budget ops = (\<Sum>i\<in>dom ops. the (ops i))"

definition op_inv :: "'z lgst_scheme \<times> (nat \<rightharpoonup> nat) \<Rightarrow> bool" where
  "op_inv = (\<lambda>(s, ops). finite (dom ops) \<and> (\<forall>k\<in>ran ops. k \<le> MAXOPBLOCKS) \<and> l_outstanding (lg s) = int (card (dom ops)) \<and> 0 \<le> lh_n (l_lh (lg s)) \<and>
     lh_n (l_lh (lg s)) + int (budget ops) \<le> int LOGSIZE)"

lemma budget_upd:
  assumes "finite (dom ops)"
  shows "ops i = None \<Longrightarrow> budget (ops(i \<mapsto> k)) = budget ops + k" "ops i = Some m \<Longrightarrow> budget (ops(i \<mapsto> k)) + m = budget ops + k"
    "ops i = Some m \<Longrightarrow> budget (ops(i := None)) + m = budget ops"
proof -
  have off: "(\<Sum>j\<in>dom ops - {i}. the ((ops(i \<mapsto> k)) j)) = (\<Sum>j\<in>dom ops - {i}. the (ops j))" by (rule sum.cong) auto
  have off': "(\<Sum>j\<in>dom ops - {i}. the ((ops(i := None)) j)) = (\<Sum>j\<in>dom ops - {i}. the (ops j))" by (rule sum.cong) auto
  show "ops i = None \<Longrightarrow> budget (ops(i \<mapsto> k)) = budget ops + k"
    using off assms by (simp add: budget_def domIff)
  show "ops i = Some m \<Longrightarrow> budget (ops(i \<mapsto> k)) + m = budget ops + k"
    using off sum.remove [OF assms, of i "\<lambda>j. the (ops j)"] sum.remove [OF assms, of i "\<lambda>j. the ((ops(i \<mapsto> k)) j)"]
    by (simp add: budget_def insert_absorb domI)
  show "ops i = Some m \<Longrightarrow> budget (ops(i := None)) + m = budget ops"
    using off' sum.remove [OF assms, of i "\<lambda>j. the (ops j)"] by (simp add: budget_def domI)
qed

lemma budget_le: "finite (dom ops) \<Longrightarrow> \<forall>k\<in>ran ops. k \<le> MAXOPBLOCKS \<Longrightarrow> budget ops \<le> card (dom ops) * MAXOPBLOCKS"
  unfolding budget_def by (rule sum_bounded_above [where 'a = nat, simplified]) (auto simp: ran_def)

lemma op_step_inv:
  assumes "op_step x y" "op_inv x"
  shows "op_inv y"
  using assms
proof (induction rule: op_step.induct)
  case (op_begin ops i s s')
  have fin: "finite (dom ops)" "\<forall>k\<in>ran ops. k \<le> MAXOPBLOCKS" using op_begin(3) by (simp_all add: op_inv_def)
  have "int (budget ops) \<le> int (card (dom ops)) * int MAXOPBLOCKS" using budget_le [OF fin] by (simp flip: of_nat_mult)
  moreover have "\<forall>k\<in>ran (ops(i \<mapsto> MAXOPBLOCKS)). k \<le> MAXOPBLOCKS" using fin(2) op_begin(1) by simp
  moreover have "card (dom (ops(i \<mapsto> MAXOPBLOCKS))) = Suc (card (dom ops))" using fin(1) op_begin(1) by (simp add: domIff)
  ultimately show ?case
    using begin_op_lg [OF op_begin(2)] op_begin(3) budget_upd(1) [OF fin(1) op_begin(1), of MAXOPBLOCKS] fin(1)
    by (simp add: op_inv_def algebra_simps)
next
  case (op_write ops i k b s s')
  then have "\<forall>m\<in>ran ops. m \<le> MAXOPBLOCKS" "Suc k \<in> ran ops" by (auto simp: op_inv_def intro: ranI)
  then have "\<forall>m\<in>ran (ops(i \<mapsto> k)). m \<le> MAXOPBLOCKS" by (auto simp: ran_def split: if_splits)
  moreover have "card (dom (ops(i \<mapsto> k))) = card (dom ops)" using op_write(1) by (simp add: insert_absorb domI)
  ultimately show ?case using log_write_lg [OF op_write(2)] budget_upd(2) [of ops i "Suc k" k] op_write(1,3) by (simp add: op_inv_def)
next
  case (op_end ops i k s s')
  then have fin: "finite (dom ops)" "\<forall>m\<in>ran ops. m \<le> MAXOPBLOCKS" "i \<in> dom ops" by (auto simp: op_inv_def)
  then have "\<forall>m\<in>ran (ops(i := None)). m \<le> MAXOPBLOCKS" by (auto simp: ran_def split: if_splits)
  moreover have "int (card (dom (ops(i := None)))) = int (card (dom ops)) - 1"
    using fin(1,3) card_gt_0_iff [of "dom ops"] by (auto simp: card_Diff_singleton)
  ultimately show ?case using end_op_lg [OF op_end(2)] budget_upd(3) [OF fin(1) op_end(1)] op_end(3) fin(1)
    by (auto simp: op_inv_def Let_def emptied_def split: if_splits)
next
  case (op_other s' s ops)
  then show ?case by (simp add: op_inv_def)
qed

text \<open>
  C18: the reservation begin_op makes is enough. In every interleaving of begin_op, log_write and end_op
  by system calls that each log at most \<open>MAXOPBLOCKS\<close> blocks, the header never holds more than \<open>LOGSIZE\<close>
  blocks, the count of outstanding calls is right, and a call that may still log a block finds room for it
  in the header.
\<close>

theorem log_space_reserved:
  assumes "op_inv (s0, ops0)" "op_step\<^sup>*\<^sup>* (s0, ops0) (s, ops)"
  shows "0 \<le> lh_n (l_lh (lg s)) \<and> lh_n (l_lh (lg s)) \<le> int LOGSIZE \<and> l_outstanding (lg s) = int (card (dom ops)) \<and>
    (\<forall>i k. ops i = Some (Suc k) \<longrightarrow> lh_n (l_lh (lg s)) < int LOGSIZE \<and> 1 \<le> l_outstanding (lg s))"
proof -
  have "op_inv y" if "op_step\<^sup>*\<^sup>* (s0, ops0) y" for y
    using that by (induction rule: rtranclp_induct) (use assms(1) op_step_inv in blast)+
  then have inv: "op_inv (s, ops)" using assms(2) by blast
  moreover have "Suc k \<le> budget ops" if "ops i = Some (Suc k)" for i k
    using budget_upd(3) [of ops i "Suc k"] inv that by (auto simp: op_inv_def)
  moreover have "0 < card (dom ops)" if "ops i = Some (Suc k)" for i k
    using inv that by (auto simp: op_inv_def card_gt_0_iff)
  ultimately show ?thesis by (fastforce simp: op_inv_def)
qed

theorem log_space_reserved_witness:
  "\<exists>s ops. op_step\<^sup>*\<^sup>* (boot_lgst\<lparr>lg := boot_log\<lparr>l_outstanding := 0\<rparr>\<rparr>, Map.empty) (s, ops) \<and> ops 0 = Some MAXOPBLOCKS \<and>
    lh_n (l_lh (lg s)) < int LOGSIZE"
proof -
  let ?s = "boot_lgst\<lparr>lg := boot_log\<lparr>l_outstanding := 0\<rparr>\<rparr>"
  have inv: "op_inv (?s, Map.empty)" by (simp add: op_inv_def boot_log_def budget_def)
  have "held ?s = {}" by (simp add: boot_lgst_def boot_bcst_def boot_slst_def boot_ptab_def ptab.defs slst.defs bcst.defs lgst.defs)
  then have "\<exists>s'. begin_op ?s = Ok () s'"
    by (simp add: begin_op_def begin_op_loop_def kstep boot_log_def LOGSIZE_def MAXOPBLOCKS_def)
  then obtain s' where "begin_op ?s = Ok () s'" by blast
  then have r: "op_step\<^sup>*\<^sup>* (?s, Map.empty) (s', [0 \<mapsto> MAXOPBLOCKS])" by (intro r_into_rtranclp op_begin) simp_all
  moreover have "[0 \<mapsto> MAXOPBLOCKS] 0 = Some (Suc 9)" by (simp add: MAXOPBLOCKS_def)
  ultimately have "lh_n (l_lh (lg s')) < int LOGSIZE" using log_space_reserved [OF inv r] by blast
  then show ?thesis using r by (intro exI [of _ s'] exI [of _ "[0 \<mapsto> MAXOPBLOCKS]"]) simp
qed

text \<open>
  C19: log_write enters a block once. It pins the block in the cache, changes the contents of no block, adds
  the block to the transaction only if it is not there yet, and keeps the transaction well formed: the
  header lists distinct blocks outside the log, and exactly these are pinned.
\<close>

theorem log_write_absorbs:
  assumes "in_tx s" "v_held (view s) b = Some n" "\<not> in_log (lg s) n" "lh_n (l_lh (lg s)) < int LOGSIZE"
    "lh_n (l_lh (lg s)) < l_size (lg s) - 1" "1 \<le> l_outstanding (lg s)"
  shows "\<exists>s'. log_write b s = Ok () s' \<and> in_tx s' \<and> view s' = (view s)\<lparr>v_pin := insert n (v_pin (view s))\<rparr> \<and>
    take (ntx (lg s')) (lh_block (l_lh (lg s'))) =
      (if n \<in> set (take (ntx (lg s)) (lh_block (l_lh (lg s)))) then take (ntx (lg s)) (lh_block (l_lh (lg s)))
       else take (ntx (lg s)) (lh_block (l_lh (lg s))) @ [n])"
proof -
  obtain s' where s': "log_write b s = Ok () s'" "in_tx s'" "view s' = (view s)\<lparr>v_pin := insert n (v_pin (view s))\<rparr>" "lg s' = logged n (lg s)"
    using log_write_tx [OF assms] by blast
  have l: "length (lh_block (l_lh (lg s))) = LOGSIZE" "0 \<le> lh_n (l_lh (lg s))" using assms(1) by (simp_all add: in_tx_def log_at_def)
  have n: "ntx (lg s) < LOGSIZE" using assms(4) l(2) by (simp add: ntx_def nat_less_iff)
  note hm = home_mem [of "lg s"]
  have "take (ntx (lg s')) (lh_block (l_lh (lg s'))) =
      (if n \<in> set (take (ntx (lg s)) (lh_block (l_lh (lg s)))) then take (ntx (lg s)) (lh_block (l_lh (lg s)))
       else take (ntx (lg s)) (lh_block (l_lh (lg s))) @ [n])"
  proof (cases "n \<in> home (lg s) ` {..<ntx (lg s)}")
    case False
    have "ntx (logged n (lg s)) = Suc (ntx (lg s))" using logged_facts(9) [OF l(2) assms(4) l(1), of n] False by simp
    then show ?thesis using False hm n l(1) by (simp add: s'(4) logged_def take_Suc_conv_app_nth)
  qed (use hm n l(1) in \<open>simp add: s'(4) logged_def\<close>)
  then show ?thesis using s' by blast
qed

theorem log_write_absorbs_witness:
  "\<exists>(s :: lgst) s' b. log_write b s = Ok () s' \<and> take (ntx (lg s')) (lh_block (l_lh (lg s'))) = [100]"
proof -
  obtain s0 :: lgst where s0: "in_tx s0" "lg s0 = boot_log" "v_held (view s0) = Map.empty" "v_size (view s0) = 1000" using boot_tx by blast
  have p0: "v_pin (view s0) = {}" "bc s0" using s0(1,2) by (simp_all add: in_tx_def ntx_def boot_log_def)
  obtain b and s1 :: lgst where s1: "bc s1" "bcst.more s1 = bcst.more s0" "view s1 = (view s0)\<lparr>v_held := [b \<mapsto> 100]\<rparr>"
    using bs.peek [OF p0(2) s0(3), of 100] s0(4) p0(1) by (auto simp: NBUF_def MAXOPBLOCKS_def)
  have l1: "lg s1 = boot_log" using lgst_more_fields [OF s1(2)] s0(2) by simp
  have "in_tx s1" using s0(1,2) s1(1) l1 unfolding in_tx_def s1(3) by (simp add: log_at_def homes_ok_def del: view_fields)
  moreover have "\<not> in_log (lg s1) 100" by (simp add: l1 in_log_def boot_log_def LOGSIZE_def MAXOPBLOCKS_def)
  moreover have "v_held (view s1) b = Some 100" unfolding s1(3) by simp
  moreover have "ntx (lg s1) = 0" "lh_n (l_lh (lg s1)) = 0" "l_size (lg s1) = 30" "l_outstanding (lg s1) = 1"
    by (simp_all add: l1 ntx_def boot_log_def LOGSIZE_def MAXOPBLOCKS_def)
  ultimately show ?thesis using log_write_absorbs [of s1 b 100] by (auto simp: LOGSIZE_def MAXOPBLOCKS_def)
qed



end
