(* ===== verification/Tx.thy ===== *)
theory Tx
  imports Log
begin

text \<open>
  Blocks inside a transaction, as the file system uses them: every block is read with bread, changed only
  through log_write, and given back with brelse. The locale states the contract; its interpretation rests on
  the buffer cache (Bio) and the log (Log). The number \<open>t_left\<close> is how many more blocks the transaction can
  log; as long as it exceeds the number of buffers held there is a buffer for one more block.
\<close>

record txview =
  t_size :: uint
  t_cache :: "uint \<Rightarrow> byte list"
  t_held :: "nat \<rightharpoonup> uint"
  t_left :: nat
  t_log :: "uint set"

locale tx_store =
  fixes rd :: "uint \<Rightarrow> ('s, nat) kern"
    and lw rl :: "nat \<Rightarrow> ('s, unit) kern"
    and st :: "nat \<Rightarrow> byte list \<Rightarrow> ('s, unit) kern"
    and dat :: "'s \<Rightarrow> nat \<Rightarrow> byte list"
    and ok :: "'s \<Rightarrow> bool"
    and vw :: "'s \<Rightarrow> txview"
    and rest :: "'s \<Rightarrow> 'r"
  assumes rd: "ok s \<Longrightarrow> n < t_size (vw s) \<Longrightarrow> n \<notin> ran (t_held (vw s)) \<Longrightarrow> card (ran (t_held (vw s))) < t_left (vw s) \<Longrightarrow>
      \<exists>b s'. rd n s = Ok b s' \<and> ok s' \<and> t_held (vw s) b = None \<and> vw s' = (vw s)\<lparr>t_held := (t_held (vw s))(b \<mapsto> n)\<rparr> \<and> rest s' = rest s"
    and rl: "ok s \<Longrightarrow> t_held (vw s) b = Some n \<Longrightarrow>
      \<exists>s'. rl b s = Ok () s' \<and> ok s' \<and> vw s' = (vw s)\<lparr>t_held := (t_held (vw s))(b := None)\<rparr> \<and> rest s' = rest s"
    and put: "ok s \<Longrightarrow> t_held (vw s) b = Some n \<Longrightarrow> n \<notin> t_log (vw s) \<Longrightarrow> length xs = BSIZE \<Longrightarrow> 0 < t_left (vw s) \<Longrightarrow>
      \<exists>s' k. kseq (st b xs) (lw b) s = Ok () s' \<and> ok s' \<and> t_left (vw s) \<le> k + 1 \<and> k \<le> t_left (vw s) \<and>
        vw s' = (vw s)\<lparr>t_cache := (t_cache (vw s))(n := xs), t_left := k\<rparr> \<and> rest s' = rest s"
    and dat: "ok s \<Longrightarrow> t_held (vw s) b = Some n \<Longrightarrow> dat s b = t_cache (vw s) n"
    and len: "ok s \<Longrightarrow> n < t_size (vw s) \<Longrightarrow> length (t_cache (vw s) n) = BSIZE"
begin

text \<open>A block that is looked at and given back.\<close>

lemma look:
  assumes "ok s" "n < t_size (vw s)" "n \<notin> ran (t_held (vw s))" "card (ran (t_held (vw s))) < t_left (vw s)"
  shows "\<exists>b s1. rd n s = Ok b s1 \<and> ok s1 \<and> t_held (vw s) b = None \<and> vw s1 = (vw s)\<lparr>t_held := (t_held (vw s))(b \<mapsto> n)\<rparr> \<and> dat s1 b = t_cache (vw s) n \<and>
    rest s1 = rest s \<and> (\<exists>s2. rl b s1 = Ok () s2 \<and> ok s2 \<and> vw s2 = vw s \<and> rest s2 = rest s)"
proof -
  obtain b s1 where s1: "rd n s = Ok b s1" "ok s1" "t_held (vw s) b = None" "vw s1 = (vw s)\<lparr>t_held := (t_held (vw s))(b \<mapsto> n)\<rparr>" "rest s1 = rest s"
    using rd [OF assms] by blast
  have h: "t_held (vw s1) b = Some n" using s1(4) by simp
  obtain s2 where s2: "rl b s1 = Ok () s2" "ok s2" "vw s2 = (vw s1)\<lparr>t_held := (t_held (vw s1))(b := None)\<rparr>" "rest s2 = rest s1"
    using rl [OF s1(2) h] by blast
  have "(t_held (vw s))(b := None) = t_held (vw s)" using s1(3) by auto
  then have "vw s2 = vw s" using s2(3) s1(4) by simp
  then show ?thesis using s1 s2 dat [OF s1(2) h] by auto
qed

text \<open>A held block that is changed, logged and given back.\<close>

lemma put_back:
  assumes "ok s" "t_held (vw s) b = Some n" "n \<notin> t_log (vw s)" "length xs = BSIZE" "0 < t_left (vw s)"
  shows "\<exists>s' k. kseq (st b xs) (kseq (lw b) (rl b)) s = Ok () s' \<and> ok s' \<and> t_left (vw s) \<le> k + 1 \<and> k \<le> t_left (vw s) \<and>
    vw s' = (vw s)\<lparr>t_cache := (t_cache (vw s))(n := xs), t_left := k, t_held := (t_held (vw s))(b := None)\<rparr> \<and> rest s' = rest s"
proof -
  obtain s1 k where s1: "kseq (st b xs) (lw b) s = Ok () s1" "ok s1" "t_left (vw s) \<le> k + 1" "k \<le> t_left (vw s)"
    "vw s1 = (vw s)\<lparr>t_cache := (t_cache (vw s))(n := xs), t_left := k\<rparr>" "rest s1 = rest s" using put [OF assms] by blast
  obtain s2 where s2: "rl b s1 = Ok () s2" "ok s2" "vw s2 = (vw s1)\<lparr>t_held := (t_held (vw s1))(b := None)\<rparr>" "rest s2 = rest s1"
    using rl [OF s1(2), of b n] s1(5) assms(2) by auto
  have "kseq (st b xs) (kseq (lw b) (rl b)) s = Ok () s2" using s1(1) s2(1) by (auto simp: kseq_eq_Ok)
  then show ?thesis using s1 s2 by auto
qed

text \<open>Reading, changing and logging one block.\<close>

lemma change:
  assumes "ok s" "n < t_size (vw s)" "n \<notin> ran (t_held (vw s))" "card (ran (t_held (vw s))) < t_left (vw s)" "n \<notin> t_log (vw s)"
  shows "\<exists>b s1. rd n s = Ok b s1 \<and> ok s1 \<and> rest s1 = rest s \<and> dat s1 b = t_cache (vw s) n \<and>
    (\<forall>xs. length xs = BSIZE \<longrightarrow> (\<exists>s2 k. kseq (st b xs) (kseq (lw b) (rl b)) s1 = Ok () s2 \<and> ok s2 \<and> t_left (vw s) \<le> k + 1 \<and> k \<le> t_left (vw s) \<and>
      vw s2 = (vw s)\<lparr>t_cache := (t_cache (vw s))(n := xs), t_left := k\<rparr> \<and> rest s2 = rest s))"
proof -
  obtain b s1 where s1: "rd n s = Ok b s1" "ok s1" "t_held (vw s) b = None" "vw s1 = (vw s)\<lparr>t_held := (t_held (vw s))(b \<mapsto> n)\<rparr>" "rest s1 = rest s"
    using rd [OF assms(1-4)] by blast
  have h: "t_held (vw s1) b = Some n" "n \<notin> t_log (vw s1)" "0 < t_left (vw s1)" using s1(4) assms(4,5) by simp_all
  have e: "(t_held (vw s))(b := None) = t_held (vw s)" using s1(3) by auto
  have "\<exists>s2 k. kseq (st b xs) (kseq (lw b) (rl b)) s1 = Ok () s2 \<and> ok s2 \<and> t_left (vw s) \<le> k + 1 \<and> k \<le> t_left (vw s) \<and>
      vw s2 = (vw s)\<lparr>t_cache := (t_cache (vw s))(n := xs), t_left := k\<rparr> \<and> rest s2 = rest s" if xs: "length xs = BSIZE" for xs
  proof -
    obtain s2 k where s2: "kseq (st b xs) (kseq (lw b) (rl b)) s1 = Ok () s2" "ok s2" "t_left (vw s1) \<le> k + 1" "k \<le> t_left (vw s1)"
      "vw s2 = (vw s1)\<lparr>t_cache := (t_cache (vw s1))(n := xs), t_left := k, t_held := (t_held (vw s1))(b := None)\<rparr>" "rest s2 = rest s1"
      using put_back [OF s1(2) h(1,2) xs h(3)] by blast
    have "vw s2 = (vw s)\<lparr>t_cache := (t_cache (vw s))(n := xs), t_left := k\<rparr>" using s2(5) s1(4) e by simp
    then show ?thesis using s2 s1(4,5) by auto
  qed
  moreover have "dat s1 b = t_cache (vw s) n" using dat [OF s1(2) h(1)] s1(4) by simp
  ultimately show ?thesis using s1 by blast
qed

end

subsection \<open>The contract holds for bio.c and log.c\<close>

definition tx_lim :: "log \<Rightarrow> nat" where
  "tx_lim l = min LOGSIZE (nat (l_size l - 1))"

definition txv :: "'z lgst_scheme \<Rightarrow> txview" where
  "txv s = \<lparr>t_size = v_size (view s), t_cache = v_cache (view s), t_held = v_held (view s), t_left = tx_lim (lg s) - ntx (lg s),
     t_log = Collect (in_log (lg s))\<rparr>"

definition tx_ok :: "'z lgst_scheme \<Rightarrow> bool" where
  "tx_ok s \<longleftrightarrow> in_tx s \<and> 1 \<le> l_outstanding (lg s) \<and> (\<forall>n\<in>ran (v_held (view s)). v_cache (view s) n = v_disk (view s) n \<or> n \<in> v_pin (view s))"

lemma in_tx_view:
  assumes "in_tx s" "bc s'" "lg s' = lg s" "v_size (view s') = v_size (view s)" "v_pin (view s') = v_pin (view s)" "v_disk (view s') = v_disk (view s)"
  shows "in_tx s'"
  using assms unfolding in_tx_def log_at_def homes_ok_def by simp

lemma in_txD:
  assumes "in_tx s"
  shows "bc s" "log_at (lg s) (view s)" "0 \<le> lh_n (l_lh (lg s))" "v_pin (view s) = home (lg s) ` {..<ntx (lg s)}" "ntx (lg s) \<le> LOGSIZE"
    "card (v_pin (view s)) = ntx (lg s)"
proof -
  show p: "bc s" "log_at (lg s) (view s)" "0 \<le> lh_n (l_lh (lg s))" "v_pin (view s) = home (lg s) ` {..<ntx (lg s)}" "ntx (lg s) \<le> LOGSIZE"
    using assms by (auto simp: in_tx_def homes_ok_def simp del: view_fields)
  show "card (v_pin (view s)) = ntx (lg s)" unfolding p(4) using assms by (simp add: in_tx_def card_image del: view_fields)
qed

lemma lgst_more_bcst: "bcst.more s' = bcst.more s \<Longrightarrow> lgst.more s' = lgst.more s" for s s' :: "'z lgst_scheme"
  by (cases s; cases s'; simp)

lemma tx_rd:
  assumes "tx_ok s" "n < t_size (txv s)" "n \<notin> ran (t_held (txv s))" "card (ran (t_held (txv s))) < t_left (txv s)"
  shows "\<exists>b s'. bread 1 n s = Ok b s' \<and> tx_ok s' \<and> t_held (txv s) b = None \<and> txv s' = (txv s)\<lparr>t_held := (t_held (txv s))(b \<mapsto> n)\<rparr> \<and>
    lgst.more s' = lgst.more s"
proof -
  have i: "in_tx s" using assms(1) by (simp add: tx_ok_def)
  note d = in_txD [OF i]
  have "card (v_pin (view s) \<union> ran (v_held (view s))) \<le> card (v_pin (view s)) + card (ran (v_held (view s)))" by (rule card_Un_le)
  also have "\<dots> < NBUF" using assms(4) d(6) by (simp add: txv_def tx_lim_def LOGSIZE_def NBUF_def)
  finally have c: "card (v_pin (view s) \<union> ran (v_held (view s))) < NBUF" .
  have n: "n < v_size (view s)" "n \<notin> ran (v_held (view s))" using assms(2,3) by (simp_all add: txv_def)
  obtain b s' where s': "bread 1 n s = Ok b s'" "bc s'" "v_held (view s) b = None"
    "view s' = (view s)\<lparr>v_held := (v_held (view s))(b \<mapsto> n)\<rparr>" "bcst.more s' = bcst.more s" using bs.rd [OF d(1) n] c by blast
  have l: "lg s' = lg s" using lgst_more_fields [OF s'(5)] .
  have v: "v_size (view s') = v_size (view s)" "v_pin (view s') = v_pin (view s)" "v_disk (view s') = v_disk (view s)"
    "v_cache (view s') = v_cache (view s)" "v_held (view s') = (v_held (view s))(b \<mapsto> n)" unfolding s'(4) by simp_all
  have "v_cache (view s) n = v_disk (view s) n \<or> n \<in> v_pin (view s)" using bs.clean [OF d(1) _ n(2)] by blast
  then have "tx_ok s'"
    using assms(1) in_tx_view [OF i s'(2) l v(1-3)] s'(3) unfolding tx_ok_def v l by (auto simp: ran_def split: if_splits)
  moreover have "txv s' = (txv s)\<lparr>t_held := (t_held (txv s))(b \<mapsto> n)\<rparr>" unfolding txv_def v l by simp
  ultimately show ?thesis using s'(1,3) lgst_more_bcst [OF s'(5)] by (auto simp: txv_def)
qed

lemma tx_rl:
  assumes "tx_ok s" "t_held (txv s) b = Some n"
  shows "\<exists>s'. brelse b s = Ok () s' \<and> tx_ok s' \<and> txv s' = (txv s)\<lparr>t_held := (t_held (txv s))(b := None)\<rparr> \<and> lgst.more s' = lgst.more s"
proof -
  have i: "in_tx s" using assms(1) by (simp add: tx_ok_def)
  have h: "v_held (view s) b = Some n" using assms(2) by (simp add: txv_def)
  then have "v_cache (view s) n = v_disk (view s) n \<or> n \<in> v_pin (view s)" using assms(1) ranI unfolding tx_ok_def by metis
  then obtain s' where s': "brelse b s = Ok () s'" "bc s'" "view s' = (view s)\<lparr>v_held := (v_held (view s))(b := None)\<rparr>" "bcst.more s' = bcst.more s"
    using bs.rl [OF in_txD(1) [OF i] h] by blast
  have l: "lg s' = lg s" using lgst_more_fields [OF s'(4)] .
  have v: "v_size (view s') = v_size (view s)" "v_pin (view s') = v_pin (view s)" "v_disk (view s') = v_disk (view s)"
    "v_cache (view s') = v_cache (view s)" "v_held (view s') = (v_held (view s))(b := None)" unfolding s'(3) by simp_all
  have "tx_ok s'"
    using assms(1) in_tx_view [OF i s'(2) l v(1-3)] unfolding tx_ok_def v l by (auto simp: ran_def split: if_splits)
  moreover have "txv s' = (txv s)\<lparr>t_held := (t_held (txv s))(b := None)\<rparr>" unfolding txv_def v l by simp
  ultimately show ?thesis using s'(1) lgst_more_bcst [OF s'(4)] by auto
qed

lemma tx_put:
  assumes "tx_ok s" "t_held (txv s) b = Some n" "n \<notin> t_log (txv s)" "length xs = BSIZE" "0 < t_left (txv s)"
  shows "\<exists>s' k. kseq (set_data b xs) (log_write b) s = Ok () s' \<and> tx_ok s' \<and> t_left (txv s) \<le> k + 1 \<and> k \<le> t_left (txv s) \<and>
        txv s' = (txv s)\<lparr>t_cache := (t_cache (txv s))(n := xs), t_left := k\<rparr> \<and> lgst.more s' = lgst.more s"
proof -
  have i: "in_tx s" and out: "1 \<le> l_outstanding (lg s)" using assms(1) by (simp_all add: tx_ok_def)
  have h: "v_held (view s) b = Some n" "\<not> in_log (lg s) n" using assms(2,3) by (simp_all add: txv_def)
  obtain s1 where s1: "set_data b xs s = Ok () s1" "bc s1" "view s1 = (view s)\<lparr>v_cache := (v_cache (view s))(n := xs)\<rparr>" "bcst.more s1 = bcst.more s"
    using bs.st [OF in_txD(1) [OF i] h(1) assms(4)] by blast
  have l1: "lg s1 = lg s" using lgst_more_fields [OF s1(4)] .
  have v1: "v_size (view s1) = v_size (view s)" "v_pin (view s1) = v_pin (view s)" "v_disk (view s1) = v_disk (view s)"
    "v_cache (view s1) = (v_cache (view s))(n := xs)" "v_held (view s1) = v_held (view s)" unfolding s1(3) by simp_all
  have lim: "lh_n (l_lh (lg s)) < int LOGSIZE" "lh_n (l_lh (lg s)) < l_size (lg s) - 1"
    using assms(5) in_txD(3) [OF i] by (auto simp: txv_def tx_lim_def ntx_def)
  obtain s2 where s2: "log_write b s1 = Ok () s2" "in_tx s2" "view s2 = (view s1)\<lparr>v_pin := insert n (v_pin (view s1))\<rparr>" "lg s2 = logged n (lg s1)"
    "lgst.more s2 = lgst.more s1"
    using log_write_tx [OF in_tx_view [OF i s1(2) l1 v1(1-3)], of b n] h lim out l1 v1(5) by auto
  note f = logged_facts [OF in_txD(3) [OF i] lim(1), of n]
  have len: "length (lh_block (l_lh (lg s))) = LOGSIZE" using in_txD(2) [OF i] by (simp add: log_at_def)
  have "tx_ok s2" using s2(2) assms(1) out f(7) [OF len] unfolding tx_ok_def s2(3,4) l1 by (auto simp: v1 simp del: view_fields)
  moreover have "txv s2 = (txv s)\<lparr>t_cache := (t_cache (txv s))(n := xs), t_left := t_left (txv s2)\<rparr>"
    unfolding txv_def s2(3,4) l1 by (simp add: v1 f [OF len] del: view_fields)
  moreover have "tx_lim (lg s2) = tx_lim (lg s)" "ntx (lg s) \<le> ntx (lg s2)" "ntx (lg s2) \<le> ntx (lg s) + 1"
    unfolding s2(4) l1 by (simp_all add: tx_lim_def f(6,9) [OF len])
  then have "t_left (txv s) \<le> t_left (txv s2) + 1 \<and> t_left (txv s2) \<le> t_left (txv s)" by (simp add: txv_def) arith
  moreover have "kseq (set_data b xs) (log_write b) s = Ok () s2" using s1(1) s2(1) by (simp add: kstep)
  ultimately show ?thesis using s2(5) lgst_more_bcst [OF s1(4)] by (intro exI [of _ s2] exI [of _ "t_left (txv s2)"]) simp
qed

interpretation tx: tx_store "bread 1" log_write brelse set_data "\<lambda>s b. b_data (bufat s b)" tx_ok txv lgst.more
proof unfold_locales
  fix s :: "'a lgst_scheme" and n b
  show "tx_ok s \<Longrightarrow> t_held (txv s) b = Some n \<Longrightarrow> b_data (bufat s b) = t_cache (txv s) n"
    using bs.dat [of s b n] in_txD(1) [of s] by (auto simp: tx_ok_def txv_def)
  show "tx_ok s \<Longrightarrow> n < t_size (txv s) \<Longrightarrow> length (t_cache (txv s) n) = BSIZE"
    using bs.len [of s n] in_txD(1) [of s] by (auto simp: tx_ok_def txv_def)
qed (rule tx_rd tx_rl tx_put; assumption)+

end
