(* ===== verification/Cstring.thy ===== *)
theory Cstring
  imports Prelude
begin

text \<open>
  The string routines of string.c and ulib.c, and the number printing of printf.c. A C string argument
  is the list of bytes from the pointer on; reading past the end of the list gives the terminating NUL,
  so a list without a zero byte is the string itself. Routines that write return the new contents of the
  destination array.
\<close>

fun ch :: "byte list \<Rightarrow> byte" where
  "ch [] = 0"
| "ch (c # _) = c"

definition cstr :: "byte list \<Rightarrow> byte list" where
  "cstr xs = takeWhile (\<lambda>c. c \<noteq> 0) xs"

definition str :: "string \<Rightarrow> byte list" where
  "str s = map of_char s"

fun strncmp :: "byte list \<Rightarrow> byte list \<Rightarrow> nat \<Rightarrow> int" where
  "strncmp p q 0 = 0"
| "strncmp p q (Suc n) =
     (if ch p \<noteq> 0 \<and> ch p = ch q then strncmp (tl p) (tl q) n else uint (ch p) - uint (ch q))"

text \<open>strncpy: the copying loop and the loop that pads with NULs.\<close>

fun zero_fill :: "byte list \<Rightarrow> nat \<Rightarrow> byte list" where
  "zero_fill s 0 = s"
| "zero_fill s (Suc n) = 0 # zero_fill (tl s) n"

fun strncpy :: "byte list \<Rightarrow> byte list \<Rightarrow> nat \<Rightarrow> byte list" where
  "strncpy s t 0 = s"
| "strncpy s t (Suc n) = ch t # (if ch t \<noteq> 0 then strncpy (tl s) (tl t) n else zero_fill (tl s) n)"

text \<open>safestrcpy: after the loop \<^verbatim>\<open>*s = 0\<close> is stored behind the last byte copied.\<close>

fun safestrcpy_loop :: "byte list \<Rightarrow> byte list \<Rightarrow> nat \<Rightarrow> byte list" where
  "safestrcpy_loop s t 0 = 0 # tl s"
| "safestrcpy_loop s t (Suc n) = ch t # (if ch t \<noteq> 0 then safestrcpy_loop (tl s) (tl t) n else 0 # tl (tl s))"

definition safestrcpy :: "byte list \<Rightarrow> byte list \<Rightarrow> int \<Rightarrow> byte list" where
  "safestrcpy s t n = (if n \<le> 0 then s else safestrcpy_loop s t (nat (n - 1)))"

fun strlen_from :: "byte list \<Rightarrow> nat \<Rightarrow> nat" where
  "strlen_from [] n = n"
| "strlen_from (c # s) n = (if c \<noteq> 0 then strlen_from s (n + 1) else n)"

definition strlen :: "byte list \<Rightarrow> nat" where
  "strlen s = strlen_from s 0"

fun strcpy :: "byte list \<Rightarrow> byte list \<Rightarrow> byte list" where
  "strcpy s [] = 0 # tl s"
| "strcpy s (c # t) = c # (if c \<noteq> 0 then strcpy (tl s) t else tl s)"

fun strcmp :: "byte list \<Rightarrow> byte list \<Rightarrow> int" where
  "strcmp [] q = uint (0 :: byte) - uint (ch q)"
| "strcmp (c # p) q = (if c \<noteq> 0 \<and> c = ch q then strcmp p (tl q) else uint c - uint (ch q))"

text \<open>strchr returns the rest of the string from the match on.\<close>

fun strchr :: "byte list \<Rightarrow> byte \<Rightarrow> byte list option" where
  "strchr [] c = None"
| "strchr (x # s) c = (if x = 0 then None else if x = c then Some (x # s) else strchr s c)"

text \<open>atoi and atoo in the build with PDX_XV6: blanks, a sign, digits. The sums wrap at 32 bits.\<close>

fun digits_value :: "uint \<Rightarrow> byte \<Rightarrow> cint \<Rightarrow> byte list \<Rightarrow> cint" where
  "digits_value base hi n [] = n"
| "digits_value base hi n (c # s) =
     (if 0x30 \<le> c \<and> c \<le> hi then digits_value base hi (n * base + ucast c - 0x30) s else n)"

definition ato :: "uint \<Rightarrow> byte \<Rightarrow> byte list \<Rightarrow> cint" where
  "ato base hi s =
    (let s1 = dropWhile (\<lambda>c. c = 0x20) s;
         sign = (if ch s1 = 0x2D then - 1 else 1);
         s2 = (if ch s1 = 0x2B \<or> ch s1 = 0x2D then tl s1 else s1)
     in sign * digits_value base hi 0 s2)"

definition atoi :: "byte list \<Rightarrow> cint" where
  "atoi = ato 10 0x39"

definition atoo :: "byte list \<Rightarrow> cint" where
  "atoo = ato 8 0x37"

subsection \<open>printf.c\<close>

text \<open>
  printint fills \<open>buf\<close> with the digits, least significant first, and prints it backwards. It is called
  with bases 10 and 16; for these the loop ends when the quotient is zero, that is below the base.
\<close>

definition digit :: "nat \<Rightarrow> byte" where
  "digit d = str ''0123456789ABCDEF'' ! d"

function digits_rev :: "nat \<Rightarrow> nat \<Rightarrow> byte list" where
  "digits_rev b x = digit (x mod b) # (if x < b \<or> b < 2 then [] else digits_rev b (x div b))"
  by auto

termination by (relation "measure snd") (auto intro: div_less_dividend)

declare digits_rev.simps [simp del]

definition printint_buf :: "cint \<Rightarrow> nat \<Rightarrow> bool \<Rightarrow> byte list" where
  "printint_buf xx base sg =
    (let neg = (sg \<and> sint xx < 0);
         x = (if neg then - xx else xx)
     in digits_rev base (unat x) @ (if neg then [0x2D] else []))"

definition printint :: "cint \<Rightarrow> nat \<Rightarrow> bool \<Rightarrow> byte list" where
  "printint xx base sg = rev (printint_buf xx base sg)"

text \<open>
  printf as what it writes. \<open>ap\<close> are the argument words after \<^verbatim>\<open>fmt\<close> on the stack, \<open>i\<close> counts those
  used, \<open>at\<close> gives the string at an address; the boolean is the state variable, true after a percent sign.
\<close>

fun printf_loop :: "(uint \<Rightarrow> byte list) \<Rightarrow> (nat \<Rightarrow> uint) \<Rightarrow> byte list \<Rightarrow> bool \<Rightarrow> nat \<Rightarrow> byte list" where
  "printf_loop at ap [] st i = []"
| "printf_loop at ap (c # fmt) st i =
    (if c = 0 then []
     else if \<not> st then
       (if c = 0x25 then printf_loop at ap fmt True i else c # printf_loop at ap fmt False i)
     else if c = of_char CHR ''d'' then printint (ap i) 10 True @ printf_loop at ap fmt False (i + 1)
     else if c = of_char CHR ''x'' \<or> c = of_char CHR ''p'' then printint (ap i) 16 False @ printf_loop at ap fmt False (i + 1)
     else if c = of_char CHR ''s'' then
       (if ap i = 0 then str ''(null)'' else cstr (at (ap i))) @ printf_loop at ap fmt False (i + 1)
     else if c = of_char CHR ''c'' then ucast (ap i) # printf_loop at ap fmt False (i + 1)
     else if c = 0x25 then c # printf_loop at ap fmt False i
     else 0x25 # c # printf_loop at ap fmt False i)"

definition printf :: "(uint \<Rightarrow> byte list) \<Rightarrow> byte list \<Rightarrow> (nat \<Rightarrow> uint) \<Rightarrow> byte list" where
  "printf at fmt ap = printf_loop at ap fmt False 0"

subsection \<open>What the string routines compute\<close>

lemma cstr_simps [simp]: "cstr [] = []" "cstr (c # s) = (if c = 0 then [] else c # cstr s)"
  by (simp_all add: cstr_def)

lemma strlen_from_cstr: "strlen_from s n = n + length (cstr s)"
  by (induction s arbitrary: n) auto

lemma strlen_cstr: "strlen s = length (cstr s)"
  by (simp add: strlen_def strlen_from_cstr)

lemma cstr_strcpy: "cstr (strcpy s t) = cstr t"
  by (induction s t rule: strcpy.induct) auto

lemma strchr_Some: "strchr s c = Some r \<Longrightarrow> \<exists>u. s = u @ r \<and> ch r = c \<and> c \<notin> set u \<and> 0 \<notin> set u"
  by (induction s) (force split: if_splits)+

lemma length_zero_fill: "n \<le> length s \<Longrightarrow> zero_fill s n = replicate n 0 @ drop n s"
  by (induction n arbitrary: s) (auto simp: drop_Suc Suc_le_length_iff)

lemma strncpy_eq: "n \<le> length s \<Longrightarrow> strncpy s t n = take n (cstr t) @ replicate (n - length (cstr t)) 0 @ drop n s"
proof (induction n arbitrary: s t)
  case (Suc n)
  then obtain x s' where s: "s = x # s'" "n \<le> length s'" by (auto simp: Suc_le_length_iff)
  show ?case using Suc.IH [of s' "tl t"] s length_zero_fill [of n s'] by (cases t) auto
qed simp

lemma safestrcpy_loop_cstr: "n < length s \<Longrightarrow> cstr (safestrcpy_loop s t n) = take n (cstr t) \<and> length (safestrcpy_loop s t n) = length s"
proof (induction n arbitrary: s t)
  case (Suc n)
  then obtain x y s' where s: "s = x # y # s'" by (metis Suc_less_eq length_Cons list.exhaust list.size(3) not_less0)
  show ?case using Suc.IH [of "y # s'" "tl t"] Suc.prems s by (cases t) auto
qed (cases s; simp)

lemma byte_eq: "uint (a :: byte) = uint b \<longleftrightarrow> a = b"
  by (simp add: word_uint_eq_iff)

lemma byte_zero: "uint (a :: byte) = 0 \<longleftrightarrow> a = 0"
  using byte_eq [of a 0] by simp

lemma byte_pos: "0 < uint (a :: byte) \<longleftrightarrow> a \<noteq> 0"
  using byte_zero [of a] uint_ge_0 [of a] by linarith

lemma strncmp_zero: "strncmp p q n = 0 \<longleftrightarrow> take n (cstr p) = take n (cstr q)"
proof (induction n arbitrary: p q)
  case (Suc n)
  have "uint (ch p) - uint (ch q) = 0 \<longleftrightarrow> ch p = ch q" by (simp add: byte_eq)
  then show ?case using Suc.IH [of "tl p" "tl q"] by (cases p; cases q) auto
qed simp

text \<open>The order of strings: lexicographic on unsigned bytes.\<close>

fun str_less :: "byte list \<Rightarrow> byte list \<Rightarrow> bool" where
  "str_less _ [] = False"
| "str_less [] (_ # _) = True"
| "str_less (a # s) (b # t) = (a < b \<or> (a = b \<and> str_less s t))"

lemma strcmp_zero: "strcmp p q = 0 \<longleftrightarrow> cstr p = cstr q"
proof (induction p q rule: strcmp.induct)
  case (1 q)
  then show ?case by (cases q) (auto simp: byte_zero)
next
  case (2 c p q)
  then show ?case by (cases q) (auto simp: byte_zero byte_eq)
qed

lemma strcmp_less: "strcmp p q < 0 \<longleftrightarrow> str_less (cstr p) (cstr q)"
proof (induction p q rule: strcmp.induct)
  case (1 q)
  then show ?case by (cases q) (auto simp: byte_pos)
next
  case (2 c p q)
  then show ?case by (cases q) (auto simp: word_less_def byte_pos)
qed


lemma safestrcpy_loop_drop: "n < length s \<Longrightarrow> drop (Suc n) (safestrcpy_loop s t n) = drop (Suc n) s"
proof (induction n arbitrary: s t)
  case (Suc n)
  then obtain x y s' where s: "s = x # y # s'" by (metis Suc_less_eq length_Cons list.exhaust list.size(3) not_less0)
  show ?case using Suc.IH [of "y # s'" "tl t"] Suc.prems s by (cases t) auto
qed (simp add: drop_Suc)

text \<open>
  C22: the bounded copies stay inside the destination. With room for n bytes, strncpy stores the first n bytes
  of the source padded with NULs, safestrcpy stores a string of at most n - 1 bytes that is a prefix of the
  source, and neither touches the array from n on.
\<close>

theorem bounded_string_copies:
  assumes "0 < n" "n \<le> length s"
  shows "take n (strncpy s t n) = take n (cstr t) @ replicate (n - length (cstr t)) 0 \<and> drop n (strncpy s t n) = drop n s \<and>
    cstr (safestrcpy s t (int n)) = take (n - 1) (cstr t) \<and> strlen (safestrcpy s t (int n)) < n \<and>
    drop n (safestrcpy s t (int n)) = drop n s \<and> length (safestrcpy s t (int n)) = length s"
proof -
  have e: "safestrcpy s t (int n) = safestrcpy_loop s t (n - 1)" using assms(1) by (simp add: safestrcpy_def nat_diff_distrib)
  have l: "n - 1 < length s" using assms by simp
  note c = safestrcpy_loop_cstr [OF l, of t]
  have "strlen (safestrcpy s t (int n)) < n" unfolding e strlen_cstr using c assms(1) by simp
  moreover have "drop n (safestrcpy s t (int n)) = drop n s" unfolding e using safestrcpy_loop_drop [OF l, of t] assms(1) by simp
  ultimately show ?thesis using c e strncpy_eq [OF assms(2), of t] by simp
qed

theorem bounded_string_copies_witness:
  "cstr (safestrcpy (replicate 16 7) (str ''a-name-that-is-too-long'') (int 16)) = str ''a-name-that-is-'' \<and>
   take 14 (strncpy (replicate 16 7) (str ''sh'') 14) = str ''sh'' @ replicate 12 0"
  using bounded_string_copies [of 16 "replicate 16 7" "str ''a-name-that-is-too-long''"]
    bounded_string_copies [of 14 "replicate 16 7" "str ''sh''"] by (simp add: str_def)

subsection \<open>Printing and reading numbers\<close>

lemma digit_val:
  assumes "d < 10"
  shows "0x30 \<le> digit d" "digit d \<le> 0x39" "(ucast (digit d) :: uint) = 0x30 + of_nat d"
proof -
  have "d = 0 \<or> d = 1 \<or> d = 2 \<or> d = 3 \<or> d = 4 \<or> d = 5 \<or> d = 6 \<or> d = 7 \<or> d = 8 \<or> d = 9" using assms by arith
  then show "0x30 \<le> digit d" "digit d \<le> 0x39" "(ucast (digit d) :: uint) = 0x30 + of_nat d"
    by (auto simp: digit_def str_def)
qed

lemma digits_value_append:
  "digits_value 10 0x39 a (rev (digits_rev 10 n) @ r) = digits_value 10 0x39 (a * 10 ^ length (digits_rev 10 n) + of_nat n) r"
proof (induction n arbitrary: a r rule: less_induct)
  case (less n)
  have d: "n mod 10 < 10" by simp
  note dv = digit_val [OF d]
  have step: "digits_value 10 0x39 b (digit (n mod 10) # r) = digits_value 10 0x39 (b * 10 + of_nat (n mod 10)) r" for b
    using dv by (simp add: add.assoc)
  show ?case
  proof (cases "n < 10")
    case True
    then have "digits_rev 10 n = [digit (n mod 10)]" by (subst digits_rev.simps) simp
    then show ?thesis using step [of a] True by simp
  next
    case False
    have e: "digits_rev 10 n = digit (n mod 10) # digits_rev 10 (n div 10)" using False by (subst digits_rev.simps) simp
    have "(of_nat (n div 10) :: uint) * 10 + of_nat (n mod 10) = of_nat n"
      by (metis div_mult_mod_eq of_nat_add of_nat_mult of_nat_numeral)
    then have s: "(a * 10 ^ length (digits_rev 10 (n div 10)) + of_nat (n div 10)) * 10 + of_nat (n mod 10) =
        a * 10 ^ length (digits_rev 10 n) + of_nat n" by (simp add: e algebra_simps)
    have "digits_value 10 0x39 a (rev (digits_rev 10 n) @ r) =
        digits_value 10 0x39 (a * 10 ^ length (digits_rev 10 (n div 10)) + of_nat (n div 10)) (digit (n mod 10) # r)"
      using less.IH [of "n div 10" a "digit (n mod 10) # r"] False by (simp add: e del: digits_value.simps)
    then show ?thesis unfolding step s .
  qed
qed

lemma digits_rev_digits: "c \<in> set (digits_rev 10 n) \<Longrightarrow> 0x30 \<le> c \<and> c \<le> 0x39"
proof (induction n rule: less_induct)
  case (less n)
  have "n mod 10 < 10" by simp
  note dv = digit_val(1,2) [OF this]
  show ?case
  proof (cases "n < 10")
    case True
    then show ?thesis using less.prems dv by (subst (asm) digits_rev.simps) simp
  next
    case False
    have "digits_rev 10 n = digit (n mod 10) # digits_rev 10 (n div 10)" using False by (subst digits_rev.simps) simp
    then show ?thesis using less.prems less.IH [of "n div 10"] dv False by auto
  qed
qed

lemma digits_rev_ne: "digits_rev b n \<noteq> []"
  by (subst digits_rev.simps) simp

lemma digits_value_printed: "digits_value 10 0x39 0 (rev (digits_rev 10 n)) = of_nat n"
  using digits_value_append [of 0 n "[]"] by simp

text \<open>
  C23: numbers survive being printed and read back. atoi applied to what printf writes for \<^verbatim>\<open>%d\<close> gives the
  number again, for every 32-bit int, the most negative one included.
\<close>

theorem atoi_printint: "atoi (printint n 10 True) = n"
proof (cases "sint n < 0")
  case True
  have "printint n 10 True = 0x2D # rev (digits_rev 10 (unat (- n)))" using True by (simp add: printint_def printint_buf_def)
  then have "atoi (printint n 10 True) = - 1 * digits_value 10 0x39 0 (rev (digits_rev 10 (unat (- n))))"
    by (simp add: atoi_def ato_def)
  then show ?thesis by (simp add: digits_value_printed)
next
  case False
  obtain c cs where c: "rev (digits_rev 10 (unat n)) = c # cs" using digits_rev_ne [of 10 "unat n"] by (cases "rev (digits_rev 10 (unat n))") auto
  then have "c \<in> set (digits_rev 10 (unat n))" by (metis list.set_intros(1) set_rev)
  then have "c \<noteq> 0x20 \<and> c \<noteq> 0x2B \<and> c \<noteq> 0x2D" using digits_rev_digits by fastforce
  moreover have "printint n 10 True = c # cs" using False c by (simp add: printint_def printint_buf_def)
  ultimately have "atoi (printint n 10 True) = digits_value 10 0x39 0 (c # cs)"
    by (simp add: atoi_def ato_def)
  then show ?thesis unfolding c [symmetric] by (simp add: digits_value_printed)
qed

lemma digits_rev_length: "2 \<le> b \<Longrightarrow> n < b ^ Suc k \<Longrightarrow> length (digits_rev b n) \<le> Suc k"
proof (induction k arbitrary: n)
  case (Suc k)
  have "n div b < b ^ Suc k" using Suc.prems by (simp add: less_mult_imp_div_less mult.commute)
  then show ?case using Suc.IH [of "n div b"] Suc.prems(1) by (subst digits_rev.simps) simp
qed (subst digits_rev.simps, simp)

text \<open>
  C24: the buffer of printint is large enough. In both bases printf uses, the digits and the sign of any 32-bit
  number fit in its 16 bytes.
\<close>

theorem printint_fits_buffer:
  assumes "base = 10 \<or> base = 16"
  shows "length (printint_buf xx base sg) \<le> 11"
proof -
  have n: "unat x < 10 ^ Suc 9" "unat x < 16 ^ Suc 7" for x :: uint using unat32_less [of x] by simp_all
  have l: "length (digits_rev base (unat x)) \<le> 10" for x :: uint
    using assms digits_rev_length [OF _ n(1), of x] digits_rev_length [OF _ n(2), of x] by auto
  show ?thesis using l [of xx] l [of "- xx"] by (simp add: printint_buf_def Let_def)
qed

theorem printint_fits_buffer_witness: "length (printint_buf (- 2147483648) 10 True) \<le> 11"
  using printint_fits_buffer [of 10] by blast

end
