(* ===== verification/Fs.thy ===== *)
theory Fs
  imports Tx Cstring
begin

text \<open>
  The file system (fs.c): the block bitmap, inodes and their cache, file contents, directories and path
  names. Inode \<open>i\<close> is the entry \<^verbatim>\<open>icache.inode[i]\<close>; a null pointer is \<open>None\<close>. Data moves as byte lists:
  readi returns the bytes it copies to its destination, writei takes the bytes at its source. A path or name
  is the list of its bytes. The device table \<^verbatim>\<open>devsw\<close> is the parameter \<open>dv\<close> of the operations that use it.
\<close>

unbundle bit_operations_syntax

definition ROOTDEV :: uint where "ROOTDEV = 1"
definition ROOTINO :: uint where "ROOTINO = 1"
definition NDIRECT :: nat where "NDIRECT = 12"
definition NINDIRECT :: nat where "NINDIRECT = BSIZE div 4"
definition MAXFILE :: nat where "MAXFILE = NDIRECT + NINDIRECT"
definition DIRSIZ :: nat where "DIRSIZ = 14"
definition sizeof_dinode :: nat where "sizeof_dinode = 64"
definition sizeof_dirent :: nat where "sizeof_dirent = 16"
definition IPB :: nat where "IPB = BSIZE div sizeof_dinode"
definition BPB :: nat where "BPB = BSIZE * 8"
definition T_DIR :: ushort where "T_DIR = 1"
definition T_FILE :: ushort where "T_FILE = 2"
definition T_DEV :: ushort where "T_DEV = 3"

record dinode =
  d_type :: ushort
  d_major :: ushort
  d_minor :: ushort
  d_nlink :: ushort
  d_size :: uint
  d_addrs :: "uint list"

record inode =
  i_dev :: uint
  i_inum :: uint
  i_ref :: int
  i_valid :: bool
  i_type :: ushort
  i_major :: ushort
  i_minor :: ushort
  i_nlink :: ushort
  i_size :: uint
  i_addrs :: "uint list"

record fsst = lgst +
  inodes :: "inode list"
  sb :: superblock

abbreviation inode_at :: "'z fsst_scheme \<Rightarrow> nat \<Rightarrow> inode" where
  "inode_at s i \<equiv> inodes s ! i"

record 's devsw =
  dev_read :: "nat \<Rightarrow> (nat \<Rightarrow> uint \<Rightarrow> ('s, cint \<times> byte list) kern) option"
  dev_write :: "nat \<Rightarrow> (nat \<Rightarrow> byte list \<Rightarrow> ('s, cint) kern) option"

definition updi :: "nat \<Rightarrow> (inode \<Rightarrow> inode) \<Rightarrow> ('z fsst_scheme, unit) kern" where
  "updi i f = modify (\<lambda>s. s\<lparr>inodes := upd_nth i f (inodes s)\<rparr>)"

definition IBLOCK :: "uint \<Rightarrow> superblock \<Rightarrow> uint" where
  "IBLOCK i b = i div of_nat IPB + sb_inodestart b"

definition BBLOCK :: "uint \<Rightarrow> superblock \<Rightarrow> uint" where
  "BBLOCK n b = n div of_nat BPB + sb_bmapstart b"

subsection \<open>Blocks\<close>

definition bzero :: "uint \<Rightarrow> uint \<Rightarrow> ('z lgst_scheme, unit) kern" where
  "bzero dev bno =
     kbind (bread dev bno) (\<lambda>bp.
     kseq (set_data bp (replicate BSIZE 0))
     (kseq (log_write bp)
           (brelse bp)))"

text \<open>\<^verbatim>\<open>bp->data[bi/8] & m\<close> with \<^verbatim>\<open>m = 1 << (bi % 8)\<close>, and the two stores to it.\<close>

definition bit_used :: "byte list \<Rightarrow> nat \<Rightarrow> bool" where
  "bit_used xs bi \<longleftrightarrow> xs ! (bi div 8) AND push_bit (bi mod 8) 1 \<noteq> 0"

definition bit_mark :: "nat \<Rightarrow> byte list \<Rightarrow> byte list" where
  "bit_mark bi xs = xs[bi div 8 := xs ! (bi div 8) OR push_bit (bi mod 8) 1]"

definition bit_clear :: "nat \<Rightarrow> byte list \<Rightarrow> byte list" where
  "bit_clear bi xs = xs[bi div 8 := xs ! (bi div 8) AND NOT (push_bit (bi mod 8) 1)]"

text \<open>The inner loop of balloc: the first free bit of one bitmap block that stands for a block of the disk.\<close>

definition free_bit :: "byte list \<Rightarrow> uint \<Rightarrow> uint \<Rightarrow> nat option" where
  "free_bit xs b sz = find (\<lambda>bi. \<not> bit_used xs bi) (takeWhile (\<lambda>bi. b + of_nat bi < sz) [0..<BPB])"

definition balloc_body :: "uint \<Rightarrow> uint \<Rightarrow> ('z fsst_scheme, uint + uint) kern" where
  "balloc_body dev b =
     kif (\<lambda>s. \<not> b < sb_size (sb s)) (panic ''balloc: out of blocks'')
     (kbind (\<lambda>s. bread dev (BBLOCK b (sb s)) s) (\<lambda>bp.
      kbind (gets (\<lambda>s. free_bit (b_data (bufat s bp)) b (sb_size (sb s)))) (\<lambda>r. case r of
        Some bi \<Rightarrow>
          kseq (\<lambda>s. set_data bp (bit_mark bi (b_data (bufat s bp))) s)
          (kseq (log_write bp)
          (kseq (brelse bp)
          (kseq (bzero dev (b + of_nat bi))
                (ret (Inr (b + of_nat bi))))))
      | None \<Rightarrow> kseq (brelse bp) (ret (Inl (b + of_nat BPB))))))"

definition balloc :: "uint \<Rightarrow> ('z fsst_scheme, uint) kern" where
  "balloc dev = (\<lambda>s. kloop (unat (sb_size (sb s)) div BPB + 2) (balloc_body dev) 0 s)"

definition bfree :: "uint \<Rightarrow> uint \<Rightarrow> ('z fsst_scheme, unit) kern" where
  "bfree dev b =
     kbind (readsb dev) (\<lambda>sb'.
     kseq (modify (\<lambda>s. s\<lparr>sb := sb'\<rparr>))
     (kbind (\<lambda>s. bread dev (BBLOCK b (sb s)) s) (\<lambda>bp.
      kif (\<lambda>s. \<not> bit_used (b_data (bufat s bp)) (unat b mod BPB)) (panic ''freeing free block'')
      (kseq (\<lambda>s. set_data bp (bit_clear (unat b mod BPB) (b_data (bufat s bp))) s)
      (kseq (log_write bp)
            (brelse bp))))))"

subsection \<open>Inodes\<close>

text \<open>\<^verbatim>\<open>(struct dinode*)bp->data + inum%IPB\<close>: the offset, and the fields there.\<close>

definition doff :: "uint \<Rightarrow> nat" where
  "doff inum = (unat inum mod IPB) * sizeof_dinode"

definition get_dinode :: "byte list \<Rightarrow> nat \<Rightarrow> dinode" where
  "get_dinode xs o1 = \<lparr>d_type = rd16 xs o1, d_major = rd16 xs (o1 + 2), d_minor = rd16 xs (o1 + 4), d_nlink = rd16 xs (o1 + 6),
     d_size = rd32 xs (o1 + 8), d_addrs = rd32s xs (o1 + 12) (NDIRECT + 1)\<rparr>"

definition put_dinode :: "nat \<Rightarrow> dinode \<Rightarrow> byte list \<Rightarrow> byte list" where
  "put_dinode o1 d xs = wr32s (o1 + 12) (d_addrs d) (wr32 (o1 + 8) (d_size d) (wr16 (o1 + 6) (d_nlink d)
     (wr16 (o1 + 4) (d_minor d) (wr16 (o1 + 2) (d_major d) (wr16 o1 (d_type d) xs)))))"

definition dinode_of :: "inode \<Rightarrow> dinode" where
  "dinode_of x = \<lparr>d_type = i_type x, d_major = i_major x, d_minor = i_minor x, d_nlink = i_nlink x, d_size = i_size x, d_addrs = i_addrs x\<rparr>"

definition load_dinode :: "dinode \<Rightarrow> inode \<Rightarrow> inode" where
  "load_dinode d x = x\<lparr>i_type := d_type d, i_major := d_major d, i_minor := d_minor d, i_nlink := d_nlink d, i_size := d_size d,
     i_addrs := d_addrs d\<rparr>"

definition iinit :: "uint \<Rightarrow> ('z fsst_scheme, unit) kern" where
  "iinit dev =
     kseq (modify (\<lambda>s. s\<lparr>held := held s - {IcacheLock}\<rparr>))
     (kseq (kfor (\<lambda>i. initsleeplock (InodeLk i)) [0..<NINODE])
     (kbind (readsb dev) (\<lambda>sb'.
      modify (\<lambda>s. s\<lparr>sb := sb'\<rparr>))))"

definition iget :: "uint \<Rightarrow> uint \<Rightarrow> ('z fsst_scheme, nat) kern" where
  "iget dev inum =
     kseq (acquire IcacheLock)
     (kbind (gets (\<lambda>s. find_slot (\<lambda>x. i_ref x > 0 \<and> i_dev x = dev \<and> i_inum x = inum) (inodes s))) (\<lambda>r. case r of
       Some ip \<Rightarrow>
         kseq (updi ip (\<lambda>x. x\<lparr>i_ref := i_ref x + 1\<rparr>))
         (kseq (release IcacheLock)
               (ret ip))
     | None \<Rightarrow>
         kbind (gets (\<lambda>s. find_slot (\<lambda>x. i_ref x = 0) (inodes s))) (\<lambda>r. case r of
           None \<Rightarrow> panic ''iget: no inodes''
         | Some ip \<Rightarrow>
             kseq (updi ip (i_dev_update (\<lambda>_. dev)))
             (kseq (updi ip (i_inum_update (\<lambda>_. inum)))
             (kseq (updi ip (i_ref_update (\<lambda>_. 1)))
             (kseq (updi ip (i_valid_update (\<lambda>_. False)))
             (kseq (release IcacheLock)
                   (ret ip))))))))"

definition idup :: "nat \<Rightarrow> ('z fsst_scheme, nat) kern" where
  "idup ip =
     kseq (acquire IcacheLock)
     (kseq (updi ip (\<lambda>x. x\<lparr>i_ref := i_ref x + 1\<rparr>))
     (kseq (release IcacheLock)
           (ret ip)))"

definition ialloc_body :: "uint \<Rightarrow> ushort \<Rightarrow> uint \<Rightarrow> ('z fsst_scheme, uint + nat) kern" where
  "ialloc_body dev type inum =
     kif (\<lambda>s. \<not> inum < sb_ninodes (sb s)) (panic ''ialloc: no inodes'')
     (kbind (\<lambda>s. bread dev (IBLOCK inum (sb s)) s) (\<lambda>bp.
      kif (\<lambda>s. d_type (get_dinode (b_data (bufat s bp)) (doff inum)) = 0)
        (kseq (\<lambda>s. set_data bp (put_dinode (doff inum)
                 \<lparr>d_type = type, d_major = 0, d_minor = 0, d_nlink = 0, d_size = 0, d_addrs = replicate (NDIRECT + 1) 0\<rparr>
                 (b_data (bufat s bp))) s)
        (kseq (log_write bp)
        (kseq (brelse bp)
        (kbind (iget dev inum) (\<lambda>ip. ret (Inr ip))))))
        (kseq (brelse bp) (ret (Inl (inum + 1))))))"

definition ialloc :: "uint \<Rightarrow> ushort \<Rightarrow> ('z fsst_scheme, nat) kern" where
  "ialloc dev type = (\<lambda>s. kloop (unat (sb_ninodes (sb s)) + 2) (ialloc_body dev type) 1 s)"

definition iupdate :: "nat \<Rightarrow> ('z fsst_scheme, unit) kern" where
  "iupdate ip =
     kbind (\<lambda>s. bread (i_dev (inode_at s ip)) (IBLOCK (i_inum (inode_at s ip)) (sb s)) s) (\<lambda>bp.
     kseq (\<lambda>s. set_data bp (put_dinode (doff (i_inum (inode_at s ip))) (dinode_of (inode_at s ip)) (b_data (bufat s bp))) s)
     (kseq (log_write bp)
           (brelse bp)))"

definition ilock :: "nat \<Rightarrow> ('z fsst_scheme, unit) kern" where
  "ilock ip =
     kif (\<lambda>s. i_ref (inode_at s ip) < 1) (panic ''ilock'')
     (kseq (acquiresleep (InodeLk ip))
     (kwhen (\<lambda>s. \<not> i_valid (inode_at s ip))
       (kbind (\<lambda>s. bread (i_dev (inode_at s ip)) (IBLOCK (i_inum (inode_at s ip)) (sb s)) s) (\<lambda>bp.
        kseq (\<lambda>s. updi ip (load_dinode (get_dinode (b_data (bufat s bp)) (doff (i_inum (inode_at s ip))))) s)
        (kseq (brelse bp)
        (kseq (updi ip (i_valid_update (\<lambda>_. True)))
              (kwhen (\<lambda>s. i_type (inode_at s ip) = 0) (panic ''ilock: no type''))))))))"

definition iunlock :: "nat \<Rightarrow> ('z fsst_scheme, unit) kern" where
  "iunlock ip =
     kbind (holdingsleep (InodeLk ip)) (\<lambda>h.
     kif (\<lambda>s. \<not> h \<or> i_ref (inode_at s ip) < 1) (panic ''iunlock'')
         (releasesleep (InodeLk ip)))"

text \<open>The loops of itrunc over the direct and the indirect blocks.\<close>

definition itrunc_direct :: "nat \<Rightarrow> nat \<Rightarrow> ('z fsst_scheme, unit) kern" where
  "itrunc_direct ip i =
     kwhen (\<lambda>s. i_addrs (inode_at s ip) ! i \<noteq> 0)
       (kseq (\<lambda>s. bfree (i_dev (inode_at s ip)) (i_addrs (inode_at s ip) ! i) s)
             (updi ip (\<lambda>x. x\<lparr>i_addrs := (i_addrs x)[i := 0]\<rparr>)))"

definition itrunc_indirect :: "nat \<Rightarrow> nat \<Rightarrow> nat \<Rightarrow> ('z fsst_scheme, unit) kern" where
  "itrunc_indirect ip bp j =
     kwhen (\<lambda>s. rd32 (b_data (bufat s bp)) (4 * j) \<noteq> 0)
       (\<lambda>s. bfree (i_dev (inode_at s ip)) (rd32 (b_data (bufat s bp)) (4 * j)) s)"

definition itrunc :: "nat \<Rightarrow> ('z fsst_scheme, unit) kern" where
  "itrunc ip =
     kseq (kfor (itrunc_direct ip) [0..<NDIRECT])
     (kseq (kwhen (\<lambda>s. i_addrs (inode_at s ip) ! NDIRECT \<noteq> 0)
        (kbind (\<lambda>s. bread (i_dev (inode_at s ip)) (i_addrs (inode_at s ip) ! NDIRECT) s) (\<lambda>bp.
         kseq (kfor (itrunc_indirect ip bp) [0..<NINDIRECT])
         (kseq (brelse bp)
         (kseq (\<lambda>s. bfree (i_dev (inode_at s ip)) (i_addrs (inode_at s ip) ! NDIRECT) s)
               (updi ip (\<lambda>x. x\<lparr>i_addrs := (i_addrs x)[NDIRECT := 0]\<rparr>)))))))
     (kseq (updi ip (i_size_update (\<lambda>_. 0)))
           (iupdate ip)))"

definition iput :: "nat \<Rightarrow> ('z fsst_scheme, unit) kern" where
  "iput ip =
     kseq (acquiresleep (InodeLk ip))
     (kseq (kwhen (\<lambda>s. i_valid (inode_at s ip) \<and> i_nlink (inode_at s ip) = 0)
        (kseq (acquire IcacheLock)
        (kbind (gets (\<lambda>s. i_ref (inode_at s ip))) (\<lambda>r.
         kseq (release IcacheLock)
         (if r = 1 then
            kseq (itrunc ip)
            (kseq (updi ip (i_type_update (\<lambda>_. 0)))
            (kseq (iupdate ip)
                  (updi ip (i_valid_update (\<lambda>_. False)))))
          else ret ())))))
     (kseq (releasesleep (InodeLk ip))
     (kseq (acquire IcacheLock)
     (kseq (updi ip (\<lambda>x. x\<lparr>i_ref := i_ref x - 1\<rparr>))
           (release IcacheLock)))))"

definition iunlockput :: "nat \<Rightarrow> ('z fsst_scheme, unit) kern" where
  "iunlockput ip = kseq (iunlock ip) (iput ip)"

subsection \<open>Contents of inodes\<close>

definition bmap :: "nat \<Rightarrow> uint \<Rightarrow> ('z fsst_scheme, uint) kern" where
  "bmap ip bn =
     (if bn < of_nat NDIRECT then
        kif (\<lambda>s. i_addrs (inode_at s ip) ! unat bn = 0)
          (kbind (\<lambda>s. balloc (i_dev (inode_at s ip)) s) (\<lambda>addr.
           kseq (updi ip (\<lambda>x. x\<lparr>i_addrs := (i_addrs x)[unat bn := addr]\<rparr>)) (ret addr)))
          (gets (\<lambda>s. i_addrs (inode_at s ip) ! unat bn))
      else if bn - of_nat NDIRECT < of_nat NINDIRECT then
        kbind
          (kif (\<lambda>s. i_addrs (inode_at s ip) ! NDIRECT = 0)
            (kbind (\<lambda>s. balloc (i_dev (inode_at s ip)) s) (\<lambda>addr.
             kseq (updi ip (\<lambda>x. x\<lparr>i_addrs := (i_addrs x)[NDIRECT := addr]\<rparr>)) (ret addr)))
            (gets (\<lambda>s. i_addrs (inode_at s ip) ! NDIRECT))) (\<lambda>addr.
        kbind (\<lambda>s. bread (i_dev (inode_at s ip)) addr s) (\<lambda>bp.
        kbind
          (kif (\<lambda>s. rd32 (b_data (bufat s bp)) (4 * unat (bn - of_nat NDIRECT)) = 0)
            (kbind (\<lambda>s. balloc (i_dev (inode_at s ip)) s) (\<lambda>addr.
             kseq (\<lambda>s. set_data bp (wr32 (4 * unat (bn - of_nat NDIRECT)) addr (b_data (bufat s bp))) s)
             (kseq (log_write bp) (ret addr))))
            (gets (\<lambda>s. rd32 (b_data (bufat s bp)) (4 * unat (bn - of_nat NDIRECT))))) (\<lambda>addr.
        kseq (brelse bp) (ret addr))))
      else panic ''bmap: out of range'')"

record stat =
  st_type :: ushort
  st_dev :: uint
  st_ino :: uint
  st_nlink :: ushort
  st_size :: uint

definition stati :: "nat \<Rightarrow> ('z fsst_scheme, stat) kern" where
  "stati ip = gets (\<lambda>s. let x = inode_at s ip in
     \<lparr>st_type = i_type x, st_dev = i_dev x, st_ino = i_inum x, st_nlink = i_nlink x, st_size = i_size x\<rparr>)"

text \<open>\<^verbatim>\<open>ip->major < 0 || ip->major >= NDEV || !devsw[ip->major].read\<close>.\<close>

definition dev_handler :: "(nat \<Rightarrow> 'f option) \<Rightarrow> ushort \<Rightarrow> 'f option" where
  "dev_handler tab major = (if sint major < 0 \<or> sint major \<ge> int NDEV then None else tab (nat (sint major)))"

definition readi_body :: "nat \<Rightarrow> uint \<Rightarrow> uint \<times> uint \<times> byte list \<Rightarrow> ('z fsst_scheme, uint \<times> uint \<times> byte list + byte list) kern" where
  "readi_body ip n = (\<lambda>(tot, off, acc).
     if \<not> tot < n then ret (Inr acc)
     else
       kbind (bmap ip (off div of_nat BSIZE)) (\<lambda>addr.
       kbind (\<lambda>s. bread (i_dev (inode_at s ip)) addr s) (\<lambda>bp.
       let m = min (n - tot) (of_nat BSIZE - off mod of_nat BSIZE) in
       kbind (gets (\<lambda>s. take (unat m) (drop (unat (off mod of_nat BSIZE)) (b_data (bufat s bp))))) (\<lambda>xs.
       kseq (brelse bp)
            (ret (Inl (tot + m, off + m, acc @ xs)))))))"

definition readi :: "'z fsst_scheme devsw \<Rightarrow> nat \<Rightarrow> uint \<Rightarrow> uint \<Rightarrow> ('z fsst_scheme, cint \<times> byte list) kern" where
  "readi dv ip off n = (\<lambda>s.
     if i_type (inode_at s ip) = T_DEV then
       (case dev_handler (dev_read dv) (i_major (inode_at s ip)) of None \<Rightarrow> Ok (- 1, []) s | Some f \<Rightarrow> f ip n s)
     else if off > i_size (inode_at s ip) \<or> off + n < off then Ok (- 1, []) s
     else
       let n' = (if off + n > i_size (inode_at s ip) then i_size (inode_at s ip) - off else n) in
       kbind (kloop (unat n' + 1) (readi_body ip n') (0, off, [])) (\<lambda>xs. ret (n', xs)) s)"

text \<open>\<^verbatim>\<open>memmove(bp->data + k, src, m)\<close>.\<close>

definition splice :: "nat \<Rightarrow> byte list \<Rightarrow> byte list \<Rightarrow> byte list" where
  "splice k xs d = take k d @ xs @ drop (k + length xs) d"

definition writei_body :: "nat \<Rightarrow> byte list \<Rightarrow> uint \<times> uint \<Rightarrow> ('z fsst_scheme, uint \<times> uint + uint) kern" where
  "writei_body ip src = (\<lambda>(tot, off).
     let n = of_nat (length src) in
     if \<not> tot < n then ret (Inr off)
     else
       kbind (bmap ip (off div of_nat BSIZE)) (\<lambda>addr.
       kbind (\<lambda>s. bread (i_dev (inode_at s ip)) addr s) (\<lambda>bp.
       let m = min (n - tot) (of_nat BSIZE - off mod of_nat BSIZE) in
       kseq (\<lambda>s. set_data bp (splice (unat (off mod of_nat BSIZE)) (take (unat m) (drop (unat tot) src)) (b_data (bufat s bp))) s)
       (kseq (log_write bp)
       (kseq (brelse bp)
             (ret (Inl (tot + m, off + m))))))))"

definition writei :: "'z fsst_scheme devsw \<Rightarrow> nat \<Rightarrow> byte list \<Rightarrow> uint \<Rightarrow> ('z fsst_scheme, cint) kern" where
  "writei dv ip src off = (\<lambda>s.
     let n = of_nat (length src) in
     if i_type (inode_at s ip) = T_DEV then
       (case dev_handler (dev_write dv) (i_major (inode_at s ip)) of None \<Rightarrow> Ok (- 1) s | Some f \<Rightarrow> f ip src s)
     else if off > i_size (inode_at s ip) \<or> off + n < off then Ok (- 1) s
     else if off + n > of_nat (MAXFILE * BSIZE) then Ok (- 1) s
     else
       kbind (kloop (length src + 1) (writei_body ip src) (0, off)) (\<lambda>off'.
       kseq (kwhen (\<lambda>s. n > 0 \<and> off' > i_size (inode_at s ip))
              (kseq (updi ip (i_size_update (\<lambda>_. off'))) (iupdate ip)))
            (ret n)) s)"

subsection \<open>Directories\<close>

definition namecmp :: "byte list \<Rightarrow> byte list \<Rightarrow> int" where
  "namecmp s t = strncmp s t DIRSIZ"

definition de_inum :: "byte list \<Rightarrow> ushort" where
  "de_inum de = rd16 de 0"

definition de_name :: "byte list \<Rightarrow> byte list" where
  "de_name de = take DIRSIZ (drop 2 de)"

definition dirlookup_body :: "'z fsst_scheme devsw \<Rightarrow> nat \<Rightarrow> byte list \<Rightarrow> uint \<Rightarrow> ('z fsst_scheme, uint + (nat \<times> uint) option) kern" where
  "dirlookup_body dv dp name off =
     kif (\<lambda>s. \<not> off < i_size (inode_at s dp)) (ret (Inr None))
     (kbind (readi dv dp off (of_nat sizeof_dirent)) (\<lambda>(r, de).
      if r \<noteq> of_nat sizeof_dirent then panic ''dirlookup read''
      else if de_inum de = 0 then ret (Inl (off + of_nat sizeof_dirent))
      else if namecmp name (de_name de) = 0 then
        kbind (\<lambda>s. iget (i_dev (inode_at s dp)) (ucast (de_inum de)) s) (\<lambda>ip. ret (Inr (Some (ip, off))))
      else ret (Inl (off + of_nat sizeof_dirent))))"

definition dirlookup :: "'z fsst_scheme devsw \<Rightarrow> nat \<Rightarrow> byte list \<Rightarrow> ('z fsst_scheme, (nat \<times> uint) option) kern" where
  "dirlookup dv dp name =
     kif (\<lambda>s. i_type (inode_at s dp) \<noteq> T_DIR) (panic ''dirlookup not DIR'')
         (\<lambda>s. kloop (unat (i_size (inode_at s dp)) + 1) (dirlookup_body dv dp name) 0 s)"

definition dirlink_body :: "'z fsst_scheme devsw \<Rightarrow> nat \<Rightarrow> uint \<Rightarrow> ('z fsst_scheme, uint + uint) kern" where
  "dirlink_body dv dp off =
     kif (\<lambda>s. \<not> off < i_size (inode_at s dp)) (ret (Inr off))
     (kbind (readi dv dp off (of_nat sizeof_dirent)) (\<lambda>(r, de).
      if r \<noteq> of_nat sizeof_dirent then panic ''dirlink read''
      else if de_inum de = 0 then ret (Inr off)
      else ret (Inl (off + of_nat sizeof_dirent))))"

definition dirlink :: "'z fsst_scheme devsw \<Rightarrow> nat \<Rightarrow> byte list \<Rightarrow> uint \<Rightarrow> ('z fsst_scheme, cint) kern" where
  "dirlink dv dp name inum =
     kbind (dirlookup dv dp name) (\<lambda>r. case r of
       Some (ip, _) \<Rightarrow> kseq (iput ip) (ret (- 1))
     | None \<Rightarrow>
         kbind (\<lambda>s. kloop (unat (i_size (inode_at s dp)) + 1) (dirlink_body dv dp) 0 s) (\<lambda>off.
         kbind (writei dv dp (wr16 0 (ucast inum) (0 # 0 # strncpy (replicate DIRSIZ 0) name DIRSIZ)) off) (\<lambda>w.
         if w \<noteq> of_nat sizeof_dirent then panic ''dirlink'' else ret 0)))"

subsection \<open>Paths\<close>

definition skipelem :: "byte list \<Rightarrow> byte list \<Rightarrow> (byte list \<times> byte list) option" where
  "skipelem path name =
    (let path = dropWhile (\<lambda>c. c = 0x2F) path in
     if path = [] then None
     else
       let elem = takeWhile (\<lambda>c. c \<noteq> 0x2F) path;
           rest = dropWhile (\<lambda>c. c \<noteq> 0x2F) path;
           name' = (if length elem \<ge> DIRSIZ then take DIRSIZ elem
                    else elem @ [0] @ drop (length elem + 1) name)
       in Some (dropWhile (\<lambda>c. c = 0x2F) rest, name'))"

definition namex_body :: "'z fsst_scheme devsw \<Rightarrow> bool \<Rightarrow> nat \<times> byte list \<times> byte list \<Rightarrow>
    ('z fsst_scheme, nat \<times> byte list \<times> byte list + nat option \<times> byte list) kern" where
  "namex_body dv parent = (\<lambda>(ip, path, name).
     case skipelem path name of
       None \<Rightarrow> if parent then kseq (iput ip) (ret (Inr (None, name))) else ret (Inr (Some ip, name))
     | Some (path', name') \<Rightarrow>
         kseq (ilock ip)
         (kif (\<lambda>s. i_type (inode_at s ip) \<noteq> T_DIR) (kseq (iunlockput ip) (ret (Inr (None, name'))))
         (if parent \<and> path' = [] then kseq (iunlock ip) (ret (Inr (Some ip, name')))
          else
            kbind (dirlookup dv ip name') (\<lambda>r. case r of
              None \<Rightarrow> kseq (iunlockput ip) (ret (Inr (None, name')))
            | Some (next, _) \<Rightarrow> kseq (iunlockput ip) (ret (Inl (next, path', name')))))))"

definition namex :: "'z fsst_scheme devsw \<Rightarrow> byte list \<Rightarrow> bool \<Rightarrow> byte list \<Rightarrow> ('z fsst_scheme, nat option \<times> byte list) kern" where
  "namex dv path parent name =
     kbind (if ch path = 0x2F then iget ROOTDEV ROOTINO
            else (\<lambda>s. case p_cwd (proc_at s (curproc s)) of None \<Rightarrow> undef s | Some c \<Rightarrow> idup c s)) (\<lambda>ip.
     kloop (length path + 1) (namex_body dv parent) (ip, path, name))"

definition namei :: "'z fsst_scheme devsw \<Rightarrow> byte list \<Rightarrow> ('z fsst_scheme, nat option) kern" where
  "namei dv path = kbind (namex dv path False (replicate DIRSIZ 0)) (\<lambda>(r, _). ret r)"

definition nameiparent :: "'z fsst_scheme devsw \<Rightarrow> byte list \<Rightarrow> byte list \<Rightarrow> ('z fsst_scheme, nat option \<times> byte list) kern" where
  "nameiparent dv path name = namex dv path True name"

end
