(* ===== verification/Fs_Props.thy ===== *)
theory Fs_Props
  imports Fs
begin

text \<open>
  The block bitmap of fs.c inside a transaction: what balloc does to it, stated on the blocks the
  transaction sees. At the end a small file system (a root directory holding one file) on which the
  theorems about fs.c are applied.
\<close>

unbundle bit_operations_syntax

subsection \<open>State\<close>

lemma fsst_more_fields:
  fixes s s' :: "'z fsst_scheme"
  shows "lgst.more s' = lgst.more s \<Longrightarrow> sb s' = sb s \<and> inodes s' = inodes s \<and> fsst.more s' = fsst.more s"
  by (cases s; cases s'; simp)

lemma updi_run [kstep]: "updi i f s = Ok () (s\<lparr>inodes := upd_nth i f (inodes s)\<rparr>)"
  by (simp add: updi_def)

lemma fs_view [simp]:
  "bc (s\<lparr>inodes := x\<rparr>) = bc s" "view (s\<lparr>inodes := x\<rparr>) = view s" "tx_ok (s\<lparr>inodes := x\<rparr>) = tx_ok s" "txv (s\<lparr>inodes := x\<rparr>) = txv s"
  "bc (s\<lparr>sb := b\<rparr>) = bc s" "view (s\<lparr>sb := b\<rparr>) = view s" "tx_ok (s\<lparr>sb := b\<rparr>) = tx_ok s" "txv (s\<lparr>sb := b\<rparr>) = txv s"
  by (simp_all add: bc_def view_def cblk_def cached_def pins_def heldb_def table_ok_def tx_ok_def in_tx_def txv_def cong: if_cong option.case_cong)

subsection \<open>The block bitmap\<close>

lemma bit_byte: "(x :: byte) AND push_bit j 1 \<noteq> 0 \<longleftrightarrow> bit x j" if "j < 8"
proof -
  have "x AND push_bit j 1 = (if bit x j then push_bit j 1 else 0)"
    by (rule bit_word_eqI) (auto simp: bit_simps)
  moreover have "bit (push_bit j (1 :: byte)) j" using that by (simp add: bit_simps)
  then have "push_bit j (1 :: byte) \<noteq> 0" by (metis bit_0_eq bot_apply bot_bool_def)
  ultimately show ?thesis by simp
qed

lemma bit_used_bit: "bit_used xs bi \<longleftrightarrow> bit (xs ! (bi div 8)) (bi mod 8)"
  using bit_byte [of "bi mod 8" "xs ! (bi div 8)"] by (simp add: bit_used_def)

lemma same_bit: "j div 8 = bi div 8 \<and> j mod 8 = bi mod 8 \<longleftrightarrow> j = (bi :: nat)"
  by (metis div_mult_mod_eq)

lemma bit_mark_used:
  assumes "bi div 8 < length xs"
  shows "bit_used (bit_mark bi xs) j \<longleftrightarrow> j = bi \<or> bit_used xs j"
proof (cases "j div 8 = bi div 8")
  case True
  have "bit (x OR push_bit (bi mod 8) 1) (j mod 8) \<longleftrightarrow> bit x (j mod 8) \<or> j mod 8 = bi mod 8" for x :: byte
    by (auto simp: bit_simps)
  then show ?thesis using True assms same_bit [of j bi] by (auto simp: bit_used_bit bit_mark_def)
next
  case False
  then show ?thesis by (auto simp: bit_used_bit bit_mark_def)
qed

lemma bit_clear_used:
  assumes "bi div 8 < length xs"
  shows "bit_used (bit_clear bi xs) j \<longleftrightarrow> j \<noteq> bi \<and> bit_used xs j"
proof (cases "j div 8 = bi div 8")
  case True
  have "bit (x AND NOT (push_bit (bi mod 8) 1)) (j mod 8) \<longleftrightarrow> bit x (j mod 8) \<and> j mod 8 \<noteq> bi mod 8" for x :: byte
    by (auto simp: bit_simps)
  then show ?thesis using True assms same_bit [of j bi] by (auto simp: bit_used_bit bit_clear_def)
next
  case False
  then show ?thesis by (auto simp: bit_used_bit bit_clear_def)
qed

lemma length_bits [simp]: "length (bit_mark bi xs) = length xs" "length (bit_clear bi xs) = length xs"
  by (simp_all add: bit_mark_def bit_clear_def)

text \<open>Clearing the bit that was just set gives the old block back.\<close>

lemma bit_clear_mark:
  assumes "bi div 8 < length xs" "\<not> bit_used xs bi"
  shows "bit_clear bi (bit_mark bi xs) = xs"
proof -
  have "(x OR push_bit k 1) AND NOT (push_bit k 1) = x" if "\<not> bit x k" for x :: byte and k
    by (rule bit_word_eqI) (use that in \<open>auto simp: bit_simps\<close>)
  then show ?thesis using assms by (simp add: bit_clear_def bit_mark_def bit_used_bit)
qed

lemma find_takeWhile: "find P (takeWhile Q xs) = Some k \<longleftrightarrow>
    (\<exists>i<length xs. k = xs ! i \<and> P k \<and> (\<forall>j\<le>i. Q (xs ! j)) \<and> (\<forall>j<i. \<not> P (xs ! j)))"
proof (induction xs)
  case (Cons x xs)
  show ?case
  proof (cases "Q x \<and> \<not> P x")
    case True
    have "(\<exists>i<length (x # xs). k = (x # xs) ! i \<and> P k \<and> (\<forall>j\<le>i. Q ((x # xs) ! j)) \<and> (\<forall>j<i. \<not> P ((x # xs) ! j))) \<longleftrightarrow>
        (\<exists>i<length xs. k = xs ! i \<and> P k \<and> (\<forall>j\<le>i. Q (xs ! j)) \<and> (\<forall>j<i. \<not> P (xs ! j)))" (is "?l \<longleftrightarrow> ?r")
    proof
      assume ?l
      then obtain i where i: "i < length (x # xs)" "k = (x # xs) ! i" "P k" "\<forall>j\<le>i. Q ((x # xs) ! j)" "\<forall>j<i. \<not> P ((x # xs) ! j)" by blast
      then obtain m where "i = Suc m" using True by (cases i) auto
      then show ?r using i by (intro exI [of _ m]) (auto dest: spec [of _ "Suc _"])
    next
      assume ?r
      then obtain i where "i < length xs" "k = xs ! i" "P k" "\<forall>j\<le>i. Q (xs ! j)" "\<forall>j<i. \<not> P (xs ! j)" by blast
      then show ?l using True by (intro exI [of _ "Suc i"]) (auto simp: less_Suc_eq_0_disj le_Suc_eq nth_Cons split: nat.splits)
    qed
    then show ?thesis using True Cons.IH by simp
  next
    case False
    then show ?thesis by (cases "Q x") (fastforce intro: exI [of _ 0])+
  qed
qed simp

lemma find_upt_Some: "find P (takeWhile Q [0..<n]) = Some k \<longleftrightarrow> k < n \<and> (\<forall>j\<le>k. Q j) \<and> P k \<and> (\<forall>j<k. \<not> P j)"
  unfolding find_takeWhile by auto

lemma find_upt_None: "find P (takeWhile Q [0..<n]) = None \<Longrightarrow> k < n \<Longrightarrow> \<forall>j\<le>k. Q j \<Longrightarrow> \<not> P k"
proof -
  assume a: "find P (takeWhile Q [0..<n]) = None" "k < n" "\<forall>j\<le>k. Q j"
  have "k \<in> set (takeWhile Q [0..<n])" using a(2,3)
    by (induction n) (auto simp: takeWhile_append less_Suc_eq)
  then show ?thesis using a(1) by (simp add: find_None_iff)
qed

lemma BBLOCK_nat: "BBLOCK n b = of_nat (unat n div BPB) + sb_bmapstart b"
proof -
  have "unat (of_nat BPB :: uint) = BPB" by (simp add: unat_of_nat BPB_def BSIZE_def)
  then have "unat (n div of_nat BPB) = unat n div BPB" by (simp add: unat_div)
  moreover have "of_nat (unat (n div of_nat BPB)) = n div of_nat BPB" by simp
  ultimately have "n div of_nat BPB = of_nat (unat n div BPB)" by metis
  then show ?thesis by (simp add: BBLOCK_def)
qed


text \<open>What the bitmap says of block \<open>n\<close>, and a disk whose bitmap lies outside the log and marks its own blocks.\<close>

definition blk_used :: "superblock \<Rightarrow> (uint \<Rightarrow> byte list) \<Rightarrow> uint \<Rightarrow> bool" where
  "blk_used b c n \<longleftrightarrow> bit_used (c (BBLOCK n b)) (unat n mod BPB)"

definition usable :: "txview \<Rightarrow> uint \<Rightarrow> bool" where
  "usable v n \<longleftrightarrow> n < t_size v \<and> n \<notin> t_log v \<and> n \<notin> ran (t_held v)"

definition bitmap_ok :: "superblock \<Rightarrow> txview \<Rightarrow> bool" where
  "bitmap_ok b v \<longleftrightarrow> sb_size b \<le> 0x40000000 \<and> (\<forall>n < sb_size b. usable v (BBLOCK n b)) \<and>
     (\<forall>n < sb_size b. \<not> blk_used b (t_cache v) n \<longrightarrow> usable v n \<and> (\<forall>m < sb_size b. n \<noteq> BBLOCK m b))"

lemma BBLOCK_inj: "BBLOCK m b = BBLOCK n b \<longleftrightarrow> unat m div BPB = unat n div BPB"
proof -
  have "(of_nat (unat m div BPB) :: uint) = of_nat (unat n div BPB) \<longleftrightarrow> unat m div BPB = unat n div BPB"
  proof -
    have "unat (of_nat (unat k div BPB) :: uint) = unat k div BPB" for k :: uint
      using le_less_trans [OF div_le_dividend unat32_less [of k]] by (simp add: unat_of_nat take_bit_nat_eq_self)
    then show ?thesis by metis
  qed
  then show ?thesis by (simp add: BBLOCK_nat)
qed

lemma blk_used_upd:
  assumes "length (c (BBLOCK a b)) = BSIZE"
  shows "blk_used b (c(BBLOCK a b := bit_mark (unat a mod BPB) (c (BBLOCK a b)))) n \<longleftrightarrow> n = a \<or> blk_used b c n"
    and "blk_used b (c(BBLOCK a b := bit_clear (unat a mod BPB) (c (BBLOCK a b)))) n \<longleftrightarrow> n \<noteq> a \<and> blk_used b c n"
proof -
  have "unat a mod BPB div 8 < length (c (BBLOCK a b))" using assms by (simp add: BPB_def BSIZE_def)
  moreover have "unat n mod BPB = unat a mod BPB \<longleftrightarrow> n = a" if "unat n div BPB = unat a div BPB"
    using that by (metis div_mult_mod_eq word_unat_eq_iff)
  moreover have "n \<noteq> a" if "unat n div BPB \<noteq> unat a div BPB" using that by auto
  ultimately show "blk_used b (c(BBLOCK a b := bit_mark (unat a mod BPB) (c (BBLOCK a b)))) n \<longleftrightarrow> n = a \<or> blk_used b c n"
    "blk_used b (c(BBLOCK a b := bit_clear (unat a mod BPB) (c (BBLOCK a b)))) n \<longleftrightarrow> n \<noteq> a \<and> blk_used b c n"
    by (cases "BBLOCK n b = BBLOCK a b"; simp add: blk_used_def bit_mark_used bit_clear_used; simp add: BBLOCK_inj)+
qed

lemma free_bit_range:
  fixes b sz :: uint
  assumes "unat b = k * BPB" "sz \<le> 0x40000000" "b < sz" "bi < BPB"
  shows "unat (b + of_nat bi) = unat b + bi" "b + of_nat bi < sz \<longleftrightarrow> unat b + bi < unat sz"
    "unat (b + of_nat bi) div BPB = k" "unat (b + of_nat bi) mod BPB = bi"
proof -
  have "unat (of_nat bi :: uint) = bi" using assms(4) by (simp add: unat_of_nat BPB_def BSIZE_def)
  moreover have "unat b < 0x40000000" using assms(2,3) by (simp add: word_less_nat_alt word_le_nat_alt)
  ultimately show u: "unat (b + of_nat bi) = unat b + bi" using assms(4) unat_add_lem [of b "of_nat bi"] by (simp add: BPB_def BSIZE_def)
  show "b + of_nat bi < sz \<longleftrightarrow> unat b + bi < unat sz" by (simp add: word_less_nat_alt u)
  show "unat (b + of_nat bi) div BPB = k" "unat (b + of_nat bi) mod BPB = bi" using assms(4) unfolding u assms(1) by simp_all
qed

lemma free_bit_block:
  assumes "unat b = k * BPB" "sz \<le> 0x40000000" "b < sz"
  shows "free_bit xs b sz = Some bi \<longleftrightarrow> bi < BPB \<and> b + of_nat bi < sz \<and> \<not> bit_used xs bi \<and> (\<forall>j<bi. bit_used xs j)"
    and "free_bit xs b sz = None \<longleftrightarrow> (\<forall>j<BPB. unat b + j < unat sz \<longrightarrow> bit_used xs j)"
proof -
  note r = free_bit_range(2) [OF assms]
  show "free_bit xs b sz = Some bi \<longleftrightarrow> bi < BPB \<and> b + of_nat bi < sz \<and> \<not> bit_used xs bi \<and> (\<forall>j<bi. bit_used xs j)"
    unfolding free_bit_def find_upt_Some using r by (auto simp: r)
  show "free_bit xs b sz = None \<longleftrightarrow> (\<forall>j<BPB. unat b + j < unat sz \<longrightarrow> bit_used xs j)"
  proof
    assume "free_bit xs b sz = None"
    then show "\<forall>j<BPB. unat b + j < unat sz \<longrightarrow> bit_used xs j"
      using find_upt_None [of "\<lambda>bi. \<not> bit_used xs bi" "\<lambda>bi. b + of_nat bi < sz" BPB] r by (auto simp: free_bit_def)
  next
    assume "\<forall>j<BPB. unat b + j < unat sz \<longrightarrow> bit_used xs j"
    then show "free_bit xs b sz = None" using r
      by (auto simp: free_bit_def find_None_iff dest: set_takeWhileD)
  qed
qed


lemma bitmap_okD:
  assumes "bitmap_ok b v" "n < sb_size b"
  shows "usable v (BBLOCK n b)" "\<not> blk_used b (t_cache v) n \<Longrightarrow> usable v n" "\<not> blk_used b (t_cache v) n \<Longrightarrow> m < sb_size b \<Longrightarrow> n \<noteq> BBLOCK m b"
  using assms by (auto simp: bitmap_ok_def)

lemma kseq3: "kseq m1 (kseq m2 m3) s = Ok () s' \<Longrightarrow> kseq m1 (kseq m2 (kseq m3 k)) s = k s'"
  by (auto simp: kseq_eq_Ok kstep)

lemma bzero_run:
  assumes "tx_ok s" "usable (txv s) n" "card (ran (t_held (txv s))) < t_left (txv s)"
  shows "\<exists>s' k. bzero 1 n s = Ok () s' \<and> tx_ok s' \<and> t_left (txv s) \<le> k + 1 \<and> k \<le> t_left (txv s) \<and>
    txv s' = (txv s)\<lparr>t_cache := (t_cache (txv s))(n := replicate BSIZE 0), t_left := k\<rparr> \<and> lgst.more s' = lgst.more s"
proof -
  have u: "n < t_size (txv s)" "n \<notin> t_log (txv s)" "n \<notin> ran (t_held (txv s))" using assms(2) by (simp_all add: usable_def)
  obtain b s1 where s1: "bread 1 n s = Ok b s1" and *: "\<forall>xs. length xs = BSIZE \<longrightarrow> (\<exists>s2 k. kseq (set_data b xs) (kseq (log_write b) (brelse b)) s1 = Ok () s2 \<and> tx_ok s2 \<and>
      t_left (txv s) \<le> k + 1 \<and> k \<le> t_left (txv s) \<and> txv s2 = (txv s)\<lparr>t_cache := (t_cache (txv s))(n := xs), t_left := k\<rparr> \<and> lgst.more s2 = lgst.more s)"
    using tx.change [OF assms(1) u(1,3) assms(3) u(2)] by blast
  show ?thesis using * [THEN spec, of "replicate BSIZE 0"] s1 by (auto simp: bzero_def kbind_def)
qed

text \<open>One round of balloc at a bitmap block: everything in it is in use, or the first free block is taken.\<close>

definition taken :: "superblock \<Rightarrow> uint \<Rightarrow> (uint \<Rightarrow> byte list) \<Rightarrow> uint \<Rightarrow> byte list" where
  "taken b a c = c(BBLOCK a b := bit_mark (unat a mod BPB) (c (BBLOCK a b)), a := replicate BSIZE 0)"

lemma balloc_body_run:
  fixes s :: "'z fsst_scheme"
  assumes "tx_ok s" "bitmap_ok (sb s) (txv s)" "card (ran (t_held (txv s))) + 1 < t_left (txv s)" "unat b = k * BPB" "b < sb_size (sb s)"
  shows "(\<exists>s'. balloc_body 1 b s = Ok (Inl (b + of_nat BPB)) s' \<and> tx_ok s' \<and> txv s' = txv s \<and> lgst.more s' = lgst.more s \<and>
      (\<forall>n < sb_size (sb s). unat n div BPB = k \<longrightarrow> blk_used (sb s) (t_cache (txv s)) n)) \<or>
    (\<exists>a s' j. balloc_body 1 b s = Ok (Inr a) s' \<and> tx_ok s' \<and> a < sb_size (sb s) \<and> unat a div BPB = k \<and> \<not> blk_used (sb s) (t_cache (txv s)) a \<and>
      (\<forall>n<a. unat n div BPB = k \<longrightarrow> blk_used (sb s) (t_cache (txv s)) n) \<and> t_left (txv s) \<le> j + 2 \<and>
      txv s' = (txv s)\<lparr>t_cache := taken (sb s) a (t_cache (txv s)), t_left := j\<rparr> \<and> lgst.more s' = lgst.more s)"
proof -
  let ?v = "txv s" and ?b = "sb s"
  let ?n = "BBLOCK b ?b"
  have sz: "sb_size ?b \<le> 0x40000000" using assms(2) by (simp add: bitmap_ok_def)
  have u: "?n < t_size ?v" "?n \<notin> t_log ?v" "?n \<notin> ran (t_held ?v)" using bitmap_okD(1) [OF assms(2,5)] by (simp_all add: usable_def)
  have l: "card (ran (t_held ?v)) < t_left ?v" using assms(3) by simp
  obtain bp s1 where s1: "bread 1 ?n s = Ok bp s1" "tx_ok s1" "t_held ?v bp = None" "txv s1 = ?v\<lparr>t_held := (t_held ?v)(bp \<mapsto> ?n)\<rparr>"
    "b_data (bufat s1 bp) = t_cache ?v ?n" "lgst.more s1 = lgst.more s" "\<exists>s2. brelse bp s1 = Ok () s2 \<and> tx_ok s2 \<and> txv s2 = ?v \<and> lgst.more s2 = lgst.more s"
    using tx.look [OF assms(1) u(1,3) l] by blast
  have b1: "sb s1 = ?b" using fsst_more_fields [OF s1(6)] by simp
  have run: "balloc_body 1 b s = (case free_bit (t_cache ?v ?n) b (sb_size ?b) of
        Some bi \<Rightarrow> kseq (set_data bp (bit_mark bi (t_cache ?v ?n))) (kseq (log_write bp) (kseq (brelse bp) (kseq (bzero 1 (b + of_nat bi)) (ret (Inr (b + of_nat bi)))))) s1
      | None \<Rightarrow> kseq (brelse bp) (ret (Inl (b + of_nat BPB))) s1)"
    using assms(5) s1(1,5) by (auto simp: balloc_body_def kstep b1 kseq_def kbind_def split: option.splits)
  have used: "blk_used ?b (t_cache ?v) n \<longleftrightarrow> bit_used (t_cache ?v ?n) (unat n mod BPB)" if "unat n div BPB = k" for n
    using that assms(4) BBLOCK_inj [of n ?b b] by (simp add: blk_used_def BPB_def BSIZE_def)
  have nk: "unat n = unat b + unat n mod BPB" if "unat n div BPB = k" for n :: uint
    using that assms(4) div_mult_mod_eq [of "unat n" BPB] by simp
  have bp: "0 < BPB" by (simp add: BPB_def BSIZE_def)
  show ?thesis
  proof (cases "free_bit (t_cache ?v ?n) b (sb_size ?b)")
    case None
    have "blk_used ?b (t_cache ?v) n" if "n < sb_size ?b" "unat n div BPB = k" for n
      using free_bit_block(2) [OF assms(4) sz assms(5), THEN iffD1, OF None, THEN spec, of "unat n mod BPB"] that used [OF that(2)] nk [OF that(2)] bp
      by (simp add: word_less_nat_alt)
    then show ?thesis using run None s1(7) by (auto simp: kseq_def kbind_def)
  next
    case (Some bi)
    let ?a = "b + of_nat bi"
    have f: "bi < BPB" "?a < sb_size ?b" "\<not> bit_used (t_cache ?v ?n) bi" "\<forall>j<bi. bit_used (t_cache ?v ?n) j"
      using free_bit_block(1) [OF assms(4) sz assms(5), THEN iffD1, OF Some] by auto
    note r = free_bit_range [OF assms(4) sz assms(5) f(1)]
    have nu: "\<not> blk_used ?b (t_cache ?v) ?a" using used [OF r(3)] f(3) r(4) by simp
    have an: "BBLOCK ?a ?b = ?n" using BBLOCK_inj [of ?a ?b b] r(3) assms(4) bp by simp
    have less: "blk_used ?b (t_cache ?v) n" if "n < ?a" "unat n div BPB = k" for n
      using used [OF that(2)] nk [OF that(2)] f(4) that(1) r(1) by (simp add: word_less_nat_alt)
    have h: "t_held (txv s1) bp = Some ?n" "?n \<notin> t_log (txv s1)" "0 < t_left (txv s1)" using s1(4) u l by simp_all
    have len: "length (bit_mark bi (t_cache ?v ?n)) = BSIZE" using tx.len [OF assms(1) u(1)] by simp
    obtain s2 j where s2: "kseq (set_data bp (bit_mark bi (t_cache ?v ?n))) (kseq (log_write bp) (brelse bp)) s1 = Ok () s2" "tx_ok s2"
      "t_left (txv s1) \<le> j + 1" "j \<le> t_left (txv s1)"
      "txv s2 = (txv s1)\<lparr>t_cache := (t_cache (txv s1))(?n := bit_mark bi (t_cache ?v ?n)), t_left := j, t_held := (t_held (txv s1))(bp := None)\<rparr>"
      "lgst.more s2 = lgst.more s1" using tx.put_back [OF s1(2) h(1,2) len h(3)] by blast
    have e: "(t_held ?v)(bp := None) = t_held ?v" using s1(3) by auto
    have v2: "txv s2 = ?v\<lparr>t_cache := (t_cache ?v)(?n := bit_mark bi (t_cache ?v ?n)), t_left := j\<rparr>" using s2(5) s1(4) e by simp
    have "usable (txv s2) ?a" using bitmap_okD(2) [OF assms(2) f(2) nu] by (simp add: v2 usable_def)
    moreover have "card (ran (t_held (txv s2))) < t_left (txv s2)" using assms(3) s2(3) s1(4) by (simp add: v2)
    ultimately obtain s3 j' where s3: "bzero 1 ?a s2 = Ok () s3" "tx_ok s3" "t_left (txv s2) \<le> j' + 1"
      "txv s3 = (txv s2)\<lparr>t_cache := (t_cache (txv s2))(?a := replicate BSIZE 0), t_left := j'\<rparr>" "lgst.more s3 = lgst.more s2"
      using bzero_run [OF s2(2)] by blast
    have "balloc_body 1 b s = Ok (Inr ?a) s3" using run Some kseq3 [OF s2(1), of "kseq (bzero 1 ?a) (ret (Inr ?a))"] s3(1) by (simp add: kseq_Ok)
    moreover have "txv s3 = ?v\<lparr>t_cache := taken ?b ?a (t_cache ?v), t_left := j'\<rparr>" using s3(4) v2 by (simp add: taken_def an r(4))
    moreover have "t_left ?v \<le> j' + 2" using s3(3) s2(3) s1(4) v2 by simp
    ultimately show ?thesis using s3(2,5) s2(6) s1(6) f(2) r(3) nu less by metis
  qed
qed


lemma balloc_run:
  fixes s :: "'z fsst_scheme"
  assumes "tx_ok s" "bitmap_ok (sb s) (txv s)" "card (ran (t_held (txv s))) + 1 < t_left (txv s)"
    and f: "f < sb_size (sb s)" "\<not> blk_used (sb s) (t_cache (txv s)) f"
  shows "\<exists>a s'. balloc 1 s = Ok a s' \<and> tx_ok s' \<and> a < sb_size (sb s) \<and> \<not> blk_used (sb s) (t_cache (txv s)) a \<and>
    (\<forall>n<a. blk_used (sb s) (t_cache (txv s)) n) \<and>
    (\<exists>j. t_left (txv s) \<le> j + 2 \<and> txv s' = (txv s)\<lparr>t_cache := taken (sb s) a (t_cache (txv s)), t_left := j\<rparr>) \<and> lgst.more s' = lgst.more s"
proof -
  let ?v = "txv s" and ?b = "sb s"
  let ?u = "blk_used ?b (t_cache ?v)"
  let ?I = "\<lambda>b t. (\<exists>k. unat b = k * BPB) \<and> b \<le> f \<and> (\<forall>n<b. ?u n) \<and> tx_ok t \<and> txv t = ?v \<and> lgst.more t = lgst.more s"
  let ?Q = "\<lambda>a t. tx_ok t \<and> a < sb_size ?b \<and> \<not> ?u a \<and> (\<forall>n<a. ?u n) \<and>
      (\<exists>j. t_left ?v \<le> j + 2 \<and> txv t = ?v\<lparr>t_cache := taken ?b a (t_cache ?v), t_left := j\<rparr>) \<and> lgst.more t = lgst.more s"
  let ?m = "\<lambda>b. unat (sb_size ?b) div BPB + 1 - unat b div BPB"
  have sz: "unat (sb_size ?b) \<le> 0x40000000" using assms(2) by (simp add: bitmap_ok_def word_le_nat_alt)
  have bp: "0 < BPB" "BPB \<le> 4096" by (simp_all add: BPB_def BSIZE_def)
  have "\<exists>a t. kloop (unat (sb_size ?b) div BPB + 2) (balloc_body 1) 0 s = Ok a t \<and> ?Q a t"
  proof (rule kloop_rule [where I = ?I and m = ?m])
    show "?I 0 s" using assms(1) by auto
    show "?m 0 < unat (sb_size ?b) div BPB + 2" by simp
    fix b t assume I: "?I b t"
    then obtain k where k: "unat b = k * BPB" by blast
    have bt: "sb t = ?b" using I fsst_more_fields [of t s] by simp
    have lt: "b < sb_size ?b" using I f(1) by auto
    have below: "?u n" if "n < b + x" "unat n div BPB = k \<longrightarrow> ?u n" "unat (b + x) \<le> unat b + BPB" for n x
    proof (cases "n < b")
      case False
      then have "unat b \<le> unat n" "unat n < unat b + BPB" using that by (simp_all add: word_less_nat_alt)
      then have "unat n div BPB = k" using k bp(1) by (simp add: div_nat_eqI mult.commute)
      then show ?thesis using that(2) by simp
    qed (use I in blast)
    consider s' where "balloc_body 1 b t = Ok (Inl (b + of_nat BPB)) s'" "tx_ok s'" "txv s' = ?v" "lgst.more s' = lgst.more s"
        "\<forall>n < sb_size ?b. unat n div BPB = k \<longrightarrow> ?u n"
      | a s' j where "balloc_body 1 b t = Ok (Inr a) s'" "tx_ok s'" "a < sb_size ?b" "unat a div BPB = k" "\<not> ?u a"
        "\<forall>n<a. unat n div BPB = k \<longrightarrow> ?u n" "t_left ?v \<le> j + 2" "txv s' = ?v\<lparr>t_cache := taken ?b a (t_cache ?v), t_left := j\<rparr>" "lgst.more s' = lgst.more s"
      using balloc_body_run [of t b k] I assms(2,3) k lt bt by auto
    then show "(\<exists>b' t'. balloc_body 1 b t = Ok (Inl b') t' \<and> ?I b' t' \<and> ?m b' < ?m b) \<or> (\<exists>a t'. balloc_body 1 b t = Ok (Inr a) t' \<and> ?Q a t')"
    proof cases
      case 1
      let ?c = "b + of_nat BPB :: uint"
      have c: "unat ?c = unat b + BPB" using sz lt bp(2) unat_add_lem [of b "of_nat BPB"] by (simp add: word_less_nat_alt unat_of_nat BPB_def BSIZE_def)
      have fc: "?c \<le> f"
      proof (rule ccontr)
        assume "\<not> ?c \<le> f"
        then have "f < ?c" by simp
        then have "?u f" using below [of f "of_nat BPB"] 1(5) f(1) c by auto
        then show False using f(2) by simp
      qed
      have "?u n" if "n < ?c" for n
      proof -
        have "n < sb_size ?b" using that fc f(1) by (meson order.strict_trans2 order.strict_trans)
        then show ?thesis using below [OF that] 1(5) c by simp
      qed
      moreover have "unat ?c = (k + 1) * BPB" using c k by simp
      moreover have "?m ?c < ?m b"
      proof -
        have "k \<le> unat (sb_size ?b) div BPB" using lt k div_le_mono [of "unat b" "unat (sb_size ?b)" BPB] bp(1) by (simp add: word_less_nat_alt)
        then show ?thesis using c k bp(1) by simp
      qed
      ultimately show ?thesis using 1 fc by blast
    next
      case 2
      have "?u n" if "n < a" for n
      proof (cases "n < b")
        case False
        then have "unat b \<le> unat n" "unat n \<le> unat a" using that by (simp_all add: word_less_nat_alt)
        then have "k \<le> unat n div BPB" "unat n div BPB \<le> k" using div_le_mono [of "unat b" "unat n" BPB] div_le_mono [of "unat n" "unat a" BPB] 2(4) k bp(1) by simp_all
        then show ?thesis using 2(6) that by simp
      qed (use I in blast)
      then show ?thesis using 2 by blast
    qed
  qed
  then show ?thesis by (simp add: balloc_def)
qed


lemma taken_used:
  assumes "bitmap_ok b v" "a < sb_size b" "\<not> blk_used b (t_cache v) a" "length (t_cache v (BBLOCK a b)) = BSIZE" "n < sb_size b"
  shows "blk_used b (taken b a (t_cache v)) n \<longleftrightarrow> n = a \<or> blk_used b (t_cache v) n"
  using bitmap_okD(3) [OF assms(1,2,3,5)] blk_used_upd(1) [of "t_cache v" a b n] assms(4) by (simp add: blk_used_def taken_def)

lemma taken_ok:
  assumes "bitmap_ok b v" "a < sb_size b" "\<not> blk_used b (t_cache v) a" "length (t_cache v (BBLOCK a b)) = BSIZE"
  shows "bitmap_ok b (v\<lparr>t_cache := taken b a (t_cache v), t_left := j\<rparr>)"
  using assms(1) taken_used [OF assms] by (auto simp: bitmap_ok_def usable_def)

text \<open>
  C25: balloc finds the first free block: the bitmap afterwards marks that block and no other, the block is
  zeroed, and apart from it and its bitmap block nothing changes.
\<close>

theorem balloc_takes_first_free:
  fixes s :: "'z fsst_scheme"
  assumes "tx_ok s" "bitmap_ok (sb s) (txv s)" "card (ran (t_held (txv s))) + 1 < t_left (txv s)"
    and "f < sb_size (sb s)" "\<not> blk_used (sb s) (t_cache (txv s)) f"
  shows "\<exists>a s'. balloc 1 s = Ok a s' \<and> tx_ok s' \<and> bitmap_ok (sb s') (txv s') \<and> lgst.more s' = lgst.more s \<and> a < sb_size (sb s) \<and>
    \<not> blk_used (sb s) (t_cache (txv s)) a \<and> (\<forall>n<a. blk_used (sb s) (t_cache (txv s)) n) \<and>
    (\<forall>n < sb_size (sb s). blk_used (sb s) (t_cache (txv s')) n \<longleftrightarrow> n = a \<or> blk_used (sb s) (t_cache (txv s)) n) \<and>
    t_cache (txv s') a = replicate BSIZE 0 \<and>
    (\<forall>n. n \<noteq> a \<and> n \<noteq> BBLOCK a (sb s) \<longrightarrow> t_cache (txv s') n = t_cache (txv s) n)"
proof -
  let ?b = "sb s" and ?v = "txv s"
  obtain a s' j where r: "balloc 1 s = Ok a s'" "tx_ok s'" "a < sb_size ?b" "\<not> blk_used ?b (t_cache ?v) a" "\<forall>n<a. blk_used ?b (t_cache ?v) n"
    "txv s' = ?v\<lparr>t_cache := taken ?b a (t_cache ?v), t_left := j\<rparr>" "lgst.more s' = lgst.more s"
    using balloc_run [OF assms] by blast
  have len: "length (t_cache ?v (BBLOCK a ?b)) = BSIZE" using tx.len [OF assms(1)] bitmap_okD(1) [OF assms(2) r(3)] by (simp add: usable_def)
  have "bitmap_ok (sb s') (txv s')" using taken_ok [OF assms(2) r(3,4) len] r(6) fsst_more_fields [OF r(7)] by simp
  then show ?thesis using r taken_used [OF assms(2) r(3,4) len] by (intro exI [of _ a] exI [of _ s']) (simp add: taken_def)
qed

subsection \<open>A disk to run on\<close>

definition boot_fs :: "(uint \<Rightarrow> byte) \<Rightarrow> 'm \<Rightarrow> 'm lgst_scheme" where
  "boot_fs d m = bcst.extend (boot_bcst\<lparr>memdisk := d\<rparr>) (lgst_ext boot_log m)"

lemma boot_fs_tx:
  assumes "\<And>i. i < 4 \<Longrightarrow> d (1024 + of_nat i) = 0"
  shows "\<exists>s. binit (boot_fs d m) = Ok () s \<and> tx_ok s \<and> t_size (txv s) = 1000 \<and> t_cache (txv s) = (\<lambda>n. if n < 1000 then dblk d n else []) \<and>
    t_held (txv s) = Map.empty \<and> t_left (txv s) = 29 \<and> t_log (txv s) = {2..32} \<and> lgst.more s = m"
proof -
  let ?s = "boot_fs d m"
  have f: "table_ok ?s" "held ?s = {}" "bufs ?s = replicate (NBUF + 1) zero_buf" "disksize ?s = 1000" "lg ?s = boot_log" "memdisk ?s = d" "lgst.more ?s = m"
    by (simp_all add: boot_fs_def boot_bcst_def boot_slst_def boot_ptab_def ptab.defs slst.defs bcst.defs lgst.defs table_ok_def NPROC_def)
  then obtain s where s: "binit ?s = Ok () s" "bc s" "v_pin (view s) = {}" "v_held (view s) = Map.empty"
    "memdisk s = d" "disksize s = 1000" "\<forall>b<NBUF. \<not> b_valid (bufat s b)" "bcst.more s = bcst.more ?s"
    using binit_ok [of ?s] by auto
  have l: "lg s = boot_log" using lgst_more_fields [OF s(8)] f(5) by simp
  have "v_disk (view s) 2 = dblk d 2" using s(5,6) by (simp add: view_def)
  then have "head_n (v_disk (view s) 2) = 0"
    using assms [of 0] assms [of 1] assms [of 2] assms [of 3] by (simp add: head_n_def rd32_def BSIZE_def dblk_def get_bytes_def)
  moreover have n: "ntx boot_log = 0" by (simp add: ntx_def boot_log_def)
  moreover have "log_at boot_log (view s)" using s(6) by (simp add: log_at_def boot_log_def LOGSIZE_def MAXOPBLOCKS_def)
  ultimately have "in_tx s" using s(2,3) by (simp add: in_tx_def l homes_ok_def boot_log_def)
  then have "tx_ok s" using s(4) by (simp add: tx_ok_def l boot_log_def)
  moreover have "t_cache (txv s) = (\<lambda>n. if n < 1000 then dblk d n else [])"
  proof
    fix k :: uint
    have "v_cache (view s) k = v_disk (view s) k" if "k < 1000" by (rule bs.clean [OF s(2)]) (use s(3,4,6) that in simp_all)
    then show "t_cache (txv s) k = (if k < 1000 then dblk d k else [])" using s(5,6) by (auto simp: txv_def view_def)
  qed
  moreover have "t_log (txv s) = {2..32}"
    by (auto simp: txv_def l in_log_def boot_log_def LOGSIZE_def MAXOPBLOCKS_def word_le_nat_alt)
  ultimately show ?thesis using s(1,4,6) l lgst_more_bcst [OF s(8)] f(7) n
    by (auto simp: txv_def tx_lim_def boot_log_def LOGSIZE_def MAXOPBLOCKS_def)
qed


text \<open>A disk given block by block, and a small file system: a root directory with one file.\<close>

definition disk_of :: "(nat \<Rightarrow> byte list) \<Rightarrow> uint \<Rightarrow> byte" where
  "disk_of bl a = bl (unat a div BSIZE) ! (unat a mod BSIZE)"

lemma dblk_disk_of:
  assumes "length (bl (unat n)) = BSIZE" "n < 1000"
  shows "dblk (disk_of bl) n = bl (unat n)"
proof (rule nth_equalityI)
  fix i assume "i < length (dblk (disk_of bl) n)"
  then have i: "i < BSIZE" by simp
  have "unat n * BSIZE + i < 2 ^ 32" using assms(2) i by (simp add: word_less_nat_alt BSIZE_def)
  then have "unat (of_nat (unat n * BSIZE + i) :: uint) = unat n * BSIZE + i" by (simp add: unat_of_nat del: of_nat_add of_nat_mult)
  then have "unat (n * of_nat BSIZE + of_nat i) = unat n * BSIZE + i" by simp
  then show "dblk (disk_of bl) n ! i = bl (unat n) ! i" using i by (simp add: dblk_def get_bytes_def disk_of_def)
qed (use assms in simp)

definition tsb :: superblock where
  "tsb = \<lparr>sb_size = 1000, sb_nblocks = 941, sb_ninodes = 200, sb_nlog = 30, sb_logstart = 2, sb_inodestart = 33, sb_bmapstart = 58\<rparr>"

definition troot :: dinode where
  "troot = \<lparr>d_type = T_DIR, d_major = 0, d_minor = 0, d_nlink = 1, d_size = 32, d_addrs = 60 # replicate NDIRECT 0\<rparr>"

definition tfile :: dinode where
  "tfile = \<lparr>d_type = T_FILE, d_major = 0, d_minor = 0, d_nlink = 1, d_size = 5, d_addrs = 61 # replicate NDIRECT 0\<rparr>"

definition tentry :: "ushort \<Rightarrow> string \<Rightarrow> byte list" where
  "tentry i n = wr16 0 i (0 # 0 # str n @ replicate (DIRSIZ - length n) 0)"

definition tblk :: "nat \<Rightarrow> byte list" where
  "tblk n = (if n = 1 then wr32s 0 [1000, 941, 200, 30, 2, 33, 58] (replicate BSIZE 0)
     else if n = 33 then put_dinode 128 tfile (put_dinode 64 troot (replicate BSIZE 0))
     else if n = 58 then replicate 8 (- 1) @ replicate 504 0
     else if n = 60 then tentry 1 ''.'' @ tentry 2 ''README'' @ replicate 480 0
     else if n = 61 then str ''hello'' @ replicate 507 0
     else replicate BSIZE 0)"

lemma length_tblk [simp]: "length (tblk n) = BSIZE"
  by (simp add: tblk_def put_dinode_def tentry_def str_def BSIZE_def DIRSIZ_def)

lemma get_tsb: "get_sb (tblk 1) = tsb"
  by (simp add: get_sb_def tblk_def tsb_def BSIZE_def rd32_other)

lemma boot_tfs:
  "\<exists>s :: fsst. tx_ok s \<and> t_size (txv s) = 1000 \<and> t_cache (txv s) = (\<lambda>n. if n < 1000 then tblk (unat n) else []) \<and> t_held (txv s) = Map.empty \<and>
    t_left (txv s) = 29 \<and> t_log (txv s) = {2..32} \<and> sb s = tsb \<and> inodes s = ins \<and> bitmap_ok (sb s) (txv s)"
proof -
  let ?d = "disk_of tblk"
  have d: "?d (1024 + of_nat i) = 0" if "i < 4" for i
  proof -
    have "unat (of_nat (1024 + i) :: uint) = 1024 + i" using that by (simp add: unat_of_nat del: of_nat_add)
    moreover have "(1024 + i) div 512 = 2" "(1024 + i) mod 512 = i" using that by (simp_all add: div_nat_eqI mod_nat_eqI)
    ultimately show ?thesis using that by (simp add: disk_of_def BSIZE_def tblk_def)
  qed
  obtain s :: fsst where s: "tx_ok s" "t_size (txv s) = 1000" "t_cache (txv s) = (\<lambda>n. if n < 1000 then dblk ?d n else [])" "t_held (txv s) = Map.empty"
    "t_left (txv s) = 29" "t_log (txv s) = {2..32}" "lgst.more s = fsst.fields ins tsb"
    using boot_fs_tx [of ?d "fsst.fields ins tsb"] d by blast
  have f: "sb s = tsb" "inodes s = ins" using s(7) by (cases s; simp add: fsst.defs)+
  have c: "t_cache (txv s) = (\<lambda>n. if n < 1000 then tblk (unat n) else [])" unfolding s(3) by (rule ext) (simp add: dblk_disk_of)
  have bb: "BBLOCK n tsb = 58" if "n < 1000" for n
    using that by (simp add: BBLOCK_nat tsb_def word_less_nat_alt BPB_def BSIZE_def)
  have "64 \<le> n" if "n < 1000" "\<not> blk_used tsb (t_cache (txv s)) n" for n
  proof (rule ccontr)
    assume "\<not> 64 \<le> n"
    then have "unat n < 64" by (simp add: word_le_nat_alt)
    then have "unat n div 8 < 8" "unat n mod 4096 = unat n" by auto
    then have "bit_used (tblk 58) (unat n mod BPB)" by (simp add: bit_used_bit tblk_def nth_append BPB_def BSIZE_def)
    then show False using that by (simp add: blk_used_def bb c)
  qed
  moreover have "usable (txv s) n" "n \<noteq> 58" if "n < 1000" "64 \<le> n" for n
    using that by (auto simp: usable_def s(2,4,6) word_le_nat_alt)
  moreover have "usable (txv s) 58" by (simp add: usable_def s(2,4,6))
  moreover have "sb_size tsb = 1000" by (simp add: tsb_def)
  ultimately have "bitmap_ok (sb s) (txv s)"
    unfolding bitmap_ok_def f(1) by (simp add: bb)
  then show ?thesis using s f c by auto
qed

theorem balloc_takes_first_free_witness:
  "\<exists>(s :: fsst) a s'. bitmap_ok (sb s) (txv s) \<and> balloc 1 s = Ok a s' \<and> t_cache (txv s') a = replicate BSIZE 0"
proof -
  obtain s :: fsst where s: "tx_ok s" "t_cache (txv s) = (\<lambda>n. if n < 1000 then tblk (unat n) else [])" "t_held (txv s) = Map.empty"
    "t_left (txv s) = 29" "sb s = tsb" "bitmap_ok (sb s) (txv s)" using boot_tfs by blast
  have "\<not> blk_used (sb s) (t_cache (txv s)) 64"
    by (simp add: blk_used_def s(2,5) BBLOCK_nat tsb_def BPB_def BSIZE_def bit_used_bit tblk_def nth_append)
  moreover have "64 < sb_size (sb s)" by (simp add: s(5) tsb_def)
  moreover have "card (ran (t_held (txv s))) + 1 < t_left (txv s)" by (simp add: s(3,4))
  ultimately show ?thesis using balloc_takes_first_free [OF s(1,6)] s(6) by blast
qed

end
