(* ===== verification/Pipe.thy ===== *)
theory Pipe
  imports Fs_Props
begin

text \<open>
  pipe.c: a ring buffer of PIPESIZE bytes with free-running 32-bit counters, shared by readers and writers
  that sleep when it is empty or full. \<open>pipes\<close> is the store of pipes by address (a page of kalloc). A copy
  loop runs until it returns or is about to sleep; what follows the sleep is the \<open>_resume\<close> half. Bytes
  written are the list at the source address; a read returns the bytes it stores.
\<close>

definition PIPESIZE :: nat where "PIPESIZE = 512"

record pipe =
  pp_data :: "byte list"
  pp_nread :: uint
  pp_nwrite :: uint
  pp_readopen :: bool
  pp_writeopen :: bool

record pipst = fsst +
  pipes :: "uint \<Rightarrow> pipe"

abbreviation pipelk :: "uint \<Rightarrow> lockid" where
  "pipelk p \<equiv> PipeLock (unat p)"

definition updpp :: "uint \<Rightarrow> (pipe \<Rightarrow> pipe) \<Rightarrow> ('z pipst_scheme, unit) kern" where
  "updpp p f = modify (\<lambda>s. s\<lparr>pipes := (pipes s)(p := f (pipes s p))\<rparr>)"

definition pp_full :: "pipe \<Rightarrow> bool" where
  "pp_full p \<longleftrightarrow> pp_nwrite p = pp_nread p + of_nat PIPESIZE"

definition pp_empty :: "pipe \<Rightarrow> bool" where
  "pp_empty p \<longleftrightarrow> pp_nread p = pp_nwrite p"

text \<open>\<^verbatim>\<open>p->data[p->nwrite++ % PIPESIZE] = c\<close> and \<^verbatim>\<open>p->data[p->nread++ % PIPESIZE]\<close>.\<close>

definition pp_put :: "byte \<Rightarrow> pipe \<Rightarrow> pipe" where
  "pp_put c p = p\<lparr>pp_data := (pp_data p)[unat (pp_nwrite p) mod PIPESIZE := c], pp_nwrite := pp_nwrite p + 1\<rparr>"

definition pp_get :: "pipe \<Rightarrow> byte" where
  "pp_get p = pp_data p ! (unat (pp_nread p) mod PIPESIZE)"

definition pp_next :: "pipe \<Rightarrow> pipe" where
  "pp_next p = p\<lparr>pp_nread := pp_nread p + 1\<rparr>"

definition pipeclose :: "uint \<Rightarrow> bool \<Rightarrow> ('z pipst_scheme, unit) kern" where
  "pipeclose p writable =
     kseq (acquire (pipelk p))
     (kseq (if writable
            then kseq (updpp p (pp_writeopen_update (\<lambda>_. False))) (wakeup (ChPipeR p))
            else kseq (updpp p (pp_readopen_update (\<lambda>_. False))) (wakeup (ChPipeW p)))
     (kif (\<lambda>s. \<not> pp_readopen (pipes s p) \<and> \<not> pp_writeopen (pipes s p))
        (kseq (release (pipelk p)) (kfree p))
        (release (pipelk p))))"

text \<open>
  The loop of pipewrite, with \<^verbatim>\<open>i\<close> as its state: it ends with \<^verbatim>\<open>i\<close> and the value returned, or \<open>None\<close> when it
  is about to sleep.
\<close>

definition pipewrite_body :: "uint \<Rightarrow> byte list \<Rightarrow> nat \<Rightarrow> ('z pipst_scheme, nat + nat \<times> cint option) kern" where
  "pipewrite_body p xs i =
     (if \<not> i < length xs then
        kseq (wakeup (ChPipeR p)) (kseq (release (pipelk p)) (ret (Inr (i, Some (of_nat (length xs))))))
      else
        kif (\<lambda>s. pp_full (pipes s p))
          (kif (\<lambda>s. \<not> pp_readopen (pipes s p) \<or> p_killed (proc_at s (curproc s)))
             (kseq (release (pipelk p)) (ret (Inr (i, Some (- 1)))))
             (kseq (wakeup (ChPipeR p)) (ret (Inr (i, None)))))
          (kseq (updpp p (pp_put (xs ! i))) (ret (Inl (i + 1)))))"

definition pipewrite_scan :: "uint \<Rightarrow> byte list \<Rightarrow> nat \<Rightarrow> ('z pipst_scheme, nat \<times> cint option) kern" where
  "pipewrite_scan p xs i = kloop (length xs + 1) (pipewrite_body p xs) i"

definition pipe_end :: "chan \<Rightarrow> uint \<Rightarrow> cint option \<Rightarrow> ('z pipst_scheme, cint) kern" where
  "pipe_end cn p r = (case r of Some x \<Rightarrow> ret x | None \<Rightarrow> kseq (sleep cn (Some (pipelk p))) (ret 0))"

definition pipewrite :: "uint \<Rightarrow> byte list \<Rightarrow> ('z pipst_scheme, cint) kern" where
  "pipewrite p xs =
     kseq (acquire (pipelk p))
     (kbind (pipewrite_scan p xs 0) (\<lambda>(i, r). pipe_end (ChPipeW p) p r))"

definition pipewrite_resume :: "uint \<Rightarrow> byte list \<Rightarrow> nat \<Rightarrow> ('z pipst_scheme, cint) kern" where
  "pipewrite_resume p xs i =
     kseq (sleep_exit (Some (pipelk p)))
     (kbind (pipewrite_scan p xs i) (\<lambda>(i, r). pipe_end (ChPipeW p) p r))"

definition piperead_body :: "uint \<Rightarrow> nat \<Rightarrow> byte list \<Rightarrow> ('z pipst_scheme, byte list + byte list) kern" where
  "piperead_body p n acc =
     (if \<not> length acc < n then ret (Inr acc)
      else
        kif (\<lambda>s. pp_empty (pipes s p)) (ret (Inr acc))
          (kbind (gets (\<lambda>s. pp_get (pipes s p))) (\<lambda>c.
           kseq (updpp p pp_next) (ret (Inl (acc @ [c]))))))"

text \<open>piperead from the test of its first loop on: the bytes copied and the value returned, or \<open>None\<close> before a sleep.\<close>

definition piperead_scan :: "uint \<Rightarrow> cint \<Rightarrow> ('z pipst_scheme, byte list \<times> cint option) kern" where
  "piperead_scan p n =
     kif (\<lambda>s. pp_empty (pipes s p) \<and> pp_writeopen (pipes s p))
       (kif (\<lambda>s. p_killed (proc_at s (curproc s)))
          (kseq (release (pipelk p)) (ret ([], Some (- 1))))
          (ret ([], None)))
       (kbind (kloop (nat (sint n) + 1) (piperead_body p (nat (sint n))) []) (\<lambda>xs.
        kseq (wakeup (ChPipeW p))
        (kseq (release (pipelk p))
              (ret (xs, Some (of_nat (length xs)))))))"

definition piperead :: "uint \<Rightarrow> cint \<Rightarrow> ('z pipst_scheme, cint \<times> byte list) kern" where
  "piperead p n =
     kseq (acquire (pipelk p))
     (kbind (piperead_scan p n) (\<lambda>(xs, r). kbind (pipe_end (ChPipeR p) p r) (\<lambda>x. ret (x, xs))))"

definition piperead_resume :: "uint \<Rightarrow> cint \<Rightarrow> ('z pipst_scheme, cint \<times> byte list) kern" where
  "piperead_resume p n =
     kseq (sleep_exit (Some (pipelk p)))
     (kbind (piperead_scan p n) (\<lambda>(xs, r). kbind (pipe_end (ChPipeR p) p r) (\<lambda>x. ret (x, xs))))"

subsection \<open>Queues\<close>

text \<open>A bounded first-in first-out queue, and what any mixture of its operations does.\<close>

datatype qop = Put byte | Get

locale fifo =
  fixes put :: "byte \<Rightarrow> 'q \<Rightarrow> 'q"
    and get :: "'q \<Rightarrow> byte"
    and nxt :: "'q \<Rightarrow> 'q"
    and full empty ok :: "'q \<Rightarrow> bool"
    and items :: "'q \<Rightarrow> byte list"
    and cap :: nat
  assumes put_ok: "ok q \<Longrightarrow> \<not> full q \<Longrightarrow> ok (put c q)"
    and put_items: "ok q \<Longrightarrow> \<not> full q \<Longrightarrow> items (put c q) = items q @ [c]"
    and get_ok: "ok q \<Longrightarrow> \<not> empty q \<Longrightarrow> ok (nxt q)"
    and get_items: "ok q \<Longrightarrow> \<not> empty q \<Longrightarrow> items q = get q # items (nxt q)"
    and empty_iff: "ok q \<Longrightarrow> empty q \<longleftrightarrow> items q = []"
    and full_iff: "ok q \<Longrightarrow> full q \<longleftrightarrow> length (items q) = cap"
    and room: "ok q \<Longrightarrow> length (items q) \<le> cap"
begin

text \<open>Putting a list in and taking \<open>n\<close> items out.\<close>

lemma puts:
  assumes "ok q" "length (items q) + length cs \<le> cap"
  shows "ok (fold put cs q) \<and> items (fold put cs q) = items q @ cs"
  using assms
proof (induction cs arbitrary: q)
  case (Cons c cs)
  then have "\<not> full q" using full_iff [of q] by auto
  then show ?case using Cons.IH [of "put c q"] Cons.prems put_ok [of q c] put_items [of q c] by simp
qed simp

lemma gets_n:
  assumes "ok q" "n \<le> length (items q)"
  shows "ok ((nxt ^^ n) q) \<and> items ((nxt ^^ n) q) = drop n (items q)"
  using assms
proof (induction n)
  case (Suc n)
  then have h: "ok ((nxt ^^ n) q)" "items ((nxt ^^ n) q) = drop n (items q)" by auto
  then have ne: "\<not> empty ((nxt ^^ n) q)" using empty_iff [OF h(1)] Suc.prems(2) by auto
  have "drop (Suc n) (items q) = tl (drop n (items q))" by (simp add: drop_Suc tl_drop)
  then show ?case using get_ok [OF h(1) ne] get_items [OF h(1) ne] h(2) by simp
qed simp

fun perform :: "qop list \<Rightarrow> 'q \<Rightarrow> byte list \<Rightarrow> byte list \<Rightarrow> 'q \<times> byte list \<times> byte list" where
  "perform [] q i o1 = (q, i, o1)"
| "perform (Put c # xs) q i o1 = (if full q then perform xs q i o1 else perform xs (put c q) (i @ [c]) o1)"
| "perform (Get # xs) q i o1 = (if empty q then perform xs q i o1 else perform xs (nxt q) i (o1 @ [get q]))"

text \<open>What came out, followed by what is still in the queue, is what went in.\<close>

lemma history:
  assumes "ok q" "o1 @ items q = i" "perform xs q i o1 = (q', i', o')"
  shows "ok q' \<and> o' @ items q' = i'"
  using assms
proof (induction xs q i o1 rule: perform.induct)
  case (2 c xs q i o1)
  then show ?case using put_ok [of q c] put_items [of q c] by (cases "full q") auto
next
  case (3 xs q i o1)
  then show ?case using get_ok [of q] get_items [of q] by (cases "empty q") auto
qed simp

end


subsection \<open>The ring buffer is a queue\<close>

definition pp_count :: "pipe \<Rightarrow> nat" where
  "pp_count p = unat (pp_nwrite p - pp_nread p)"

definition pp_ok :: "pipe \<Rightarrow> bool" where
  "pp_ok p \<longleftrightarrow> length (pp_data p) = PIPESIZE \<and> pp_count p \<le> PIPESIZE"

definition pp_items :: "pipe \<Rightarrow> byte list" where
  "pp_items p = map (\<lambda>k. pp_data p ! ((unat (pp_nread p) + k) mod PIPESIZE)) [0..<pp_count p]"

text \<open>The counters wrap at \<open>2 ^ 32\<close>, a multiple of the size of the buffer.\<close>

lemma PIPESIZE_dvd: "PIPESIZE dvd 2 ^ 32"
  by (simp add: PIPESIZE_def dvd_def)

lemma nwrite_count: "unat (pp_nwrite p) mod PIPESIZE = (unat (pp_nread p) + pp_count p) mod PIPESIZE"
  using ring_index [OF PIPESIZE_dvd, of "pp_nread p" "pp_count p"] by (simp add: pp_count_def)

lemma pp_full_count: "pp_full p \<longleftrightarrow> pp_count p = PIPESIZE"
proof -
  have "pp_full p \<longleftrightarrow> pp_nwrite p - pp_nread p = of_nat PIPESIZE" by (auto simp: pp_full_def algebra_simps)
  also have "\<dots> \<longleftrightarrow> pp_count p = unat (of_nat PIPESIZE :: uint)" by (simp add: pp_count_def word_unat_eq_iff)
  finally show ?thesis by (simp add: unat_of_nat PIPESIZE_def)
qed

lemma pp_count_put: "pp_count p \<le> PIPESIZE \<Longrightarrow> \<not> pp_full p \<Longrightarrow> pp_count (pp_put c p) = Suc (pp_count p)"
proof -
  assume a: "pp_count p \<le> PIPESIZE" "\<not> pp_full p"
  have "unat (pp_nwrite p - pp_nread p + 1) = unat (pp_nwrite p - pp_nread p) + 1"
    using a unat_add_lem [of "pp_nwrite p - pp_nread p" 1] by (simp add: pp_full_count pp_count_def PIPESIZE_def)
  then show ?thesis by (simp add: pp_count_def pp_put_def algebra_simps)
qed

lemma pp_count_next: "\<not> pp_empty p \<Longrightarrow> Suc (pp_count (pp_next p)) = pp_count p"
proof -
  assume a: "\<not> pp_empty p"
  then have "pp_nwrite p - pp_nread p \<noteq> 0" by (auto simp: pp_empty_def)
  then have "Suc (unat (pp_nwrite p - pp_nread p - 1)) = unat (pp_nwrite p - pp_nread p)" by (simp add: unat_minus_one unat_gt_0)
  then show ?thesis by (simp add: pp_count_def pp_next_def algebra_simps)
qed

interpretation pq: fifo pp_put pp_get pp_next pp_full pp_empty pp_ok pp_items PIPESIZE
proof
  fix q c assume q: "pp_ok q" "\<not> pp_full q"
  then have n: "pp_count q < PIPESIZE" by (auto simp: pp_ok_def pp_full_count)
  have c: "pp_count (pp_put c q) = Suc (pp_count q)" using q by (simp add: pp_count_put pp_ok_def)
  show "pp_ok (pp_put c q)" using q n c by (simp add: pp_ok_def) (simp add: pp_put_def)
  have "pp_data (pp_put c q) ! ((unat (pp_nread q) + k) mod PIPESIZE) = pp_data q ! ((unat (pp_nread q) + k) mod PIPESIZE)" if "k < pp_count q" for k
    using mod_window [OF that n, of "unat (pp_nread q)"] nwrite_count [of q] by (simp add: pp_put_def)
  moreover have "pp_data (pp_put c q) ! ((unat (pp_nread q) + pp_count q) mod PIPESIZE) = c"
    using q(1) nwrite_count [of q] by (simp add: pp_put_def pp_ok_def PIPESIZE_def)
  moreover have "pp_nread (pp_put c q) = pp_nread q" by (simp add: pp_put_def)
  ultimately show "pp_items (pp_put c q) = pp_items q @ [c]" by (simp add: pp_items_def c)
next
  fix q assume q: "pp_ok q" "\<not> pp_empty q"
  note c = pp_count_next [OF q(2)]
  show "pp_ok (pp_next q)" using q c by (simp add: pp_ok_def) (simp add: pp_next_def)
  have "[0..<pp_count q] = 0 # map Suc [0..<pp_count (pp_next q)]" by (simp add: c [symmetric] upt_conv_Cons map_Suc_upt del: upt_Suc)
  moreover have "(unat (pp_nread (pp_next q)) + k) mod PIPESIZE = (unat (pp_nread q) + Suc k) mod PIPESIZE" for k
    using ring_index [OF PIPESIZE_dvd, of "pp_nread q" 1] by (simp add: pp_next_def) (metis add_Suc_right add_Suc mod_add_left_eq)
  ultimately show "pp_items q = pp_get q # pp_items (pp_next q)"
    by (simp add: pp_items_def pp_get_def o_def) (simp add: pp_next_def)
next
  fix q assume q: "pp_ok q"
  have "pp_empty q \<longleftrightarrow> pp_nwrite q - pp_nread q = 0" by (auto simp: pp_empty_def)
  then show "pp_empty q \<longleftrightarrow> pp_items q = []" by (simp add: pp_items_def pp_count_def unat_eq_zero)
  show "pp_full q \<longleftrightarrow> length (pp_items q) = PIPESIZE" by (simp add: pp_full_count pp_items_def)
  show "length (pp_items q) \<le> PIPESIZE" using q by (simp add: pp_items_def pp_ok_def)
qed


subsection \<open>Whole calls\<close>

lemma updpp_run [kstep]: "updpp p f s = Ok () (s\<lparr>pipes := (pipes s)(p := f (pipes s p))\<rparr>)"
  by (simp add: updpp_def)

lemma pipst_simps [simp]:
  "table_ok (s\<lparr>pipes := x\<rparr>) = table_ok s" "curproc (s\<lparr>pipes := x\<rparr>) = curproc s" "proc_at (s\<lparr>pipes := x\<rparr>) i = proc_at s i"
  by (simp_all add: table_ok_def curproc_def myproc_def proc_at_def)

text \<open>How far a writer with \<open>n\<close> bytes left gets.\<close>

definition fits :: "pipe \<Rightarrow> nat \<Rightarrow> nat" where
  "fits q n = min n (PIPESIZE - length (pp_items q))"

lemma pipewrite_loop:
  assumes "pp_ok (pipes s p)" "pipelk p \<in> held s" "PtableLock \<notin> held s" "table_ok s" "i \<le> length xs" "length xs - i < m"
  defines "q \<equiv> pipes s p"
  defines "k \<equiv> fits q (length xs - i)"
  defines "s1 \<equiv> s\<lparr>pipes := (pipes s)(p := fold pp_put (take k (drop i xs)) q)\<rparr>"
  shows "kloop m (pipewrite_body p xs) i s =
    (if i + k = length xs then Ok (length xs, Some (of_nat (length xs))) (s1\<lparr>procs := map (wake (ChPipeR p)) (procs s), held := held s - {pipelk p}\<rparr>)
     else if \<not> pp_readopen q \<or> p_killed (proc_at s (curproc s)) then Ok (i + k, Some (- 1)) (s1\<lparr>held := held s - {pipelk p}\<rparr>)
     else Ok (i + k, None) (s1\<lparr>procs := map (wake (ChPipeR p)) (procs s)\<rparr>))"
  using assms(1-6) unfolding q_def k_def s1_def
proof (induction m arbitrary: i s)
  case (Suc m)
  show ?case
  proof (cases "i < length xs \<and> \<not> pp_full (pipes s p)")
    case True
    let ?q = "pipes s p" and ?s = "s\<lparr>pipes := (pipes s)(p := pp_put (xs ! i) (pipes s p))\<rparr>"
    have ok: "pp_ok (pp_put (xs ! i) ?q)" "pp_items (pp_put (xs ! i) ?q) = pp_items ?q @ [xs ! i]"
      using True Suc.prems(1) pq.put_ok pq.put_items by auto
    have l: "length (pp_items ?q) < PIPESIZE" using True pq.full_iff [OF Suc.prems(1)] pq.room [OF Suc.prems(1)] by linarith
    have f: "fits ?q (length xs - i) = Suc (fits (pp_put (xs ! i) ?q) (length xs - Suc i))"
      using l True by (simp add: fits_def ok(2)) arith
    have d: "drop i xs = xs ! i # drop (Suc i) xs" using True by (simp add: Cons_nth_drop_Suc)
    have r: "pp_readopen (pp_put (xs ! i) ?q) = pp_readopen ?q" by (simp add: pp_put_def)
    have "kloop (Suc m) (pipewrite_body p xs) i s = kloop m (pipewrite_body p xs) (Suc i) ?s"
      by (rule kloop_next) (use True in \<open>simp add: pipewrite_body_def kstep\<close>)
    moreover have "length xs - Suc i < m" using Suc.prems(6) True by linarith
    ultimately show ?thesis using Suc.IH [of ?s "Suc i"] Suc.prems(2-5) True ok(1) by (simp add: f d r del: kloop.simps cong: if_cong)
  next
    case False
    then consider "i = length xs" | "i < length xs" "pp_full (pipes s p)" using Suc.prems(5) by linarith
    then show ?thesis
    proof cases
      case 1
      then have "pipewrite_body p xs i s = Ok (Inr (length xs, Some (of_nat (length xs)))) (s\<lparr>procs := map (wake (ChPipeR p)) (procs s), held := held s - {pipelk p}\<rparr>)"
        using Suc.prems(2-4) by (simp add: kstep pipewrite_body_def)
      then show ?thesis using 1 kloop_done [of "pipewrite_body p xs" i s _ _ "Suc m"] by (simp add: fits_def del: kloop.simps)
    next
      case 2
      then have "fits (pipes s p) (length xs - i) = 0" using pq.full_iff [OF Suc.prems(1)] by (simp add: fits_def)
      moreover have "pipewrite_body p xs i s =
          (if \<not> pp_readopen (pipes s p) \<or> p_killed (proc_at s (curproc s)) then Ok (Inr (i, Some (- 1))) (s\<lparr>held := held s - {pipelk p}\<rparr>)
           else Ok (Inr (i, None)) (s\<lparr>procs := map (wake (ChPipeR p)) (procs s)\<rparr>))"
        using Suc.prems(2-4) 2 by (simp add: kstep pipewrite_body_def)
      ultimately show ?thesis
        using 2(1) kloop_done [of "pipewrite_body p xs" i s] by (simp del: kloop.simps split: if_splits)
    qed
  qed
qed simp


lemma piperead_loop:
  assumes "pp_ok (pipes s p)" "n - length acc < m"
  defines "q \<equiv> pipes s p"
  defines "k \<equiv> min (n - length acc) (length (pp_items q))"
  shows "kloop m (piperead_body p n) acc s = Ok (acc @ take k (pp_items q)) (s\<lparr>pipes := (pipes s)(p := (pp_next ^^ k) q)\<rparr>)"
  using assms(1,2) unfolding q_def k_def
proof (induction m arbitrary: acc s)
  case (Suc m)
  let ?q = "pipes s p"
  show ?case
  proof (cases "length acc < n \<and> \<not> pp_empty ?q")
    case True
    let ?s = "s\<lparr>pipes := (pipes s)(p := pp_next ?q)\<rparr>"
    have i: "pp_ok (pp_next ?q)" "pp_items ?q = pp_get ?q # pp_items (pp_next ?q)"
      using True Suc.prems(1) pq.get_ok pq.get_items by auto
    have k: "min (n - length acc) (length (pp_items ?q)) = Suc (min (n - Suc (length acc)) (length (pp_items (pp_next ?q))))"
      using True by (simp add: i(2)) arith
    have "kloop (Suc m) (piperead_body p n) acc s = kloop m (piperead_body p n) (acc @ [pp_get ?q]) ?s"
      by (rule kloop_next) (use True in \<open>simp add: piperead_body_def kstep\<close>)
    moreover have "n - length (acc @ [pp_get ?q]) < m" using Suc.prems(2) True by (simp, linarith)
    moreover have "take (Suc k) (pp_items ?q) = pp_get ?q # take k (pp_items (pp_next ?q))" for k by (simp add: i(2))
    moreover have "(pp_next ^^ Suc k) ?q = (pp_next ^^ k) (pp_next ?q)" for k by (simp add: funpow_Suc_right del: funpow.simps)
    ultimately show ?thesis using Suc.IH [of ?s "acc @ [pp_get ?q]"] i(1) by (simp add: k del: kloop.simps funpow.simps cong: if_cong)
  next
    case False
    then have "piperead_body p n acc s = Ok (Inr acc) s" by (auto simp: piperead_body_def kstep)
    moreover have "min (n - length acc) (length (pp_items ?q)) = 0" using False pq.empty_iff [OF Suc.prems(1)] by auto
    ultimately show ?thesis using kloop_done [of "piperead_body p n" acc s _ _ "Suc m"] by (simp del: kloop.simps)
  qed
qed simp

text \<open>
  What a writer that has written \<open>i\<close> of its bytes does once it has the lock, and what a reader does: the
  lock is free again at the end, or the process sleeps.
\<close>

definition write_spec :: "uint \<Rightarrow> byte list \<Rightarrow> nat \<Rightarrow> nat \<Rightarrow> 'z pipst_scheme \<Rightarrow> (cint, 'z pipst_scheme) outcome" where
  "write_spec p xs i me s =
    (let q = pipes s p; k = fits q (length xs - i);
         s1 = s\<lparr>pipes := (pipes s)(p := fold pp_put (take k (drop i xs)) q)\<rparr> in
     if i + k = length xs then Ok (of_nat (length xs)) (s1\<lparr>procs := map (wake (ChPipeR p)) (procs s), held := {}\<rparr>)
     else if \<not> pp_readopen q \<or> p_killed (proc_at s me) then Ok (- 1) (s1\<lparr>held := {}\<rparr>)
     else Sched (s1\<lparr>procs := upd_nth me (asleep (ChPipeW p)) (map (wake (ChPipeR p)) (procs s)), held := {PtableLock}\<rparr>))"

definition read_spec :: "uint \<Rightarrow> nat \<Rightarrow> nat \<Rightarrow> 'z pipst_scheme \<Rightarrow> (cint \<times> byte list, 'z pipst_scheme) outcome" where
  "read_spec p n me s =
    (let q = pipes s p; k = min n (length (pp_items q)) in
     if pp_items q = [] \<and> pp_writeopen q
     then if p_killed (proc_at s me) then Ok (- 1, []) (s\<lparr>held := {}\<rparr>)
          else Sched (s\<lparr>procs := upd_nth me (asleep (ChPipeR p)) (procs s), held := {PtableLock}\<rparr>)
     else Ok (of_nat k, take k (pp_items q))
            (s\<lparr>pipes := (pipes s)(p := (pp_next ^^ k) q), procs := map (wake (ChPipeW p)) (procs s), held := {}\<rparr>))"

lemma write_locked:
  assumes "pp_ok (pipes s p)" "table_ok s" "runs s me" "held s = {pipelk p}" "i \<le> length xs"
  shows "kbind (pipewrite_scan p xs i) (\<lambda>(i, r). pipe_end (ChPipeW p) p r) s = write_spec p xs i me (s\<lparr>held := h\<rparr>)"
proof -
  let ?k = "fits (pipes s p) (length xs - i)"
  let ?t = "s\<lparr>pipes := (pipes s)(p := fold pp_put (take ?k (drop i xs)) (pipes s p)), procs := map (wake (ChPipeR p)) (procs s)\<rparr>"
  have me: "curproc s = me" "runs ?t me" using assms(3) by (simp_all add: runs_def curproc_def myproc_def)
  have "sleep (ChPipeW p) (Some (pipelk p)) ?t = Sched (?t\<lparr>held := {PtableLock}, procs := upd_nth me (asleep (ChPipeW p)) (procs ?t)\<rparr>)"
    by (rule sleep_run [OF me(2)]) (simp add: assms(4))
  then have "kseq (sleep (ChPipeW p) (Some (pipelk p))) (ret (0 :: cint)) ?t =
      Sched (s\<lparr>pipes := (pipes s)(p := fold pp_put (take ?k (drop i xs)) (pipes s p)), procs := upd_nth me (asleep (ChPipeW p)) (map (wake (ChPipeR p)) (procs s)), held := {PtableLock}\<rparr>)"
    by (simp add: kseq_Sched)
  then show ?thesis
    using pipewrite_loop [OF assms(1) _ _ assms(2,5), of "length xs + 1"] assms(4) me(1)
    by (simp add: pipewrite_scan_def kbind_def pipe_end_def write_spec_def Let_def proc_at_def)
qed

lemma read_locked:
  assumes "pp_ok (pipes s p)" "table_ok s" "runs s me" "held s = {pipelk p}"
  shows "kbind (piperead_scan p n) (\<lambda>(xs, r). kbind (pipe_end (ChPipeR p) p r) (\<lambda>x. ret (x, xs))) s = read_spec p (nat (sint n)) me (s\<lparr>held := h\<rparr>)"
proof -
  let ?n = "nat (sint n)"
  have me: "curproc s = me" using assms(3) by (simp add: runs_def curproc_def)
  have "sleep (ChPipeR p) (Some (pipelk p)) s = Sched (s\<lparr>held := {PtableLock}, procs := upd_nth me (asleep (ChPipeR p)) (procs s)\<rparr>)"
    by (rule sleep_run [OF assms(3,4)])
  then have sl: "kseq (sleep (ChPipeR p) (Some (pipelk p))) (ret (0 :: cint)) s = Sched (s\<lparr>procs := upd_nth me (asleep (ChPipeR p)) (procs s), held := {PtableLock}\<rparr>)"
    by (simp add: kseq_Sched)
  show ?thesis
    using piperead_loop [OF assms(1), of ?n "[]" "?n + 1"] assms(2,4) pq.empty_iff [OF assms(1)] sl me
    by (simp add: piperead_scan_def kstep kbind_def pipe_end_def read_spec_def Let_def proc_at_def min_def del: kloop.simps)
qed


text \<open>
  C26: pipewrite and piperead, from their start and from the point where a sleep returns, act on the ring buffer
  as on a queue. A writer appends as many bytes as fit; it returns when all are in, gives up when nobody can read
  or it was killed, and otherwise sleeps on a full pipe with the readers woken. A reader takes the bytes at the
  front, waking the writers, and sleeps only on an empty pipe that can still be written.
\<close>

theorem pipe_calls_refine_queue:
  assumes "pp_ok (pipes s p)" "table_ok s" "runs s me" "i \<le> length xs"
  shows "(held s = {} \<longrightarrow> pipewrite p xs s = write_spec p xs 0 me s \<and> piperead p n s = read_spec p (nat (sint n)) me s) \<and>
    (held s = {PtableLock} \<longrightarrow> pipewrite_resume p xs i s = write_spec p xs i me (tidy me s) \<and>
      piperead_resume p n s = read_spec p (nat (sint n)) me (tidy me s)) \<and>
    (let ws = take (fits (pipes s p) (length xs - i)) (drop i xs); q = fold pp_put ws (pipes s p) in
      pp_ok q \<and> pp_items q = pp_items (pipes s p) @ ws) \<and>
    (\<forall>k\<le>length (pp_items (pipes s p)). pp_ok ((pp_next ^^ k) (pipes s p)) \<and>
      pp_items ((pp_next ^^ k) (pipes s p)) = drop k (pp_items (pipes s p)))"
proof -
  let ?t = "s\<lparr>held := {pipelk p}\<rparr>" and ?u = "(tidy me s)\<lparr>held := {pipelk p}\<rparr>"
  have a: "pp_ok (pipes ?t p)" "table_ok ?t" "runs ?t me" "pp_ok (pipes ?u p)" "table_ok ?u" "runs ?u me"
    using assms(1-3) by (auto simp: table_ok_def runs_def myproc_def tidy_def)
  have start: "pipewrite p xs s = write_spec p xs 0 me s \<and> piperead p n s = read_spec p (nat (sint n)) me s" if "held s = {}"
    using write_locked [OF a(1-3), of 0 xs "{}"] read_locked [OF a(1-3), of n "{}"] that
    by (simp add: pipewrite_def piperead_def kstep)
  have x: "sleep_exit (Some (pipelk p)) s = Ok () ?u" if "held s = {PtableLock}"
    using that runsD [OF assms(3)] by (simp add: sleep_exit_def kstep tidy_def)
  have y: "(tidy me s)\<lparr>held := {PtableLock}\<rparr> = tidy me s" if "held s = {PtableLock}" using that by (simp add: tidy_def)
  have resume: "pipewrite_resume p xs i s = write_spec p xs i me (tidy me s) \<and> piperead_resume p n s = read_spec p (nat (sint n)) me (tidy me s)"
    if "held s = {PtableLock}"
    using write_locked [OF a(4-6), of i xs "{PtableLock}"] read_locked [OF a(4-6), of n "{PtableLock}"] assms(4) x [OF that] y [OF that]
    by (simp add: pipewrite_resume_def piperead_resume_def kseq_Ok)
  have "let ws = take (fits (pipes s p) (length xs - i)) (drop i xs); q = fold pp_put ws (pipes s p) in
      pp_ok q \<and> pp_items q = pp_items (pipes s p) @ ws"
    using pq.puts [OF assms(1)] pq.room [OF assms(1)] by (simp add: Let_def fits_def)
  then show ?thesis using start resume pq.gets_n [OF assms(1)] by blast
qed

definition new_pipe :: pipe where
  "new_pipe = \<lparr>pp_data = replicate PIPESIZE 0, pp_nread = - 1, pp_nwrite = - 1, pp_readopen = True, pp_writeopen = True\<rparr>"

definition boot_pipst :: pipst where
  "boot_pipst = boot_fs (\<lambda>_. 0) (fsst_ext [] tsb (pipst.fields (\<lambda>_. new_pipe)))"

lemma boot_pipst_ok: "pp_ok new_pipe" "pipes boot_pipst = (\<lambda>_. new_pipe)" "table_ok boot_pipst" "runs boot_pipst 0" "held boot_pipst = {}"
  by (simp_all add: boot_pipst_def boot_fs_def boot_bcst_def boot_slst_def boot_ptab_def ptab.defs slst.defs bcst.defs lgst.defs fsst.defs pipst.defs
      table_ok_def NPROC_def runs_def myproc_def new_pipe_def pp_ok_def pp_count_def)

theorem pipe_calls_refine_queue_witness:
  "\<exists>s. pipewrite 4096 [1, 2, 3] boot_pipst = Ok 3 s \<and> pp_items (pipes s 4096) = [1, 2, 3]"
proof -
  have i: "pp_items new_pipe = []" by (simp add: pp_items_def new_pipe_def pp_count_def)
  then have f: "fits new_pipe 3 = 3" by (simp add: fits_def PIPESIZE_def)
  note r = pipe_calls_refine_queue [of boot_pipst 4096 0 0 "[1, 2, 3]" 0]
  have "pipewrite 4096 [1, 2, 3] boot_pipst = write_spec 4096 [1, 2, 3] 0 0 boot_pipst" using r boot_pipst_ok by simp
  moreover have "pp_items (fold pp_put [1, 2, 3] new_pipe) = [1, 2, 3]"
    using r [THEN conjunct2, THEN conjunct2, THEN conjunct1] boot_pipst_ok i f by (simp add: Let_def numeral_3_eq_3)
  ultimately show ?thesis using f by (simp add: write_spec_def boot_pipst_ok Let_def numeral_3_eq_3)
qed

text \<open>
  C27: however puts and gets are interleaved on a pipe that starts empty, whatever its counters are, the bytes that
  came out followed by those still in the buffer are the bytes that went in, in order; a full pipe drops nothing.
\<close>

theorem pipe_history:
  assumes "pp_ok q" "pp_items q = []" "pq.perform xs q [] [] = (q', ins, outs)"
  shows "outs @ pp_items q' = ins \<and> length (pp_items q') \<le> PIPESIZE"
  using pq.history [OF assms(1) _ assms(3)] assms(2) pq.room by simp

theorem pipe_history_witness:
  "snd (snd (pq.perform [Put 7, Put 8, Get, Get] new_pipe [] [])) = [7, 8]"
proof -
  obtain q' ins outs where p: "pq.perform [Put 7, Put 8, Get, Get] new_pipe [] [] = (q', ins, outs)" by (metis prod_cases3)
  have e: "pp_items new_pipe = []" by (simp add: pp_items_def new_pipe_def pp_count_def)
  have h: "outs @ pp_items q' = ins" using pipe_history [OF boot_pipst_ok(1) e p] by simp
  have "ins = [7, 8]" "pp_empty q'" using p by (auto simp: new_pipe_def pp_full_def pp_empty_def pp_put_def pp_next_def PIPESIZE_def)
  moreover have "pp_ok q'" using pq.history [OF boot_pipst_ok(1) _ p] e by simp
  ultimately show ?thesis using h p pq.empty_iff [of q'] by simp
qed

end
