(* ===== verification/File.thy ===== *)
theory File
  imports Pipe
begin

text \<open>
  file.c and the rest of pipe.c: the table of open files. A file is an index into \<^verbatim>\<open>ftable.file\<close>. A read gives
  the value returned and the bytes for the caller's buffer; a write takes the bytes of the caller's buffer.
\<close>

datatype ftype = FD_NONE | FD_PIPE | FD_INODE

record ofile =
  f_type :: ftype
  f_ref :: int
  f_readable :: bool
  f_writable :: bool
  f_pipe :: uint
  f_ip :: nat
  f_off :: uint

record ftst = pipst +
  files :: "ofile list"

abbreviation file_at :: "'z ftst_scheme \<Rightarrow> nat \<Rightarrow> ofile" where
  "file_at s f \<equiv> files s ! f"

definition updf :: "nat \<Rightarrow> (ofile \<Rightarrow> ofile) \<Rightarrow> ('z ftst_scheme, unit) kern" where
  "updf f g = modify (\<lambda>s. s\<lparr>files := upd_nth f g (files s)\<rparr>)"

definition fileinit :: "('z ftst_scheme, unit) kern" where
  "fileinit = modify (\<lambda>s. s\<lparr>held := held s - {FtableLock}\<rparr>)"

definition filealloc :: "('z ftst_scheme, nat option) kern" where
  "filealloc =
     kseq (acquire FtableLock)
     (kbind (gets (\<lambda>s. find_slot (\<lambda>x. f_ref x = 0) (files s))) (\<lambda>r. case r of
       Some f \<Rightarrow>
         kseq (updf f (f_ref_update (\<lambda>_. 1)))
         (kseq (release FtableLock)
               (ret (Some f)))
     | None \<Rightarrow> kseq (release FtableLock) (ret None)))"

definition filedup :: "nat \<Rightarrow> ('z ftst_scheme, nat) kern" where
  "filedup f =
     kseq (acquire FtableLock)
     (kif (\<lambda>s. f_ref (file_at s f) < 1) (panic ''filedup'')
     (kseq (updf f (\<lambda>x. x\<lparr>f_ref := f_ref x + 1\<rparr>))
     (kseq (release FtableLock)
           (ret f))))"

definition fileclose :: "nat \<Rightarrow> ('z ftst_scheme, unit) kern" where
  "fileclose f =
     kseq (acquire FtableLock)
     (kif (\<lambda>s. f_ref (file_at s f) < 1) (panic ''fileclose'')
     (kseq (updf f (\<lambda>x. x\<lparr>f_ref := f_ref x - 1\<rparr>))
     (kif (\<lambda>s. f_ref (file_at s f) > 0) (release FtableLock)
     (kbind (gets (\<lambda>s. file_at s f)) (\<lambda>ff.
      kseq (updf f (f_ref_update (\<lambda>_. 0)))
      (kseq (updf f (f_type_update (\<lambda>_. FD_NONE)))
      (kseq (release FtableLock)
      (if f_type ff = FD_PIPE then pipeclose (f_pipe ff) (f_writable ff)
       else if f_type ff = FD_INODE then
         kseq begin_op
         (kseq (iput (f_ip ff))
               end_op)
       else ret ()))))))))"

definition filestat :: "nat \<Rightarrow> ('z ftst_scheme, stat option) kern" where
  "filestat f =
     kif (\<lambda>s. f_type (file_at s f) = FD_INODE)
       (\<lambda>s. kseq (ilock (f_ip (file_at s f)))
            (kbind (\<lambda>s. stati (f_ip (file_at s f)) s) (\<lambda>st.
             kseq (\<lambda>s. iunlock (f_ip (file_at s f)) s)
                  (ret (Some st)))) s)
       (ret None)"

definition fileread :: "'z ftst_scheme devsw \<Rightarrow> nat \<Rightarrow> cint \<Rightarrow> ('z ftst_scheme, cint \<times> byte list) kern" where
  "fileread dv f n =
     kif (\<lambda>s. \<not> f_readable (file_at s f)) (ret (- 1, []))
     (\<lambda>s. case f_type (file_at s f) of
        FD_PIPE \<Rightarrow> piperead (f_pipe (file_at s f)) n s
      | FD_INODE \<Rightarrow>
          (let ip = f_ip (file_at s f) in
           kseq (ilock ip)
           (kbind (\<lambda>s. readi dv ip (f_off (file_at s f)) n s) (\<lambda>(r, xs).
            kseq (if sint r > 0 then updf f (\<lambda>x. x\<lparr>f_off := f_off x + r\<rparr>) else ret ())
            (kseq (iunlock ip)
                  (ret (r, xs)))))) s
      | FD_NONE \<Rightarrow> panic ''fileread'' s)"

definition write_max :: nat where
  "write_max = ((MAXOPBLOCKS - 1 - 1 - 2) div 2) * 512"

text \<open>One transaction of filewrite: at most \<open>write_max\<close> bytes from position \<^verbatim>\<open>i\<close> of the source.\<close>

definition filewrite_body :: "'z ftst_scheme devsw \<Rightarrow> nat \<Rightarrow> byte list \<Rightarrow> nat \<Rightarrow> ('z ftst_scheme, nat + cint) kern" where
  "filewrite_body dv f xs i =
     (if \<not> i < length xs then ret (Inr (of_nat (length xs)))
      else
        let n1 = min (length xs - i) write_max in
        kseq begin_op
        (kseq (\<lambda>s. ilock (f_ip (file_at s f)) s)
        (kbind (\<lambda>s. writei dv (f_ip (file_at s f)) (take n1 (drop i xs)) (f_off (file_at s f)) s) (\<lambda>r.
         kseq (if sint r > 0 then updf f (\<lambda>x. x\<lparr>f_off := f_off x + r\<rparr>) else ret ())
         (kseq (\<lambda>s. iunlock (f_ip (file_at s f)) s)
         (kseq end_op
         (if sint r < 0 then ret (Inr (- 1))
          else if r \<noteq> of_nat n1 then panic ''short filewrite''
          else ret (Inl (i + n1)))))))))"

definition filewrite :: "'z ftst_scheme devsw \<Rightarrow> nat \<Rightarrow> byte list \<Rightarrow> ('z ftst_scheme, cint) kern" where
  "filewrite dv f xs =
     kif (\<lambda>s. \<not> f_writable (file_at s f)) (ret (- 1))
     (\<lambda>s. case f_type (file_at s f) of
        FD_PIPE \<Rightarrow> pipewrite (f_pipe (file_at s f)) xs s
      | FD_INODE \<Rightarrow> kloop (length xs + 1) (filewrite_body dv f xs) 0 s
      | FD_NONE \<Rightarrow> panic ''filewrite'' s)"

subsection \<open>pipealloc\<close>

definition pipealloc_bad :: "uint \<Rightarrow> nat option \<Rightarrow> nat option \<Rightarrow> ('z ftst_scheme, (nat \<times> nat) option) kern" where
  "pipealloc_bad p f0 f1 =
     kseq (if p \<noteq> 0 then kfree p else ret ())
     (kseq (case f0 of None \<Rightarrow> ret () | Some f \<Rightarrow> fileclose f)
     (kseq (case f1 of None \<Rightarrow> ret () | Some f \<Rightarrow> fileclose f)
           (ret None)))"

definition pipealloc :: "('z ftst_scheme, (nat \<times> nat) option) kern" where
  "pipealloc =
     kbind filealloc (\<lambda>r0. case r0 of None \<Rightarrow> pipealloc_bad 0 None None | Some f0 \<Rightarrow>
     kbind filealloc (\<lambda>r1. case r1 of None \<Rightarrow> pipealloc_bad 0 (Some f0) None | Some f1 \<Rightarrow>
     kbind kalloc (\<lambda>p. if p = 0 then pipealloc_bad p (Some f0) (Some f1) else
     kseq (updpp p (\<lambda>q. q\<lparr>pp_readopen := True, pp_writeopen := True, pp_nwrite := 0, pp_nread := 0\<rparr>))
     (kseq (modify (\<lambda>s. s\<lparr>held := held s - {pipelk p}\<rparr>))
     (kseq (updf f0 (\<lambda>x. x\<lparr>f_type := FD_PIPE, f_readable := True, f_writable := False, f_pipe := p\<rparr>))
     (kseq (updf f1 (\<lambda>x. x\<lparr>f_type := FD_PIPE, f_readable := False, f_writable := True, f_pipe := p\<rparr>))
           (ret (Some (f0, f1)))))))))"

end
