(* ===== verification/Sysargs.thy ===== *)
theory Sysargs
  imports Proc_Props
begin

text \<open>
  syscall.c, the fetching of system-call arguments. The kernel reads and writes user memory through the page
  table in cr3; an address with no page faults, and a fault inside the kernel stops it (trap.c). A fetched
  string is the list of its bytes.
\<close>

unbundle bit_operations_syntax

definition uaddr :: "uint \<Rightarrow> ('z vmst_scheme, uint) kern" where
  "uaddr va = (\<lambda>s. case translate (mem s) (P2V (cr3 s)) va of None \<Rightarrow> Panic ''trap'' | Some pa \<Rightarrow> Ok (P2V pa) s)"

definition uload :: "uint \<Rightarrow> ('z vmst_scheme, byte) kern" where
  "uload va = kbind (uaddr va) (\<lambda>a. gets (\<lambda>s. mem s a))"

definition ustore :: "uint \<Rightarrow> byte \<Rightarrow> ('z vmst_scheme, unit) kern" where
  "ustore va c = kbind (uaddr va) (\<lambda>a. modify (\<lambda>s. s\<lparr>mem := (mem s)(a := c)\<rparr>))"

fun uloads :: "uint \<Rightarrow> nat \<Rightarrow> ('z vmst_scheme, byte list) kern" where
  "uloads va 0 = ret []"
| "uloads va (Suc n) = kbind (uload va) (\<lambda>c. kbind (uloads (va + 1) n) (\<lambda>cs. ret (c # cs)))"

fun ustores :: "uint \<Rightarrow> byte list \<Rightarrow> ('z vmst_scheme, unit) kern" where
  "ustores va [] = ret ()"
| "ustores va (c # cs) = kseq (ustore va c) (ustores (va + 1) cs)"

definition uload32 :: "uint \<Rightarrow> ('z vmst_scheme, uint) kern" where
  "uload32 va =
     kbind (uload va) (\<lambda>b0. kbind (uload (va + 1)) (\<lambda>b1. kbind (uload (va + 2)) (\<lambda>b2. kbind (uload (va + 3)) (\<lambda>b3.
     ret (ucast b0 OR push_bit 8 (ucast b1) OR push_bit 16 (ucast b2) OR push_bit 24 (ucast b3))))))"

definition ustore32 :: "uint \<Rightarrow> uint \<Rightarrow> ('z vmst_scheme, unit) kern" where
  "ustore32 va w = ustores va [byte_of 0 w, byte_of 1 w, byte_of 2 w, byte_of 3 w]"

text \<open>The fetch functions: \<open>None\<close> is the return value \<open>- 1\<close>.\<close>

definition fetchint :: "uint \<Rightarrow> ('z ptab_scheme, cint option) kern" where
  "fetchint addr = (\<lambda>s.
     let sz = p_sz (proc_at s (curproc s)) in
     if addr \<ge> sz \<or> addr + 4 > sz then Ok None s
     else kbind (uload32 addr) (\<lambda>v. ret (Some v)) s)"

definition fetchstr_body :: "uint \<Rightarrow> uint \<times> byte list \<Rightarrow> ('z ptab_scheme, uint \<times> byte list + byte list option) kern" where
  "fetchstr_body ep = (\<lambda>(p, acc).
     if \<not> p < ep then ret (Inr None)
     else kbind (uload p) (\<lambda>c. if c = 0 then ret (Inr (Some acc)) else ret (Inl (p + 1, acc @ [c]))))"

definition fetchstr :: "uint \<Rightarrow> ('z ptab_scheme, byte list option) kern" where
  "fetchstr addr = (\<lambda>s.
     let sz = p_sz (proc_at s (curproc s)) in
     if addr \<ge> sz then Ok None s
     else kloop (unat sz + 1) (fetchstr_body sz) (addr, []) s)"

definition argint :: "uint \<Rightarrow> ('z ptab_scheme, cint option) kern" where
  "argint n = (\<lambda>s. fetchint (load32 (mem s) (p_tf (proc_at s (curproc s)) + tf_esp) + 4 + 4 * n) s)"

definition argptr :: "uint \<Rightarrow> cint \<Rightarrow> ('z ptab_scheme, uint option) kern" where
  "argptr n sz1 =
     kbind (argint n) (\<lambda>r. case r of
       None \<Rightarrow> ret None
     | Some i \<Rightarrow> (\<lambda>s.
         let sz = p_sz (proc_at s (curproc s)) in
         if sint sz1 < 0 \<or> i \<ge> sz \<or> i + sz1 > sz then Ok None s else Ok (Some i) s))"

definition argstr :: "uint \<Rightarrow> ('z ptab_scheme, byte list option) kern" where
  "argstr n =
     kbind (argint n) (\<lambda>r. case r of
       None \<Rightarrow> ret None
     | Some addr \<Rightarrow> fetchstr addr)"

subsection \<open>Safety\<close>

text \<open>The current process's memory below \<^verbatim>\<open>sz\<close> is mapped, and lies below the kernel.\<close>

definition user_ok :: "'z ptab_scheme \<Rightarrow> bool" where
  "user_ok s \<longleftrightarrow> p_sz (proc_at s (curproc s)) \<le> KERNBASE \<and>
     (\<forall>va < p_sz (proc_at s (curproc s)). translate (mem s) (P2V (cr3 s)) va \<noteq> None)"

definition usz :: "'z ptab_scheme \<Rightarrow> nat" where
  "usz s = unat (p_sz (proc_at s (curproc s)))"

text \<open>The byte a process sees at an address.\<close>

definition ubyte :: "'z ptab_scheme \<Rightarrow> uint \<Rightarrow> byte" where
  "ubyte s va = mem s (P2V (the (translate (mem s) (P2V (cr3 s)) va)))"

lemma usz_bound: "user_ok s \<Longrightarrow> usz s \<le> 0x80000000"
  by (simp add: user_ok_def usz_def KERNBASE_def word_le_nat_alt)

lemma uload_run: "user_ok s \<Longrightarrow> unat va < usz s \<Longrightarrow> uload va s = Ok (ubyte s va) s"
  by (auto simp: user_ok_def usz_def uload_def uaddr_def ubyte_def kstep kbind_def word_less_nat_alt split: option.splits)

definition uint_at :: "'z ptab_scheme \<Rightarrow> uint \<Rightarrow> uint" where
  "uint_at s a = ucast (ubyte s a) OR push_bit 8 (ucast (ubyte s (a + 1))) OR push_bit 16 (ucast (ubyte s (a + 2))) OR push_bit 24 (ucast (ubyte s (a + 3)))"

lemma unat_plus_small: "unat (a :: uint) + k < 2 ^ 32 \<Longrightarrow> unat (a + of_nat k) = unat a + k"
  using unat_add_lem [of a "of_nat k"] by (simp add: unat_of_nat take_bit_nat_eq_self)

lemma fetchint_run:
  assumes "user_ok s"
  shows "fetchint a s = Ok (if unat a + 4 \<le> usz s then Some (uint_at s a) else None) s"
proof -
  note u = usz_bound [OF assms]
  let ?sz = "p_sz (proc_at s (curproc s))"
  have sz: "unat ?sz = usz s" by (simp add: usz_def)
  show ?thesis
  proof (cases "unat a + 4 \<le> usz s")
    case True
    have n: "unat (a + 1) = unat a + 1" "unat (a + 2) = unat a + 2" "unat (a + 3) = unat a + 3" "unat (a + 4) = unat a + 4"
      using True u unat_plus_small [of a 1] unat_plus_small [of a 2] unat_plus_small [of a 3] unat_plus_small [of a 4] by simp_all
    have r: "uload a s = Ok (ubyte s a) s" "uload (a + 1) s = Ok (ubyte s (a + 1)) s" "uload (a + 2) s = Ok (ubyte s (a + 2)) s" "uload (a + 3) s = Ok (ubyte s (a + 3)) s"
      by (rule uload_run [OF assms]; use True n in simp)+
    have "\<not> (a \<ge> ?sz \<or> a + 4 > ?sz)" using True n(4) sz by (simp add: word_less_nat_alt word_le_nat_alt)
    then show ?thesis using True r by (simp add: fetchint_def uload32_def Let_def kbind_def uint_at_def ret_def)
  next
    case False
    have "a \<ge> ?sz \<or> a + 4 > ?sz"
    proof (cases "usz s \<le> unat a")
      case False
      then have "unat (a + 4) = unat a + 4" using u unat_plus_small [of a 4] by simp
      then show ?thesis using \<open>\<not> unat a + 4 \<le> usz s\<close> sz by (simp add: word_less_nat_alt)
    qed (simp add: sz word_le_nat_alt)
    then show ?thesis using False by (simp add: fetchint_def Let_def)
  qed
qed


text \<open>The bytes from \<open>a\<close> to the end of the process.\<close>

definition utail :: "'z ptab_scheme \<Rightarrow> uint \<Rightarrow> byte list" where
  "utail s a = map (\<lambda>i. ubyte s (a + of_nat i)) [0..<usz s - unat a]"

lemma fetchstr_loop:
  assumes "user_ok s" "unat a \<le> usz s" "usz s - unat a < m"
  shows "kloop m (fetchstr_body (p_sz (proc_at s (curproc s)))) (a, acc) s =
    Ok (if 0 \<in> set (utail s a) then Some (acc @ takeWhile (\<lambda>c. c \<noteq> 0) (utail s a)) else None) s"
  using assms(2,3)
proof (induction m arbitrary: a acc)
  case (Suc m)
  let ?sz = "p_sz (proc_at s (curproc s))"
  have lt: "a < ?sz \<longleftrightarrow> unat a < usz s" by (simp add: usz_def word_less_nat_alt)
  show ?case
  proof (cases "unat a < usz s")
    case True
    have r: "uload a s = Ok (ubyte s a) s" by (rule uload_run [OF assms(1) True])
    have u: "unat (a + 1) = unat a + 1" using True usz_bound [OF assms(1)] unat_plus_small [of a 1] by simp
    have "[0..<usz s - unat a] = 0 # map Suc [0..<usz s - unat (a + 1)]"
      using True by (simp add: u upt_conv_Cons map_Suc_upt Suc_diff_Suc)
    then have c: "utail s a = ubyte s a # utail s (a + 1)"
      by (simp add: utail_def o_def add.assoc)
    show ?thesis
    proof (cases "ubyte s a = 0")
      case z: True
      have "fetchstr_body ?sz (a, acc) s = Ok (Inr (Some acc)) s" using z True r by (simp add: fetchstr_body_def lt kbind_def ret_def)
      then show ?thesis using kloop_done [of "fetchstr_body ?sz" "(a, acc)" s _ _ "Suc m"] c z by (simp del: kloop.simps)
    next
      case False
      have "kloop (Suc m) (fetchstr_body ?sz) (a, acc) s = kloop m (fetchstr_body ?sz) (a + 1, acc @ [ubyte s a]) s"
        by (rule kloop_next) (use True False r in \<open>simp add: fetchstr_body_def lt kbind_def ret_def\<close>)
      then show ?thesis using Suc.IH [of "a + 1" "acc @ [ubyte s a]"] Suc.prems True False u c by (simp del: kloop.simps)
    qed
  next
    case False
    then have "utail s a = []" using Suc.prems(1) by (simp add: utail_def)
    moreover have "fetchstr_body ?sz (a, acc) s = Ok (Inr None) s" using False by (simp add: fetchstr_body_def lt ret_def)
    ultimately show ?thesis using kloop_done [of "fetchstr_body ?sz" "(a, acc)" s _ _ "Suc m"] by (simp del: kloop.simps)
  qed
qed simp

lemma fetchstr_run:
  assumes "user_ok s"
  shows "fetchstr a s = Ok (if 0 \<in> set (utail s a) then Some (takeWhile (\<lambda>c. c \<noteq> 0) (utail s a)) else None) s"
proof (cases "unat a < usz s")
  case True
  then have "\<not> p_sz (proc_at s (curproc s)) \<le> a" by (simp add: usz_def word_le_nat_alt)
  then show ?thesis using fetchstr_loop [OF assms, of a "usz s + 1" "[]"] True by (simp add: fetchstr_def Let_def usz_def del: kloop.simps)
next
  case False
  then have "p_sz (proc_at s (curproc s)) \<le> a" by (simp add: usz_def word_le_nat_alt)
  then show ?thesis using False by (simp add: fetchstr_def utail_def)
qed

lemma sint_uint_nonneg: "0 \<le> sint (n :: cint) \<Longrightarrow> sint n = uint n"
proof -
  assume "0 \<le> sint n"
  then have "\<not> bit (uint n) 31" by (simp add: sint_uint)
  moreover have "take_bit 32 (uint n) = uint n" using unsigned_less [where 'a = int, of n] by (intro take_bit_int_eq_self) simp_all
  ultimately show ?thesis by (simp add: sint_uint signed_take_bit_eq_take_bit_minus)
qed

lemma argptr_check:
  assumes "user_ok s" "0 \<le> sint (n :: cint)"
  defines "sz \<equiv> p_sz (proc_at s (curproc s))"
  shows "(a \<ge> sz \<or> a + n > sz) \<longleftrightarrow> \<not> (unat a < usz s \<and> unat a + unat n \<le> usz s)"
proof -
  have n: "unat n < 2 ^ 31"
  proof -
    have "sint n < 2 ^ 31" using sint_lt [of n] by simp
    moreover have "sint n = uint n" using assms(2) by (simp add: sint_uint_nonneg)
    ultimately show ?thesis by (simp add: nat_less_iff flip: nat_uint_eq)
  qed
  show ?thesis
  proof (cases "unat a < usz s")
    case True
    then have "unat (a + n) = unat a + unat n" using usz_bound [OF assms(1)] n unat_add_lem [of a n] by simp
    then show ?thesis using True by (simp add: sz_def usz_def word_le_nat_alt word_less_nat_alt not_le)
  qed (simp add: sz_def usz_def word_le_nat_alt)
qed


text \<open>
  C28: the checks on system-call arguments. Whatever the user stack pointer and the arguments are, fetching never
  faults and changes nothing. An int, a buffer of \<open>n\<close> bytes and a string are accepted exactly when all their
  bytes, for a string up to its NUL, lie below the size of the process, with no wrap-around; a string is then the
  bytes before the NUL.
\<close>

theorem system_call_arguments_checked:
  fixes k :: uint and n :: cint and s :: "'z ptab_scheme"
  assumes "user_ok s"
  defines "a \<equiv> load32 (mem s) (p_tf (proc_at s (curproc s)) + tf_esp) + 4 + 4 * k"
  defines "p \<equiv> uint_at s a"
  shows "argint k s = Ok (if unat a + 4 \<le> usz s then Some p else None) s \<and>
    argptr k n s = Ok (if unat a + 4 \<le> usz s \<and> 0 \<le> sint n \<and> unat p < usz s \<and> unat p + unat n \<le> usz s then Some p else None) s \<and>
    argstr k s = Ok (if unat a + 4 \<le> usz s \<and> 0 \<in> set (utail s p) then Some (takeWhile (\<lambda>c. c \<noteq> 0) (utail s p)) else None) s"
proof -
  have i: "argint k s = Ok (if unat a + 4 \<le> usz s then Some p else None) s"
    using fetchint_run [OF assms(1), of a] by (simp add: argint_def a_def p_def)
  have "argptr k n s = Ok (if unat a + 4 \<le> usz s \<and> 0 \<le> sint n \<and> unat p < usz s \<and> unat p + unat n \<le> usz s then Some p else None) s"
    using i argptr_check [OF assms(1), of n p] by (cases "0 \<le> sint n") (auto simp: argptr_def kbind_def ret_def Let_def)
  moreover have "argstr k s = Ok (if unat a + 4 \<le> usz s \<and> 0 \<in> set (utail s p) then Some (takeWhile (\<lambda>c. c \<noteq> 0) (utail s p)) else None) s"
    using i fetchstr_run [OF assms(1), of p] by (simp add: argstr_def kbind_def ret_def)
  ultimately show ?thesis using i by blast
qed

text \<open>A process of one page, its page table at \<open>0x80200000\<close> and its trap frame at \<open>0x80206000\<close>.\<close>

definition one_page :: ptab where
  "one_page = boot_ptab\<lparr>mem := store32 0x80206044 0xF00 (store32 0x80200000 0x204007 (store32 0x80204000 0x205007 (\<lambda>_. 0))),
     cr3 := 0x200000, cproc := [Some 0], procs := (init_p\<lparr>p_tf := 0x80206000\<rparr>) # replicate (NPROC - 1) free_p\<rparr>"

lemma page0:
  assumes "va < 4096"
  shows "PDX va = 0" "PTX va = 0"
proof -
  have "unat va < 4096" using assms by (simp add: word_less_nat_alt)
  then have "unat (drop_bit 12 va) = 0" "unat (drop_bit 22 va) = 0" by (simp_all add: drop_bit_eq_div unat_div)
  then have "drop_bit 12 va = 0" "drop_bit 22 va = 0" by (simp_all add: unat_eq_zero)
  then show "PDX va = 0" "PTX va = 0" by (simp_all add: PDX_def PTX_def)
qed

lemma one_page_ok: "user_ok one_page" "usz one_page = 4096" "load32 (mem one_page) (p_tf (proc_at one_page (curproc one_page)) + tf_esp) = 0xF00"
proof -
  have c: "curproc one_page = 0" "cpu_me one_page = 0" by (simp_all add: one_page_def curproc_def myproc_def boot_ptab_def)
  have f: "p_sz (proc_at one_page 0) = 4096" "p_tf (proc_at one_page 0) = 0x80206000" "cr3 one_page = 0x200000"
    "mem one_page = store32 0x80206044 0xF00 (store32 0x80200000 0x204007 (store32 0x80204000 0x205007 (\<lambda>_. 0)))"
    by (simp_all add: one_page_def proc_at_def init_p_def)
  have l: "load32 (mem one_page) 0x80200000 = 0x204007" "load32 (mem one_page) 0x80204000 = 0x205007" "load32 (mem one_page) 0x80206044 = 0xF00"
    unfolding f(4) by (simp_all add: load32_def store32_def byte_of_def)
  have "translate (mem one_page) (P2V 0x200000) va \<noteq> None" if "va < 4096" for va
    using that l by (simp add: translate_def pte_of_def page0 P2V_def KERNBASE_def PTE_P_def PTE_ADDR_def Let_def)
  then show "user_ok one_page" by (simp add: user_ok_def c f KERNBASE_def)
  show "usz one_page = 4096" by (simp add: usz_def c f)
  show "load32 (mem one_page) (p_tf (proc_at one_page (curproc one_page)) + tf_esp) = 0xF00" using l by (simp add: c f tf_esp_def)
qed

theorem system_call_arguments_checked_witness:
  "\<exists>p. argptr 0 8 one_page = Ok p one_page \<and> argptr 0 (- 1) one_page = Ok None one_page \<and> argint 63 one_page = Ok None one_page"
  using system_call_arguments_checked [OF one_page_ok(1), of 0 8] system_call_arguments_checked [OF one_page_ok(1), of 0 "- 1"]
    system_call_arguments_checked [OF one_page_ok(1), of 63] one_page_ok(2,3) by simp

end
