(* ===== verification/Exec.thy ===== *)
theory Exec
  imports File Sysargs
begin

text \<open>
  exec.c, and loaduvm of vm.c: a program image is built in a fresh page table, and the process switches to it
  only when everything succeeded. The argument strings and the words of \<^verbatim>\<open>ustack\<close> are byte lists, so copyout
  takes the bytes it copies. A program header that is refused, or memory that runs out, leads to \<open>exec_bad\<close>,
  the code at the label \<^verbatim>\<open>bad\<close>.
\<close>

unbundle bit_operations_syntax

definition MAXARG :: nat where "MAXARG = 32"
definition ELF_MAGIC :: uint where "ELF_MAGIC = 0x464C457F"
definition ELF_PROG_LOAD :: uint where "ELF_PROG_LOAD = 1"

record elfhdr =
  e_magic :: uint
  e_entry :: uint
  e_phoff :: uint
  e_phnum :: ushort

record proghdr =
  ph_type :: uint
  ph_off :: uint
  ph_vaddr :: uint
  ph_filesz :: uint
  ph_memsz :: uint

definition sizeof_elf :: nat where "sizeof_elf = 52"
definition sizeof_ph :: nat where "sizeof_ph = 32"

definition get_elf :: "byte list \<Rightarrow> elfhdr" where
  "get_elf xs = \<lparr>e_magic = rd32 xs 0, e_entry = rd32 xs 24, e_phoff = rd32 xs 28, e_phnum = rd16 xs 44\<rparr>"

definition get_ph :: "byte list \<Rightarrow> proghdr" where
  "get_ph xs = \<lparr>ph_type = rd32 xs 0, ph_off = rd32 xs 4, ph_vaddr = rd32 xs 8, ph_filesz = rd32 xs 16, ph_memsz = rd32 xs 20\<rparr>"

definition loaduvm_body :: "'z ftst_scheme devsw \<Rightarrow> uint \<Rightarrow> uint \<Rightarrow> nat \<Rightarrow> uint \<Rightarrow> uint \<Rightarrow> uint \<Rightarrow> ('z ftst_scheme, uint + cint) kern" where
  "loaduvm_body dv pgdir addr ip offset sz i =
     (if \<not> i < sz then ret (Inr 0)
      else
        kbind (walkpgdir pgdir (addr + i) False) (\<lambda>pte.
        if pte = 0 then panic ''loaduvm: address should exist''
        else
          kbind (get32 pte) (\<lambda>e.
          let pa = PTE_ADDR e; n = (if sz - i < PGSIZE then sz - i else PGSIZE) in
          kbind (readi dv ip (offset + i) n) (\<lambda>(r, xs).
          kseq (modify (\<lambda>s. s\<lparr>mem := put_bytes (P2V pa) xs (mem s)\<rparr>))
          (if r \<noteq> n then ret (Inr (- 1)) else ret (Inl (i + PGSIZE)))))))"

definition loaduvm :: "'z ftst_scheme devsw \<Rightarrow> uint \<Rightarrow> uint \<Rightarrow> nat \<Rightarrow> uint \<Rightarrow> uint \<Rightarrow> ('z ftst_scheme, cint) kern" where
  "loaduvm dv pgdir addr ip offset sz =
     (if addr mod PGSIZE \<noteq> 0 then panic ''loaduvm: addr must be page aligned''
      else kloop NPAGES (loaduvm_body dv pgdir addr ip offset sz) 0)"

text \<open>copyout of a byte list.\<close>

definition copyout_bytes_body :: "uint \<Rightarrow> uint \<times> byte list \<Rightarrow> ('z kmem_scheme, (uint \<times> byte list) + cint) kern" where
  "copyout_bytes_body pgdir = (\<lambda>(va, xs).
     if xs = [] then ret (Inr 0)
     else let va0 = PGROUNDDOWN va in
       kbind (uva2ka pgdir va0) (\<lambda>pa0.
       if pa0 = 0 then ret (Inr (- 1))
       else let n = min (unat (PGSIZE - (va - va0))) (length xs) in
         kseq (modify (\<lambda>s. s\<lparr>mem := put_bytes (pa0 + (va - va0)) (take n xs) (mem s)\<rparr>))
              (ret (Inl (va0 + PGSIZE, drop n xs)))))"

definition copyout_bytes :: "uint \<Rightarrow> uint \<Rightarrow> byte list \<Rightarrow> ('z kmem_scheme, cint) kern" where
  "copyout_bytes pgdir va xs = kloop NPAGES (copyout_bytes_body pgdir) (va, xs)"

definition exec_bad :: "uint \<Rightarrow> nat option \<Rightarrow> ('z ftst_scheme, cint) kern" where
  "exec_bad pgdir ip =
     kseq (if pgdir \<noteq> 0 then freevm pgdir else ret ())
     (kseq (case ip of None \<Rightarrow> ret () | Some ip \<Rightarrow> kseq (iunlockput ip) end_op)
           (ret (- 1)))"

text \<open>One program header; the loop ends with the size reached, or \<open>None\<close> for \<^verbatim>\<open>goto bad\<close>.\<close>

definition exec_seg :: "'z ftst_scheme devsw \<Rightarrow> nat \<Rightarrow> uint \<Rightarrow> nat \<Rightarrow> nat \<times> uint \<times> uint \<Rightarrow> ('z ftst_scheme, nat \<times> uint \<times> uint + uint option) kern" where
  "exec_seg dv ip pgdir phnum = (\<lambda>(i, off, sz).
     if \<not> i < phnum then ret (Inr (Some sz))
     else
       kbind (readi dv ip off (of_nat sizeof_ph)) (\<lambda>(r, xs).
       let ph = get_ph xs in
       if r \<noteq> of_nat sizeof_ph then ret (Inr None)
       else if ph_type ph \<noteq> ELF_PROG_LOAD then ret (Inl (i + 1, off + of_nat sizeof_ph, sz))
       else if ph_memsz ph < ph_filesz ph then ret (Inr None)
       else if ph_vaddr ph + ph_memsz ph < ph_vaddr ph then ret (Inr None)
       else
         kbind (allocuvm pgdir sz (ph_vaddr ph + ph_memsz ph)) (\<lambda>sz.
         if sz = 0 then ret (Inr None)
         else if ph_vaddr ph mod PGSIZE \<noteq> 0 then ret (Inr None)
         else
           kbind (loaduvm dv pgdir (ph_vaddr ph) ip (ph_off ph) (ph_filesz ph)) (\<lambda>l.
           if sint l < 0 then ret (Inr None)
           else ret (Inl (i + 1, off + of_nat sizeof_ph, sz))))))"

text \<open>Pushing the argument strings: \<open>argc\<close>, the stack pointer and the words of \<^verbatim>\<open>ustack + 3\<close> so far.\<close>

definition exec_arg :: "uint \<Rightarrow> byte list list \<Rightarrow> nat \<times> uint \<times> uint list \<Rightarrow> ('z ftst_scheme, nat \<times> uint \<times> uint list + (uint \<times> uint list) option) kern" where
  "exec_arg pgdir argv = (\<lambda>(argc, sp, us).
     if \<not> argc < length argv then ret (Inr (Some (sp, us)))
     else if argc \<ge> MAXARG then ret (Inr None)
     else
       let sp = (sp - (of_nat (length (argv ! argc)) + 1)) AND NOT 3 in
       kbind (copyout_bytes pgdir sp (argv ! argc @ [0])) (\<lambda>r.
       if sint r < 0 then ret (Inr None)
       else ret (Inl (argc + 1, sp, us @ [sp]))))"

definition exec_words :: "uint list \<Rightarrow> byte list" where
  "exec_words ws = concat (map (\<lambda>w. [byte_of 0 w, byte_of 1 w, byte_of 2 w, byte_of 3 w]) ws)"

text \<open>The program name: what follows the last slash of the path.\<close>

fun last_elem :: "byte list \<Rightarrow> byte list \<Rightarrow> byte list" where
  "last_elem l [] = l"
| "last_elem l (c # s) = last_elem (if c = 0x2F then s else l) s"

definition exec_commit :: "uint \<Rightarrow> uint \<Rightarrow> uint \<Rightarrow> uint \<Rightarrow> byte list \<Rightarrow> ('z ftst_scheme, cint) kern" where
  "exec_commit pgdir sz entry sp path =
     kseq (\<lambda>s. updp (curproc s) (\<lambda>p. p\<lparr>p_name := safestrcpy (p_name p) (last_elem path path) 16\<rparr>) s)
     (kbind (gets (\<lambda>s. p_pgdir (proc_at s (curproc s)))) (\<lambda>oldpgdir.
      kseq (\<lambda>s. updp (curproc s) (p_pgdir_update (\<lambda>_. pgdir)) s)
      (kseq (\<lambda>s. updp (curproc s) (p_sz_update (\<lambda>_. sz)) s)
      (kseq (\<lambda>s. set32 (p_tf (proc_at s (curproc s)) + tf_eip) entry s)
      (kseq (\<lambda>s. set32 (p_tf (proc_at s (curproc s)) + tf_esp) sp s)
      (kseq (\<lambda>s. switchuvm (Some (p_kstack (proc_at s (curproc s)), p_pgdir (proc_at s (curproc s)))) s)
      (kseq (freevm oldpgdir)
            (ret 0))))))))"

definition exec_stack :: "uint \<Rightarrow> uint \<Rightarrow> uint \<Rightarrow> byte list \<Rightarrow> byte list list \<Rightarrow> ('z ftst_scheme, cint) kern" where
  "exec_stack pgdir sz entry path argv =
     kbind (let sz = PGROUNDUP sz in allocuvm pgdir sz (sz + 2 * PGSIZE)) (\<lambda>sz.
     if sz = 0 then exec_bad pgdir None
     else
       kseq (clearpteu pgdir (sz - 2 * PGSIZE))
       (kbind (kloop (length argv + 1) (exec_arg pgdir argv) (0, sz, [])) (\<lambda>r. case r of
          None \<Rightarrow> exec_bad pgdir None
        | Some (sp, us) \<Rightarrow>
            let argc = of_nat (length argv); sp' = sp - (3 + argc + 1) * 4 in
            kbind (copyout_bytes pgdir sp' (exec_words ([0xffffffff, argc, sp - (argc + 1) * 4] @ us @ [0]))) (\<lambda>r.
            if sint r < 0 then exec_bad pgdir None
            else exec_commit pgdir sz entry sp' path))))"

definition exec :: "'z ftst_scheme devsw \<Rightarrow> byte list \<Rightarrow> byte list list \<Rightarrow> ('z ftst_scheme, cint) kern" where
  "exec dv path argv =
     kseq begin_op
     (kbind (namei dv path) (\<lambda>r. case r of
        None \<Rightarrow> kseq end_op (ret (- 1))
      | Some ip \<Rightarrow>
          kseq (ilock ip)
          (kbind (readi dv ip 0 (of_nat sizeof_elf)) (\<lambda>(r, xs).
           let elf = get_elf xs in
           if r \<noteq> of_nat sizeof_elf then exec_bad 0 (Some ip)
           else if e_magic elf \<noteq> ELF_MAGIC then exec_bad 0 (Some ip)
           else
             kbind setupkvm (\<lambda>pgdir.
             if pgdir = 0 then exec_bad 0 (Some ip)
             else
               kbind (kloop (unat (e_phnum elf) + 1) (exec_seg dv ip pgdir (unat (e_phnum elf))) (0, e_phoff elf, 0)) (\<lambda>r. case r of
                 None \<Rightarrow> exec_bad pgdir (Some ip)
               | Some sz \<Rightarrow>
                   kseq (iunlockput ip)
                   (kseq end_op
                         (exec_stack pgdir sz (e_entry elf) path argv))))))))"

end
