(* ===== verification/Sysfile.thy ===== *)
theory Sysfile
  imports Exec
begin

text \<open>
  sysfile.c: the file-system calls. Each handler fetches its arguments from the caller's stack and returns the
  value put in eax. What a call reads from or writes to a user buffer is moved through \<open>uloads\<close> and \<open>ustores\<close>.
\<close>

unbundle bit_operations_syntax

definition O_RDONLY :: uint where "O_RDONLY = 0"
definition O_WRONLY :: uint where "O_WRONLY = 1"
definition O_RDWR :: uint where "O_RDWR = 2"
definition O_CREATE :: uint where "O_CREATE = 0x200"

text \<open>Continue with a fetched argument, or return \<open>- 1\<close>.\<close>

definition arg :: "('s, 'a option) kern \<Rightarrow> ('a \<Rightarrow> ('s, cint) kern) \<Rightarrow> ('s, cint) kern" where
  "arg m k = kbind m (\<lambda>r. case r of None \<Rightarrow> ret (- 1) | Some x \<Rightarrow> k x)"

definition argfd :: "uint \<Rightarrow> ('z ftst_scheme, (nat \<times> nat) option) kern" where
  "argfd n =
     kbind (argint n) (\<lambda>r. case r of
       None \<Rightarrow> ret None
     | Some fd \<Rightarrow> gets (\<lambda>s.
         if sint fd < 0 \<or> sint fd \<ge> int NOFILE then None
         else case p_ofile (proc_at s (curproc s)) ! nat (sint fd) of
           None \<Rightarrow> None
         | Some f \<Rightarrow> Some (nat (sint fd), f)))"

definition set_ofile :: "nat \<Rightarrow> nat option \<Rightarrow> ('z ftst_scheme, unit) kern" where
  "set_ofile fd f = (\<lambda>s. updp (curproc s) (\<lambda>p. p\<lparr>p_ofile := (p_ofile p)[fd := f]\<rparr>) s)"

definition fdalloc :: "nat \<Rightarrow> ('z ftst_scheme, nat option) kern" where
  "fdalloc f =
     kbind (gets (\<lambda>s. find_slot (\<lambda>x. x = None) (p_ofile (proc_at s (curproc s))))) (\<lambda>r. case r of
       Some fd \<Rightarrow> kseq (set_ofile fd (Some f)) (ret (Some fd))
     | None \<Rightarrow> ret None)"

definition sys_dup :: "('z ftst_scheme, cint) kern" where
  "sys_dup =
     arg (argfd 0) (\<lambda>(_, f).
     arg (fdalloc f) (\<lambda>fd.
     kbind (filedup f) (\<lambda>_. ret (of_nat fd))))"

definition sys_read :: "'z ftst_scheme devsw \<Rightarrow> ('z ftst_scheme, cint) kern" where
  "sys_read dv =
     arg (argfd 0) (\<lambda>(_, f).
     arg (argint 2) (\<lambda>n.
     arg (argptr 1 n) (\<lambda>p.
     kbind (fileread dv f n) (\<lambda>(r, xs). kseq (ustores p xs) (ret r)))))"

definition sys_write :: "'z ftst_scheme devsw \<Rightarrow> ('z ftst_scheme, cint) kern" where
  "sys_write dv =
     arg (argfd 0) (\<lambda>(_, f).
     arg (argint 2) (\<lambda>n.
     arg (argptr 1 n) (\<lambda>p.
     kbind (uloads p (unat n)) (\<lambda>xs. filewrite dv f xs))))"

definition sys_close :: "('z ftst_scheme, cint) kern" where
  "sys_close =
     arg (argfd 0) (\<lambda>(fd, f).
     kseq (set_ofile fd None)
     (kseq (fileclose f)
           (ret 0)))"

text \<open>The fields of \<^verbatim>\<open>struct stat\<close> at their offsets: type 0, dev 4, ino 8, nlink 12, size 16.\<close>

definition sizeof_stat :: uint where "sizeof_stat = 20"

definition put_stat :: "uint \<Rightarrow> stat \<Rightarrow> ('z vmst_scheme, unit) kern" where
  "put_stat a st =
     kseq (ustore32 (a + 4) (st_dev st))
     (kseq (ustore32 (a + 8) (st_ino st))
     (kseq (ustores a [ucast (st_type st), ucast (drop_bit 8 (st_type st))])
     (kseq (ustores (a + 12) [ucast (st_nlink st), ucast (drop_bit 8 (st_nlink st))])
           (ustore32 (a + 16) (st_size st)))))"

definition sys_fstat :: "('z ftst_scheme, cint) kern" where
  "sys_fstat =
     arg (argfd 0) (\<lambda>(_, f).
     arg (argptr 1 sizeof_stat) (\<lambda>a.
     kbind (filestat f) (\<lambda>r. case r of None \<Rightarrow> ret (- 1) | Some st \<Rightarrow> kseq (put_stat a st) (ret 0))))"

subsection \<open>Links\<close>

definition sys_link_bad :: "nat \<Rightarrow> ('z ftst_scheme, cint) kern" where
  "sys_link_bad ip =
     kseq (ilock ip)
     (kseq (updi ip (\<lambda>x. x\<lparr>i_nlink := i_nlink x - 1\<rparr>))
     (kseq (iupdate ip)
     (kseq (iunlockput ip)
     (kseq end_op
           (ret (- 1))))))"

definition sys_link :: "'z ftst_scheme devsw \<Rightarrow> ('z ftst_scheme, cint) kern" where
  "sys_link dv =
     arg (argstr 0) (\<lambda>old.
     arg (argstr 1) (\<lambda>new.
     kseq begin_op
     (kbind (namei dv old) (\<lambda>r. case r of
        None \<Rightarrow> kseq end_op (ret (- 1))
      | Some ip \<Rightarrow>
          kseq (ilock ip)
          (kif (\<lambda>s. i_type (inode_at s ip) = T_DIR)
             (kseq (iunlockput ip) (kseq end_op (ret (- 1))))
          (kseq (updi ip (\<lambda>x. x\<lparr>i_nlink := i_nlink x + 1\<rparr>))
          (kseq (iupdate ip)
          (kseq (iunlock ip)
          (kbind (nameiparent dv new (replicate DIRSIZ 0)) (\<lambda>(r, name). case r of
             None \<Rightarrow> sys_link_bad ip
           | Some dp \<Rightarrow>
               kseq (ilock dp)
               (kbind (kif (\<lambda>s. i_dev (inode_at s dp) \<noteq> i_dev (inode_at s ip)) (ret (- 1))
                         (\<lambda>s. dirlink dv dp name (i_inum (inode_at s ip)) s)) (\<lambda>r.
                if sint r < 0 then kseq (iunlockput dp) (sys_link_bad ip)
                else
                  kseq (iunlockput dp)
                  (kseq (iput ip)
                  (kseq end_op
                        (ret 0)))))))))))))))"

definition isdirempty_body :: "'z ftst_scheme devsw \<Rightarrow> nat \<Rightarrow> uint \<Rightarrow> ('z ftst_scheme, uint + bool) kern" where
  "isdirempty_body dv dp off =
     kif (\<lambda>s. \<not> off < i_size (inode_at s dp)) (ret (Inr True))
     (kbind (readi dv dp off (of_nat sizeof_dirent)) (\<lambda>(r, de).
      if r \<noteq> of_nat sizeof_dirent then panic ''isdirempty: readi''
      else if de_inum de \<noteq> 0 then ret (Inr False)
      else ret (Inl (off + of_nat sizeof_dirent))))"

definition isdirempty :: "'z ftst_scheme devsw \<Rightarrow> nat \<Rightarrow> ('z ftst_scheme, bool) kern" where
  "isdirempty dv dp = (\<lambda>s. kloop (unat (i_size (inode_at s dp)) + 1) (isdirempty_body dv dp) (of_nat (2 * sizeof_dirent)) s)"

definition sys_unlink_bad :: "nat \<Rightarrow> ('z ftst_scheme, cint) kern" where
  "sys_unlink_bad dp = kseq (iunlockput dp) (kseq end_op (ret (- 1)))"

definition sys_unlink :: "'z ftst_scheme devsw \<Rightarrow> ('z ftst_scheme, cint) kern" where
  "sys_unlink dv =
     arg (argstr 0) (\<lambda>path.
     kseq begin_op
     (kbind (nameiparent dv path (replicate DIRSIZ 0)) (\<lambda>(r, name). case r of
        None \<Rightarrow> kseq end_op (ret (- 1))
      | Some dp \<Rightarrow>
          kseq (ilock dp)
          (if namecmp name (str ''.'') = 0 \<or> namecmp name (str ''..'') = 0 then sys_unlink_bad dp
           else
             kbind (dirlookup dv dp name) (\<lambda>r. case r of
               None \<Rightarrow> sys_unlink_bad dp
             | Some (ip, off) \<Rightarrow>
                 kseq (ilock ip)
                 (kif (\<lambda>s. sint (i_nlink (inode_at s ip)) < 1) (panic ''unlink: nlink < 1'')
                 (kbind (kif (\<lambda>s. i_type (inode_at s ip) = T_DIR) (kbind (isdirempty dv ip) (\<lambda>e. ret (\<not> e))) (ret False)) (\<lambda>busy.
                  if busy then kseq (iunlockput ip) (sys_unlink_bad dp)
                  else
                    kbind (writei dv dp (replicate sizeof_dirent 0) off) (\<lambda>w.
                    if w \<noteq> of_nat sizeof_dirent then panic ''unlink: writei''
                    else
                      kseq (kwhen (\<lambda>s. i_type (inode_at s ip) = T_DIR)
                              (kseq (updi dp (\<lambda>x. x\<lparr>i_nlink := i_nlink x - 1\<rparr>)) (iupdate dp)))
                      (kseq (iunlockput dp)
                      (kseq (updi ip (\<lambda>x. x\<lparr>i_nlink := i_nlink x - 1\<rparr>))
                      (kseq (iupdate ip)
                      (kseq (iunlockput ip)
                      (kseq end_op
                            (ret 0)))))))))))))))"

subsection \<open>Creating and opening\<close>

definition create :: "'z ftst_scheme devsw \<Rightarrow> byte list \<Rightarrow> ushort \<Rightarrow> ushort \<Rightarrow> ushort \<Rightarrow> ('z ftst_scheme, nat option) kern" where
  "create dv path type major minor =
     kbind (nameiparent dv path (replicate DIRSIZ 0)) (\<lambda>(r, name). case r of
       None \<Rightarrow> ret None
     | Some dp \<Rightarrow>
         kseq (ilock dp)
         (kbind (dirlookup dv dp name) (\<lambda>r. case r of
            Some (ip, _) \<Rightarrow>
              kseq (iunlockput dp)
              (kseq (ilock ip)
              (kif (\<lambda>s. type = T_FILE \<and> i_type (inode_at s ip) = T_FILE) (ret (Some ip))
                   (kseq (iunlockput ip) (ret None))))
          | None \<Rightarrow>
              kbind (\<lambda>s. ialloc (i_dev (inode_at s dp)) type s) (\<lambda>ip.
              kseq (ilock ip)
              (kseq (updi ip (i_major_update (\<lambda>_. major)))
              (kseq (updi ip (i_minor_update (\<lambda>_. minor)))
              (kseq (updi ip (i_nlink_update (\<lambda>_. 1)))
              (kseq (iupdate ip)
              (kseq
                (if type = T_DIR then
                   kseq (updi dp (\<lambda>x. x\<lparr>i_nlink := i_nlink x + 1\<rparr>))
                   (kseq (iupdate dp)
                   (kbind (\<lambda>s. dirlink dv ip (str ''.'') (i_inum (inode_at s ip)) s) (\<lambda>r.
                    if sint r < 0 then panic ''create dots''
                    else
                      kbind (\<lambda>s. dirlink dv ip (str ''..'') (i_inum (inode_at s dp)) s) (\<lambda>r.
                      if sint r < 0 then panic ''create dots'' else ret ()))))
                 else ret ())
              (kbind (\<lambda>s. dirlink dv dp name (i_inum (inode_at s ip)) s) (\<lambda>r.
               if sint r < 0 then panic ''create: dirlink''
               else
                 kseq (iunlockput dp)
                      (ret (Some ip)))))))))))))"

text \<open>sys_open once it has its locked inode.\<close>

definition sys_open_file :: "nat \<Rightarrow> cint \<Rightarrow> ('z ftst_scheme, cint) kern" where
  "sys_open_file ip omode =
     kbind filealloc (\<lambda>r. case r of
       None \<Rightarrow> kseq (iunlockput ip) (kseq end_op (ret (- 1)))
     | Some f \<Rightarrow>
         kbind (fdalloc f) (\<lambda>r. case r of
           None \<Rightarrow> kseq (fileclose f) (kseq (iunlockput ip) (kseq end_op (ret (- 1))))
         | Some fd \<Rightarrow>
             kseq (iunlock ip)
             (kseq end_op
             (kseq (updf f (\<lambda>x. x\<lparr>f_type := FD_INODE, f_ip := ip, f_off := 0,
                      f_readable := omode AND O_WRONLY = 0, f_writable := omode AND O_WRONLY \<noteq> 0 \<or> omode AND O_RDWR \<noteq> 0\<rparr>))
                   (ret (of_nat fd))))))"

definition sys_open :: "'z ftst_scheme devsw \<Rightarrow> ('z ftst_scheme, cint) kern" where
  "sys_open dv =
     arg (argstr 0) (\<lambda>path.
     arg (argint 1) (\<lambda>omode.
     kseq begin_op
     (if omode AND O_CREATE \<noteq> 0 then
        kbind (create dv path T_FILE 0 0) (\<lambda>r. case r of
          None \<Rightarrow> kseq end_op (ret (- 1))
        | Some ip \<Rightarrow> sys_open_file ip omode)
      else
        kbind (namei dv path) (\<lambda>r. case r of
          None \<Rightarrow> kseq end_op (ret (- 1))
        | Some ip \<Rightarrow>
            kseq (ilock ip)
            (kif (\<lambda>s. i_type (inode_at s ip) = T_DIR \<and> omode \<noteq> O_RDONLY)
               (kseq (iunlockput ip) (kseq end_op (ret (- 1))))
               (sys_open_file ip omode))))))"

text \<open>The common end of mkdir and mknod: an inode made, or a failure inside the transaction.\<close>

definition sys_made :: "nat option \<Rightarrow> ('z ftst_scheme, cint) kern" where
  "sys_made r = (case r of
       None \<Rightarrow> kseq end_op (ret (- 1))
     | Some ip \<Rightarrow> kseq (iunlockput ip) (kseq end_op (ret 0)))"

definition sys_mkdir :: "'z ftst_scheme devsw \<Rightarrow> ('z ftst_scheme, cint) kern" where
  "sys_mkdir dv =
     kseq begin_op
     (kbind (argstr 0) (\<lambda>r. case r of
        None \<Rightarrow> sys_made None
      | Some path \<Rightarrow> kbind (create dv path T_DIR 0 0) sys_made))"

definition sys_mknod :: "'z ftst_scheme devsw \<Rightarrow> ('z ftst_scheme, cint) kern" where
  "sys_mknod dv =
     kseq begin_op
     (kbind (argstr 0) (\<lambda>r. case r of None \<Rightarrow> sys_made None | Some path \<Rightarrow>
      kbind (argint 1) (\<lambda>r. case r of None \<Rightarrow> sys_made None | Some major \<Rightarrow>
      kbind (argint 2) (\<lambda>r. case r of None \<Rightarrow> sys_made None | Some minor \<Rightarrow>
      kbind (create dv path T_DEV (ucast major) (ucast minor)) sys_made))))"

definition sys_chdir :: "'z ftst_scheme devsw \<Rightarrow> ('z ftst_scheme, cint) kern" where
  "sys_chdir dv =
     kseq begin_op
     (kbind (argstr 0) (\<lambda>r. case r of None \<Rightarrow> kseq end_op (ret (- 1)) | Some path \<Rightarrow>
      kbind (namei dv path) (\<lambda>r. case r of None \<Rightarrow> kseq end_op (ret (- 1)) | Some ip \<Rightarrow>
        kseq (ilock ip)
        (kif (\<lambda>s. i_type (inode_at s ip) \<noteq> T_DIR)
           (kseq (iunlockput ip) (kseq end_op (ret (- 1))))
        (kseq (iunlock ip)
        (kseq (\<lambda>s. case p_cwd (proc_at s (curproc s)) of None \<Rightarrow> undef s | Some c \<Rightarrow> iput c s)
        (kseq end_op
        (kseq (\<lambda>s. updp (curproc s) (p_cwd_update (\<lambda>_. Some ip)) s)
              (ret 0)))))))))"

definition sys_exec_body :: "uint \<Rightarrow> nat \<times> byte list list \<Rightarrow> ('z ftst_scheme, nat \<times> byte list list + byte list list option) kern" where
  "sys_exec_body uargv = (\<lambda>(i, argv).
     if i \<ge> MAXARG then ret (Inr None)
     else
       kbind (fetchint (uargv + 4 * of_nat i)) (\<lambda>r. case r of
         None \<Rightarrow> ret (Inr None)
       | Some uarg \<Rightarrow>
           if uarg = 0 then ret (Inr (Some argv))
           else
             kbind (fetchstr uarg) (\<lambda>r. case r of
               None \<Rightarrow> ret (Inr None)
             | Some xs \<Rightarrow> ret (Inl (i + 1, argv @ [xs])))))"

definition sys_exec :: "'z ftst_scheme devsw \<Rightarrow> ('z ftst_scheme, cint) kern" where
  "sys_exec dv =
     arg (argstr 0) (\<lambda>path.
     arg (argint 1) (\<lambda>uargv.
     arg (kloop (MAXARG + 1) (sys_exec_body uargv) (0, [])) (\<lambda>argv.
     exec dv path argv)))"

definition sys_pipe :: "('z ftst_scheme, cint) kern" where
  "sys_pipe =
     arg (argptr 0 8) (\<lambda>fd.
     arg pipealloc (\<lambda>(rf, wf).
     kbind (fdalloc rf) (\<lambda>r0. case r0 of
       None \<Rightarrow> kseq (fileclose rf) (kseq (fileclose wf) (ret (- 1)))
     | Some fd0 \<Rightarrow>
         kbind (fdalloc wf) (\<lambda>r1. case r1 of
           None \<Rightarrow> kseq (set_ofile fd0 None) (kseq (fileclose rf) (kseq (fileclose wf) (ret (- 1))))
         | Some fd1 \<Rightarrow>
             kseq (ustore32 fd (of_nat fd0))
             (kseq (ustore32 (fd + 4) (of_nat fd1))
                   (ret 0))))))"

end
