(* ===== verification/Life.thy ===== *)
theory Life
  imports Sysfile
begin

text \<open>
  The life of a process: userinit, fork, exit and growproc of proc.c, the first return of a new process
  (forkret), and the system calls of sysproc.c. \<open>first\<close> is the static variable of forkret.
\<close>

unbundle bit_operations_syntax

record sysst = ftst +
  first :: bool

definition pinit :: "('z ptab_scheme, unit) kern" where
  "pinit = modify (\<lambda>s. s\<lparr>held := held s - {PtableLock}\<rparr>)"

definition set16 :: "uint \<Rightarrow> ushort \<Rightarrow> ('z kmem_scheme, unit) kern" where
  "set16 a v = modify (\<lambda>s. s\<lparr>mem := (mem s)(a := ucast v, a + 1 := ucast (drop_bit 8 v))\<rparr>)"

definition DPL_USER :: uint where "DPL_USER = 3"
definition FL_IF :: uint where "FL_IF = 0x200"

text \<open>The user segment selectors \<^verbatim>\<open>(SEG_UCODE << 3) | DPL_USER\<close> and \<^verbatim>\<open>(SEG_UDATA << 3) | DPL_USER\<close>.\<close>

definition user_sel :: "nat \<Rightarrow> ushort" where
  "user_sel seg = push_bit 3 (of_nat seg) OR ucast DPL_USER"

text \<open>userinit; the linker's \<^verbatim>\<open>_binary_initcode_start\<close> and \<^verbatim>\<open>_binary_initcode_size\<close> are arguments.\<close>

definition userinit :: "'z ftst_scheme devsw \<Rightarrow> uint \<Rightarrow> uint \<Rightarrow> ('z ftst_scheme, unit) kern" where
  "userinit dv code_start code_size =
     kbind allocproc (\<lambda>r.
     kseq (modify (\<lambda>s. s\<lparr>initproc := r\<rparr>))
     (case r of None \<Rightarrow> undef | Some p \<Rightarrow>
      kbind setupkvm (\<lambda>d.
      kseq (updp p (p_pgdir_update (\<lambda>_. d)))
      (if d = 0 then panic ''userinit: out of memory?''
       else
         kseq (inituvm d code_start code_size)
         (kseq (updp p (p_sz_update (\<lambda>_. PGSIZE)))
         (kseq (\<lambda>s. kmemset (p_tf (proc_at s p)) 0 sizeof_tf s)
         (kseq (\<lambda>s. set16 (p_tf (proc_at s p) + tf_cs) (user_sel SEG_UCODE) s)
         (kseq (\<lambda>s. set16 (p_tf (proc_at s p) + tf_ds) (user_sel SEG_UDATA) s)
         (kseq (\<lambda>s. set16 (p_tf (proc_at s p) + tf_es) (user_sel SEG_UDATA) s)
         (kseq (\<lambda>s. set16 (p_tf (proc_at s p) + tf_ss) (user_sel SEG_UDATA) s)
         (kseq (\<lambda>s. set32 (p_tf (proc_at s p) + tf_eflags) FL_IF s)
         (kseq (\<lambda>s. set32 (p_tf (proc_at s p) + tf_esp) PGSIZE s)
         (kseq (\<lambda>s. set32 (p_tf (proc_at s p) + tf_eip) 0 s)
         (kseq (updp p (\<lambda>q. q\<lparr>p_name := safestrcpy (p_name q) (str ''initcode'') 16\<rparr>))
         (kbind (namei dv (str ''/'')) (\<lambda>c.
          kseq (updp p (p_cwd_update (\<lambda>_. c)))
               (set_runnable p)))))))))))))))))"

definition growproc :: "cint \<Rightarrow> ('z ptab_scheme, cint) kern" where
  "growproc n = (\<lambda>s.
     let me = curproc s; sz = p_sz (proc_at s me) in
     kbind
       (if sint n > 0 then allocuvm (p_pgdir (proc_at s me)) sz (sz + n)
        else if sint n < 0 then deallocuvm (p_pgdir (proc_at s me)) sz (sz + n)
        else ret sz) (\<lambda>sz'.
     if sint n \<noteq> 0 \<and> sz' = 0 then ret (- 1)
     else
       kseq (updp me (p_sz_update (\<lambda>_. sz')))
       (kseq (\<lambda>s. switchuvm (Some (p_kstack (proc_at s me), p_pgdir (proc_at s me))) s)
             (ret 0))) s)"

definition fork_file :: "nat \<Rightarrow> nat \<Rightarrow> ('z ftst_scheme, unit) kern" where
  "fork_file np i = (\<lambda>s. case p_ofile (proc_at s (curproc s)) ! i of
       None \<Rightarrow> Ok () s
     | Some f \<Rightarrow> kbind (filedup f) (\<lambda>f. updp np (\<lambda>q. q\<lparr>p_ofile := (p_ofile q)[i := Some f]\<rparr>)) s)"

definition fork :: "('z ftst_scheme, cint) kern" where
  "fork =
     kbind allocproc (\<lambda>r. case r of
       None \<Rightarrow> ret (- 1)
     | Some np \<Rightarrow>
         kbind (\<lambda>s. copyuvm (p_pgdir (proc_at s (curproc s))) (p_sz (proc_at s (curproc s))) s) (\<lambda>d.
         kseq (updp np (p_pgdir_update (\<lambda>_. d)))
         (if d = 0 then kseq (fork_abort np) (ret (- 1))
          else
            kseq (fork_inherit np)
            (kseq (kfor (fork_file np) [0..<NOFILE])
            (kbind (\<lambda>s. case p_cwd (proc_at s (curproc s)) of None \<Rightarrow> undef s | Some c \<Rightarrow> idup c s) (\<lambda>c.
             kseq (updp np (p_cwd_update (\<lambda>_. Some c)))
             (kseq (\<lambda>s. updp np (\<lambda>q. q\<lparr>p_name := safestrcpy (p_name q) (p_name (proc_at s (curproc s))) 16\<rparr>) s)
             (kbind (gets (\<lambda>s. p_pid (proc_at s np))) (\<lambda>pid.
              kseq (set_runnable np)
                   (ret pid))))))))))"

definition exit_file :: "nat \<Rightarrow> ('z ftst_scheme, unit) kern" where
  "exit_file fd = (\<lambda>s. case p_ofile (proc_at s (curproc s)) ! fd of
       None \<Rightarrow> Ok () s
     | Some f \<Rightarrow> kseq (fileclose f) (set_ofile fd None) s)"

definition exit :: "('z ftst_scheme, unit) kern" where
  "exit =
     kif (\<lambda>s. myproc s = initproc s) (panic ''init exiting'')
     (kseq (kfor exit_file [0..<NOFILE])
     (kseq begin_op
     (kseq (\<lambda>s. case p_cwd (proc_at s (curproc s)) of None \<Rightarrow> undef s | Some c \<Rightarrow> iput c s)
     (kseq end_op
     (kseq (\<lambda>s. updp (curproc s) (p_cwd_update (\<lambda>_. None)) s)
           exit_finish)))))"

definition forkret :: "('z sysst_scheme, unit) kern" where
  "forkret =
     kseq (release PtableLock)
     (kwhen first
        (kseq (modify (\<lambda>s. s\<lparr>first := False\<rparr>))
        (kseq (iinit ROOTDEV)
              (initlog ROOTDEV))))"

subsection \<open>sysproc.c\<close>

definition sys_fork :: "('z ftst_scheme, cint) kern" where
  "sys_fork = fork"

definition sys_exit :: "('z ftst_scheme, cint) kern" where
  "sys_exit = kseq exit (ret 0)"

definition sys_wait :: "('z ftst_scheme, cint) kern" where
  "sys_wait = wait"

definition sys_kill :: "('z ftst_scheme, cint) kern" where
  "sys_kill = arg (argint 0) kill"

definition sys_getpid :: "('z ftst_scheme, cint) kern" where
  "sys_getpid = gets (\<lambda>s. p_pid (proc_at s (curproc s)))"

definition sys_sbrk :: "('z ftst_scheme, cint) kern" where
  "sys_sbrk =
     arg (argint 0) (\<lambda>n.
     kbind (gets (\<lambda>s. p_sz (proc_at s (curproc s)))) (\<lambda>addr.
     kbind (growproc n) (\<lambda>r.
     if sint r < 0 then ret (- 1) else ret addr)))"

text \<open>The test of sys_sleep's loop: the value returned, or \<open>None\<close> before a sleep; \<^verbatim>\<open>ticks - ticks0 < n\<close> is unsigned.\<close>

definition sys_sleep_test :: "uint \<Rightarrow> cint \<Rightarrow> ('z ftst_scheme, cint option) kern" where
  "sys_sleep_test ticks0 n =
     gets (\<lambda>s. if ticks s - ticks0 < n
               then if p_killed (proc_at s (curproc s)) then Some (- 1) else None
               else Some 0)"

definition sys_sleep_loop :: "uint \<Rightarrow> cint \<Rightarrow> ('z ftst_scheme, cint) kern" where
  "sys_sleep_loop ticks0 n =
     kbind (sys_sleep_test ticks0 n) (\<lambda>r. case r of
       Some x \<Rightarrow> ret x
     | None \<Rightarrow> kseq (sleep ChTicks None) (ret 0))"

definition sys_sleep :: "('z ftst_scheme, cint) kern" where
  "sys_sleep =
     arg (argint 0) (\<lambda>n.
     kbind (gets ticks) (\<lambda>ticks0.
     sys_sleep_loop ticks0 n))"

definition sys_sleep_resume :: "uint \<Rightarrow> cint \<Rightarrow> ('z ftst_scheme, cint) kern" where
  "sys_sleep_resume ticks0 n = kseq (sleep_exit None) (sys_sleep_loop ticks0 n)"

definition sys_uptime :: "('z ftst_scheme, cint) kern" where
  "sys_uptime = gets ticks"

end
