(* ===== verification/Console.thy ===== *)
theory Console
  imports Life "HOL-Library.Signed_Division"
begin

text \<open>
  console.c, with the output half of uart.c and procdump of proc.c: formatted output, the CGA screen, and the
  input buffer with its line editing. The hardware is the state: the bytes sent to the serial port, the screen
  memory and the cursor. An interrupt brings the list of characters that \<^verbatim>\<open>getc\<close> returns before it returns a
  negative value.
\<close>

unbundle bit_operations_syntax

definition INPUT_BUF :: nat where "INPUT_BUF = 128"
definition BACKSPACE :: int where "BACKSPACE = 0x100"

text \<open>\<^verbatim>\<open>C(x)\<close>, control-x.\<close>

definition ctl :: "char \<Rightarrow> int" where
  "ctl c = of_char c - 0x40"

record consst = sysst +
  cons_locking :: bool
  panicked :: bool
  uart :: bool
  uart_out :: "byte list"
  crt :: "nat \<Rightarrow> ushort"
  crt_pos :: nat
  poweroff :: bool
  in_buf :: "byte list"
  in_r :: uint
  in_w :: uint
  in_e :: uint

abbreviation nl :: string where "nl \<equiv> [CHR 0x0A]"
abbreviation tab :: string where "tab \<equiv> [CHR 0x09]"

subsection \<open>Output\<close>

definition uartputc :: "int \<Rightarrow> ('z consst_scheme, unit) kern" where
  "uartputc c = kwhen uart (modify (\<lambda>s. s\<lparr>uart_out := uart_out s @ [of_int c]\<rparr>))"

definition cga_scroll :: "(nat \<Rightarrow> ushort) \<Rightarrow> nat \<Rightarrow> nat \<Rightarrow> ushort" where
  "cga_scroll m pos = (\<lambda>i. if pos \<le> i \<and> i < 24 * 80 then 0 else if i < 23 * 80 then m (i + 80) else m i)"

definition cgaputc :: "int \<Rightarrow> ('z consst_scheme, unit) kern" where
  "cgaputc c = (\<lambda>s.
     let pos = crt_pos s;
         (m1, pos1) =
           (if c = 0x0A then (crt s, pos + (80 - pos mod 80))
            else if c = BACKSPACE then (crt s, if pos > 0 then pos - 1 else pos)
            else ((crt s)(pos := (of_int c AND 0xFF) OR 0x0700), pos + 1))
     in
     if pos1 > 25 * 80 then Panic ''pos under/overflow''
     else
       let (m2, pos2) = (if pos1 div 80 \<ge> 24 then (cga_scroll m1 (pos1 - 80), pos1 - 80) else (m1, pos1)) in
       Ok () (s\<lparr>crt := m2(pos2 := 0x20 OR 0x0700), crt_pos := pos2\<rparr>))"

definition consputc :: "int \<Rightarrow> ('z consst_scheme, unit) kern" where
  "consputc c =
     kif panicked (\<lambda>_. Spin)
     (kseq (if c = BACKSPACE then kseq (uartputc 8) (kseq (uartputc 0x20) (uartputc 8)) else uartputc c)
           (cgaputc c))"

definition consputs :: "byte list \<Rightarrow> ('z consst_scheme, unit) kern" where
  "consputs xs = kfor (\<lambda>c. consputc (uint c)) xs"

definition con_digit :: "nat \<Rightarrow> byte" where
  "con_digit d = str ''0123456789abcdef'' ! d"

function con_digits :: "nat \<Rightarrow> nat \<Rightarrow> byte list" where
  "con_digits b x = con_digit (x mod b) # (if x < b \<or> b < 2 then [] else con_digits b (x div b))"
  by auto

termination by (relation "measure snd") (auto intro: div_less_dividend)

declare con_digits.simps [simp del]

definition con_printint :: "cint \<Rightarrow> nat \<Rightarrow> bool \<Rightarrow> byte list" where
  "con_printint xx base sign =
    (let neg = (sign \<and> sint xx < 0); x = (if neg then - xx else xx)
     in rev (con_digits base (unat x) @ (if neg then [0x2D] else [])))"

text \<open>
  An argument of cprintf: a word, or a pointer given by the string it points to. \<open>cprintf_out\<close> is what the loop
  of cprintf prints.
\<close>

datatype carg = W uint | S "byte list"

fun carg_word :: "carg \<Rightarrow> uint" where
  "carg_word (W w) = w"
| "carg_word (S s) = 0"

fun carg_str :: "carg \<Rightarrow> byte list" where
  "carg_str (W w) = (if w = 0 then str ''(null)'' else [])"
| "carg_str (S s) = cstr s"

fun cprintf_out :: "byte list \<Rightarrow> carg list \<Rightarrow> byte list" where
  "cprintf_out [] as = []"
| "cprintf_out [c] as = (if c = 0 \<or> c = 0x25 then [] else [c])"
| "cprintf_out (c # d # fmt) as =
    (if c = 0 then []
     else if c \<noteq> 0x25 then c # cprintf_out (d # fmt) as
     else if d = 0 then []
     else if d = of_char CHR ''d'' then con_printint (carg_word (hd as)) 10 True @ cprintf_out fmt (tl as)
     else if d = of_char CHR ''x'' \<or> d = of_char CHR ''p'' then con_printint (carg_word (hd as)) 16 False @ cprintf_out fmt (tl as)
     else if d = of_char CHR ''s'' then carg_str (hd as) @ cprintf_out fmt (tl as)
     else if d = 0x25 then 0x25 # cprintf_out fmt as
     else 0x25 # d # cprintf_out fmt as)"

definition con_cprintf :: "string \<Rightarrow> carg list \<Rightarrow> ('z consst_scheme, unit) kern" where
  "con_cprintf fmt as =
     kbind (gets cons_locking) (\<lambda>locking.
     kseq (if locking then acquire ConsLock else ret ())
     (kseq (consputs (cprintf_out (str fmt) as))
           (if locking then release ConsLock else ret ())))"

definition do_shutdown :: "('z consst_scheme, unit) kern" where
  "do_shutdown =
     kseq (con_cprintf (nl @ ''Shutting down ...'' @ nl) [])
          (modify (\<lambda>s. s\<lparr>poweroff := True\<rparr>))"

definition sys_halt :: "('z consst_scheme, cint) kern" where
  "sys_halt = kseq do_shutdown (ret 0)"

text \<open>getcallerpcs: the saved program counters along the chain of frame pointers, padded with zeros to ten.\<close>

fun pcs_from :: "mem \<Rightarrow> uint \<Rightarrow> nat \<Rightarrow> uint list" where
  "pcs_from m ebp 0 = []"
| "pcs_from m ebp (Suc n) =
    (if ebp = 0 \<or> ebp < KERNBASE \<or> ebp = 0xffffffff then replicate (Suc n) 0
     else load32 m (ebp + 4) # pcs_from m (load32 m ebp) n)"

definition getcallerpcs :: "mem \<Rightarrow> uint \<Rightarrow> uint list" where
  "getcallerpcs m v = pcs_from m (v - 8) 10"

subsection \<open>procdump\<close>

definition state_name :: "procstate \<Rightarrow> string" where
  "state_name st = (case st of UNUSED \<Rightarrow> ''unused'' | EMBRYO \<Rightarrow> ''embryo'' | SLEEPING \<Rightarrow> ''sleep '' | RUNNABLE \<Rightarrow> ''runble''
     | RUNNING \<Rightarrow> ''run   '' | ZOMBIE \<Rightarrow> ''zombie'')"

text \<open>The zeros procdumpP1 puts before the milliseconds.\<close>

definition pad_ms :: "int \<Rightarrow> string" where
  "pad_ms ms = (if ms < 10 then ''00'' else if ms < 100 \<and> ms \<ge> 10 then ''0'' else '''')"

definition procdumpP1 :: "proc \<Rightarrow> ('z consst_scheme, unit) kern" where
  "procdumpP1 p = (\<lambda>s.
     let ms0 = sint (ticks s - p_start_ticks p); sec = ms0 sdiv 1000; ms = ms0 smod 1000 in
     con_cprintf (''%d'' @ tab @ ''%s'' @ tab @ ''%s%d.%s%d'' @ tab @ ''%s'' @ tab @ ''%d'' @ tab)
       [W (p_pid p), S (p_name p), S (str ''     ''), W (of_int sec), S (str (pad_ms ms)), W (of_int ms),
        S (str (state_name (p_state p))), W (p_sz p)] s)"

text \<open>\<^verbatim>\<open>p->context->ebp\<close> is the fourth word of the saved context.\<close>

definition context_ebp :: uint where "context_ebp = 12"

definition procdump_row :: "nat \<Rightarrow> ('z consst_scheme, unit) kern" where
  "procdump_row i = (\<lambda>s.
     let p = proc_at s i in
     if p_state p = UNUSED then Ok () s
     else
       kseq (procdumpP1 p)
       (kseq (if p_state p = SLEEPING
              then kfor (\<lambda>pc. con_cprintf '' %p'' [W pc]) (takeWhile (\<lambda>pc. pc \<noteq> 0) (getcallerpcs (mem s) (load32 (mem s) (p_context p + context_ebp) + 8)))
              else ret ())
             (con_cprintf nl [])) s)"

definition procdump :: "('z consst_scheme, unit) kern" where
  "procdump =
     kseq (con_cprintf (nl @ ''PID'' @ tab @ ''Name         Elapsed'' @ tab @ ''State'' @ tab @ ''Size'' @ tab @ '' PCs'' @ nl) [])
     (kseq (kfor procdump_row [0..<NPROC])
           (con_cprintf ''$ '' []))"


subsection \<open>Input\<close>

text \<open>The byte at a free-running index of the input buffer.\<close>

abbreviation in_at :: "'z consst_scheme \<Rightarrow> uint \<Rightarrow> byte" where
  "in_at s i \<equiv> in_buf s ! (unat i mod INPUT_BUF)"

definition kill_line_body :: "unit \<Rightarrow> ('z consst_scheme, unit + unit) kern" where
  "kill_line_body _ =
     kif (\<lambda>s. in_e s \<noteq> in_w s \<and> in_at s (in_e s - 1) \<noteq> 0x0A)
       (kseq (modify (\<lambda>s. s\<lparr>in_e := in_e s - 1\<rparr>)) (kseq (consputc BACKSPACE) (ret (Inl ()))))
       (ret (Inr ()))"

definition kill_line :: "('z consst_scheme, unit) kern" where
  "kill_line = kloop (INPUT_BUF + 1) kill_line_body ()"

definition rub_out :: "('z consst_scheme, unit) kern" where
  "rub_out =
     kwhen (\<lambda>s. in_e s \<noteq> in_w s)
       (kseq (modify (\<lambda>s. s\<lparr>in_e := in_e s - 1\<rparr>)) (consputc BACKSPACE))"

definition take_char :: "int \<Rightarrow> ('z consst_scheme, unit) kern" where
  "take_char c =
     kwhen (\<lambda>s. c \<noteq> 0 \<and> in_e s - in_r s < of_nat INPUT_BUF)
       (let c = (if c = 0x0D then 0x0A else c) in
        kseq (modify (\<lambda>s. s\<lparr>in_buf := (in_buf s)[unat (in_e s) mod INPUT_BUF := of_int c]\<rparr>))
        (kseq (modify (\<lambda>s. s\<lparr>in_e := in_e s + 1\<rparr>))
        (kseq (consputc c)
        (kwhen (\<lambda>s. c = 0x0A \<or> c = ctl CHR ''D'' \<or> in_e s = in_r s + of_nat INPUT_BUF)
          (kseq (modify (\<lambda>s. s\<lparr>in_w := in_e s\<rparr>))
                (wakeup ChInput))))))"

text \<open>One turn of the loop of consoleintr; the flags are \<^verbatim>\<open>doprocdump\<close> and \<^verbatim>\<open>shutdown\<close>.\<close>

definition console_char :: "int \<Rightarrow> bool \<times> bool \<Rightarrow> ('z consst_scheme, bool \<times> bool) kern" where
  "console_char c = (\<lambda>(dump, down).
     if c = ctl CHR ''P'' then ret (True, down)
     else if c = ctl CHR ''U'' then kseq kill_line (ret (dump, down))
     else if c = ctl CHR ''H'' \<or> c = 0x7F then kseq rub_out (ret (dump, down))
     else if c = ctl CHR ''D'' then ret (dump, True)
     else kseq (take_char c) (ret (dump, down)))"

definition consoleintr :: "int list \<Rightarrow> ('z consst_scheme, unit) kern" where
  "consoleintr cs =
     kseq (acquire ConsLock)
     (kbind (kfold console_char cs (False, False)) (\<lambda>(dump, down).
      kseq (release ConsLock)
      (kseq (if down then do_shutdown else ret ())
            (if dump then procdump else ret ()))))"

text \<open>
  The loop of consoleread, with the count \<^verbatim>\<open>n\<close> left and the bytes copied: it ends with the count left, or with
  \<open>None\<close> for a killed process, or is about to sleep (\<open>Inl\<close>).
\<close>

definition consoleread_body :: "uint \<Rightarrow> uint \<times> byte list \<Rightarrow> ('z consst_scheme, uint \<times> byte list + ((uint \<times> byte list) + (uint \<times> byte list) option)) kern" where
  "consoleread_body target = (\<lambda>(n, acc).
     if \<not> sint n > 0 then ret (Inr (Inr (Some (n, acc))))
     else
       kif (\<lambda>s. in_r s = in_w s)
         (kif (\<lambda>s. p_killed (proc_at s (curproc s))) (ret (Inr (Inr None))) (ret (Inr (Inl (n, acc)))))
         (kbind (gets (\<lambda>s. in_at s (in_r s))) (\<lambda>c.
          kseq (modify (\<lambda>s. s\<lparr>in_r := in_r s + 1\<rparr>))
          (if c = of_int (ctl CHR ''D'') then
             kseq (if n < target then modify (\<lambda>s. s\<lparr>in_r := in_r s - 1\<rparr>) else ret ())
                  (ret (Inr (Inr (Some (n, acc)))))
           else if c = 0x0A then ret (Inr (Inr (Some (n - 1, acc @ [c]))))
           else ret (Inl (n - 1, acc @ [c]))))))"

definition consoleread_loop :: "nat \<Rightarrow> uint \<Rightarrow> uint \<Rightarrow> byte list \<Rightarrow> ('z consst_scheme, cint \<times> byte list) kern" where
  "consoleread_loop ip target n acc =
     kbind (kloop (nat (sint n) + 1) (consoleread_body target) (n, acc)) (\<lambda>r. case r of
       Inl _ \<Rightarrow> kseq (sleep ChInput (Some ConsLock)) (ret (0, []))
     | Inr None \<Rightarrow> kseq (release ConsLock) (kseq (ilock ip) (ret (- 1, [])))
     | Inr (Some (n, acc)) \<Rightarrow> kseq (release ConsLock) (kseq (ilock ip) (ret (target - n, acc))))"

definition consoleread :: "nat \<Rightarrow> uint \<Rightarrow> ('z consst_scheme, cint \<times> byte list) kern" where
  "consoleread ip n =
     kseq (iunlock ip)
     (kseq (acquire ConsLock)
           (consoleread_loop ip n n []))"

definition consoleread_resume :: "nat \<Rightarrow> uint \<Rightarrow> uint \<Rightarrow> byte list \<Rightarrow> ('z consst_scheme, cint \<times> byte list) kern" where
  "consoleread_resume ip target n acc = kseq (sleep_exit (Some ConsLock)) (consoleread_loop ip target n acc)"

definition consolewrite :: "nat \<Rightarrow> byte list \<Rightarrow> ('z consst_scheme, cint) kern" where
  "consolewrite ip xs =
     kseq (iunlock ip)
     (kseq (acquire ConsLock)
     (kseq (consputs xs)
     (kseq (release ConsLock)
     (kseq (ilock ip)
           (ret (of_nat (length xs)))))))"

text \<open>consoleinit puts the two routines into the device table at \<^verbatim>\<open>CONSOLE\<close>.\<close>

definition CONSOLE :: nat where "CONSOLE = 1"

definition console_devsw :: "'z consst_scheme devsw" where
  "console_devsw = \<lparr>dev_read = [CONSOLE \<mapsto> consoleread], dev_write = [CONSOLE \<mapsto> consolewrite]\<rparr>"

definition consoleinit :: "('z consst_scheme, unit) kern" where
  "consoleinit =
     kseq (modify (\<lambda>s. s\<lparr>held := held s - {ConsLock}\<rparr>))
          (modify (\<lambda>s. s\<lparr>cons_locking := True\<rparr>))"

end
