(* ===== verification/Console_Props.thy ===== *)
theory Console_Props
  imports Console
begin

text \<open>
  The console: output never leaves the 24 lines of the screen, the input buffer with its editing keys is a pair of
  byte lists (the completed lines and the line being typed), and a reader gets whole lines.
\<close>

subsection \<open>Output\<close>

text \<open>The cursor is on the screen and the console is alive.\<close>

definition screen_ok :: "'z consst_scheme \<Rightarrow> bool" where
  "screen_ok s \<longleftrightarrow> \<not> panicked s \<and> crt_pos s < 24 * 80"

text \<open>\<open>s'\<close> differs from \<open>s\<close> in what is on the screen, and in the bytes \<open>xs\<close> sent to the serial port.\<close>

definition printed :: "byte list \<Rightarrow> 'z consst_scheme \<Rightarrow> 'z consst_scheme \<Rightarrow> bool" where
  "printed xs s s' \<longleftrightarrow>
     s' = s\<lparr>uart_out := uart_out s @ (if uart s then xs else []), crt := crt s', crt_pos := crt_pos s'\<rparr> \<and>
     crt_pos s' < 24 * 80 \<and> (\<forall>i\<ge>24 * 80. crt s' i = crt s i)"

lemma printed_refl: "screen_ok s \<Longrightarrow> printed [] s s"
  by (simp add: printed_def screen_ok_def)

lemma printedE:
  assumes "printed xs s s'"
  obtains m p where "s' = s\<lparr>uart_out := uart_out s @ (if uart s then xs else []), crt := m, crt_pos := p\<rparr>"
    "p < 24 * 80" "\<And>i. 24 * 80 \<le> i \<Longrightarrow> m i = crt s i"
  using assms unfolding printed_def by blast

lemma printedI:
  "p < 24 * 80 \<Longrightarrow> (\<And>i. 24 * 80 \<le> i \<Longrightarrow> m i = crt s i) \<Longrightarrow>
    printed xs s (s\<lparr>uart_out := uart_out s @ (if uart s then xs else []), crt := m, crt_pos := p\<rparr>)"
  by (simp add: printed_def)

lemma printed_trans: "printed xs s s' \<Longrightarrow> printed ys s' s'' \<Longrightarrow> printed (xs @ ys) s s''"
  by (elim printedE, hypsubst) (simp add: printed_def)

lemma printed_screen_ok: "printed xs s s' \<Longrightarrow> screen_ok s \<Longrightarrow> screen_ok s'"
  by (elim printedE, hypsubst) (simp add: screen_ok_def)

lemma printed_held: "printed xs (s\<lparr>held := h\<rparr>) s' \<Longrightarrow> held s' = h \<and> printed xs s (s'\<lparr>held := held s\<rparr>)"
  by (elim printedE, hypsubst) (simp add: printed_def)

text \<open>Writing one character.\<close>

definition on_screen :: "'z consst_scheme \<Rightarrow> 'z consst_scheme \<Rightarrow> bool" where
  "on_screen s t \<longleftrightarrow> t = s\<lparr>crt := crt t, crt_pos := crt_pos t\<rparr> \<and> crt_pos t < 24 * 80 \<and> (\<forall>i\<ge>24 * 80. crt t i = crt s i)"

lemma on_screen_upd: "p < 24 * 80 \<Longrightarrow> (\<And>i. 24 * 80 \<le> i \<Longrightarrow> m i = crt s i) \<Longrightarrow> on_screen s (s\<lparr>crt := m, crt_pos := p\<rparr>)"
  by (simp add: on_screen_def)

lemma next_line: "p + (80 - p mod 80) = 80 * (p div 80 + 1)" for p :: nat
proof -
  define q r where "q = p div 80" and "r = p mod 80"
  then have "p = 80 * q + r" "r < 80" by simp_all
  then show ?thesis unfolding q_def [symmetric] r_def [symmetric] by simp
qed

lemma cgaputc_run:
  assumes "crt_pos s < 24 * 80"
  shows "\<exists>t. cgaputc c s = Ok () t \<and> on_screen s t"
proof -
  have nl: "crt_pos s + (80 - crt_pos s mod 80) = 80 * (crt_pos s div 80 + 1)" by (rule next_line)
  have l: "crt_pos s div 80 < 24" using assms by (simp add: div_less_iff_less_mult)
  consider "c = 0x0A" | "c \<noteq> 0x0A" "c = BACKSPACE" | "c \<noteq> 0x0A" "c \<noteq> BACKSPACE" by blast
  then show ?thesis
  proof cases
    case 1
    show ?thesis
    proof (cases "crt_pos s div 80 = 23")
      case True
      then show ?thesis using 1 nl by (auto simp: cgaputc_def cga_scroll_def Let_def intro!: on_screen_upd)
    next
      case False
      then have "crt_pos s div 80 + 1 < 24" using l by linarith
      then show ?thesis using 1 nl by (auto simp: cgaputc_def cga_scroll_def Let_def intro!: on_screen_upd)
    qed
  next
    case 2
    then show ?thesis using assms by (auto simp: cgaputc_def Let_def div_less_iff_less_mult intro!: on_screen_upd)
  next
    case 3
    show ?thesis
    proof (cases "crt_pos s + 1 = 24 * 80")
      case True
      then show ?thesis using 3 by (auto simp: cgaputc_def Let_def cga_scroll_def intro!: on_screen_upd)
    next
      case False
      then have "(crt_pos s + 1) div 80 < 24" "crt_pos s + 1 < 24 * 80" using assms by (auto simp: div_less_iff_less_mult)
      then show ?thesis using 3 by (auto simp: cgaputc_def Let_def intro!: on_screen_upd)
    qed
  qed
qed

lemma uartputc_run: "uartputc c s = Ok () (s\<lparr>uart_out := uart_out s @ (if uart s then [of_int c] else [])\<rparr>)"
  by (simp add: uartputc_def kwhen_def kif_def)

lemma consputc_run:
  assumes "screen_ok s"
  shows "\<exists>s'. consputc c s = Ok () s' \<and> printed (if c = BACKSPACE then [8, 0x20, 8] else [of_int c]) s s'"
proof -
  let ?xs = "if c = BACKSPACE then [8, 0x20, 8] else [of_int c]"
  define t where "t = s\<lparr>uart_out := uart_out s @ (if uart s then ?xs else [])\<rparr>"
  have "crt_pos t < 24 * 80" using assms by (simp add: t_def screen_ok_def)
  from cgaputc_run [OF this, of c] obtain s' where s': "cgaputc c t = Ok () s'" "on_screen t s'" by blast
  have "consputc c s = Ok () s'" using s'(1) assms
    by (auto simp: consputc_def screen_ok_def kif_def kseq_def kbind_def uartputc_run t_def)
  moreover have "printed ?xs s s'" using s'(2) by (simp add: on_screen_def printed_def t_def)
  ultimately show ?thesis by blast
qed

lemma consputs_run: "screen_ok s \<Longrightarrow> \<exists>s'. consputs xs s = Ok () s' \<and> printed xs s s'"
proof (induction xs arbitrary: s)
  case (Cons x xs)
  have "uint x \<noteq> BACKSPACE" using uint_lt2p [of x] by (simp add: BACKSPACE_def)
  then obtain t where t: "consputc (uint x) s = Ok () t" "printed [x] s t"
    using consputc_run [OF Cons.prems, of "uint x"] by (auto simp: word_of_int_uint)
  obtain s' where "consputs xs t = Ok () s'" "printed xs t s'" using Cons.IH [OF printed_screen_ok [OF t(2) Cons.prems]] by blast
  then show ?case using t printed_trans [OF t(2)] by (fastforce simp: consputs_def kstep)
qed (simp add: consputs_def printed_refl)

lemma con_cprintf_run:
  assumes "screen_ok s" "ConsLock \<notin> held s"
  shows "\<exists>s'. con_cprintf fmt as s = Ok () s' \<and> printed (cprintf_out (str fmt) as) s s'"
proof (cases "cons_locking s")
  case True
  let ?s = "s\<lparr>held := insert ConsLock (held s)\<rparr>"
  have "screen_ok ?s" using assms(1) by (simp add: screen_ok_def)
  from consputs_run [OF this] obtain t where
    t: "consputs (cprintf_out (str fmt) as) ?s = Ok () t" "printed (cprintf_out (str fmt) as) ?s t" by blast
  have h: "held t = insert ConsLock (held s)" "printed (cprintf_out (str fmt) as) s (t\<lparr>held := held s\<rparr>)"
    using printed_held [OF t(2)] by auto
  have "held t - {ConsLock} = held s" using h(1) assms(2) by auto
  then have "con_cprintf fmt as s = Ok () (t\<lparr>held := held s\<rparr>)"
    using True assms(2) t(1) h(1) by (simp add: con_cprintf_def kstep)
  then show ?thesis using h(2) by blast
next
  case False
  from consputs_run [OF assms(1)] obtain t where
    "consputs (cprintf_out (str fmt) as) s = Ok () t" "printed (cprintf_out (str fmt) as) s t" by blast
  then show ?thesis using False by (simp add: con_cprintf_def kstep)
qed

text \<open>Code that only prints.\<close>

definition prints :: "('z consst_scheme, unit) kern \<Rightarrow> bool" where
  "prints m \<longleftrightarrow> (\<forall>s. screen_ok s \<longrightarrow> ConsLock \<notin> held s \<longrightarrow> (\<exists>xs s'. m s = Ok () s' \<and> printed xs s s'))"

lemma printsE:
  assumes "prints m" "screen_ok s" "ConsLock \<notin> held s"
  obtains xs s' where "m s = Ok () s'" "printed xs s s'" "screen_ok s'" "ConsLock \<notin> held s'"
proof -
  obtain xs s' where p: "m s = Ok () s'" "printed xs s s'" using assms by (auto simp: prints_def)
  then have "ConsLock \<notin> held s'" using assms(3) by (auto elim: printedE)
  then show ?thesis using p printed_screen_ok [OF p(2) assms(2)] by (intro that)
qed

lemma prints_cprintf: "prints (con_cprintf fmt as)"
  unfolding prints_def using con_cprintf_run by blast

lemma prints_ret: "prints (ret ())"
  unfolding prints_def using printed_refl by fastforce

lemma prints_seq:
  fixes m n :: "('z consst_scheme, unit) kern"
  shows "prints m \<Longrightarrow> prints n \<Longrightarrow> prints (kseq m n)"
  unfolding prints_def [of "kseq m n"]
proof (intro allI impI)
  fix s :: "'z consst_scheme"
  assume a: "prints m" "prints n" "screen_ok s" "ConsLock \<notin> held s"
  obtain xs t where t: "m s = Ok () t" "printed xs s t" "screen_ok t" "ConsLock \<notin> held t" using printsE [OF a(1,3,4)] by blast
  obtain ys u where u: "n t = Ok () u" "printed ys t u" using printsE [OF a(2) t(3,4)] by blast
  show "\<exists>xs s'. kseq m n s = Ok () s' \<and> printed xs s s'"
    using t(1) u(1) printed_trans [OF t(2) u(2)] by (auto simp: kstep)
qed

lemma prints_state: "(\<And>x. prints (m x)) \<Longrightarrow> prints (\<lambda>s. m (g s) s)"
  by (simp add: prints_def)

lemma prints_kfor: "(\<And>x. prints (f x)) \<Longrightarrow> prints (kfor f xs)"
  by (induction xs) (simp_all add: prints_ret prints_seq)

lemmas prints_rules = prints_cprintf prints_ret prints_seq prints_kfor

lemma prints_procdumpP1: "prints (procdumpP1 p)"
  unfolding procdumpP1_def Let_def prints_def using con_cprintf_run by blast

lemma prints_procdump_row: "prints (procdump_row i :: ('z consst_scheme, unit) kern)"
proof -
  let ?m = "\<lambda>t :: 'z consst_scheme. if p_state (proc_at t i) = UNUSED then ret () else
      kseq (procdumpP1 (proc_at t i))
       (kseq (if p_state (proc_at t i) = SLEEPING
              then kfor (\<lambda>pc. con_cprintf '' %p'' [W pc]) (takeWhile (\<lambda>pc. pc \<noteq> 0) (getcallerpcs (mem t) (load32 (mem t) (p_context (proc_at t i) + context_ebp) + 8)))
              else ret ())
             (con_cprintf nl []))"
  have "prints (?m t)" for t by (auto intro!: prints_rules prints_procdumpP1)
  then have "prints (\<lambda>s. ?m s s)" by (rule prints_state)
  moreover have "procdump_row i = (\<lambda>s. ?m s s)" by (rule ext) (simp add: procdump_row_def Let_def)
  ultimately show ?thesis by simp
qed

lemma prints_procdump: "prints procdump"
  unfolding procdump_def by (intro prints_rules prints_procdump_row)


subsection \<open>The input buffer\<close>

lemma INPUT_BUF_dvd: "INPUT_BUF dvd 2 ^ 32"
  by (simp add: INPUT_BUF_def dvd_def)

text \<open>The \<open>k\<close> bytes from index \<open>a\<close> on.\<close>

definition in_ring :: "byte list \<Rightarrow> uint \<Rightarrow> nat \<Rightarrow> byte list" where
  "in_ring b a k = map (\<lambda>i. b ! ((unat a + i) mod INPUT_BUF)) [0..<k]"

lemma length_in_ring [simp]: "length (in_ring b a k) = k"
  by (simp add: in_ring_def)

lemma in_ring_0 [simp]: "in_ring b a 0 = []"
  by (simp add: in_ring_def)

lemma in_ring_Nil [simp]: "in_ring b a k = [] \<longleftrightarrow> k = 0"
  by (simp add: in_ring_def)

lemma in_ring_Suc: "in_ring b a (Suc k) = in_ring b a k @ [b ! (unat (a + of_nat k) mod INPUT_BUF)]"
  by (simp add: in_ring_def ring_index [OF INPUT_BUF_dvd])

lemma in_ring_Cons: "in_ring b a (Suc k) = b ! (unat a mod INPUT_BUF) # in_ring b (a + 1) k"
proof -
  have "[0..<Suc k] = 0 # map Suc [0..<k]" by (simp add: upt_conv_Cons map_Suc_upt del: upt_Suc)
  moreover have "(unat (a + 1) + i) mod INPUT_BUF = (unat a + Suc i) mod INPUT_BUF" for i
    using ring_index [OF INPUT_BUF_dvd, of a 1] by simp (metis add_Suc_right add_Suc mod_add_left_eq)
  ultimately show ?thesis by (simp add: in_ring_def)
qed

lemma in_ring_put:
  assumes "k < INPUT_BUF" "length b = INPUT_BUF"
  shows "in_ring (b[unat (a + of_nat k) mod INPUT_BUF := c]) a (Suc k) = in_ring b a k @ [c]"
proof -
  have "in_ring (b[unat (a + of_nat k) mod INPUT_BUF := c]) a k = in_ring b a k"
    using mod_window [OF _ assms(1), of _ "unat a", THEN not_sym] by (auto simp: in_ring_def ring_index [OF INPUT_BUF_dvd])
  then show ?thesis using assms by (simp add: in_ring_Suc)
qed

text \<open>
  \<open>in_lines\<close>: the bytes of the completed lines that have not been read, and the bytes of the line being typed.
\<close>

definition in_lines :: "'z consst_scheme \<Rightarrow> byte list \<times> byte list" where
  "in_lines s = (let a = in_ring (in_buf s) (in_r s) (unat (in_e s - in_r s)); k = unat (in_w s - in_r s) in (take k a, drop k a))"

definition in_shape :: "'z consst_scheme \<Rightarrow> bool" where
  "in_shape s \<longleftrightarrow> length (in_buf s) = INPUT_BUF \<and> unat (in_w s - in_r s) \<le> unat (in_e s - in_r s) \<and>
     unat (in_e s - in_r s) \<le> INPUT_BUF"

definition in_ok :: "'z consst_scheme \<Rightarrow> bool" where
  "in_ok s \<longleftrightarrow> in_shape s \<and> 4 \<notin> set (fst (in_lines s)) \<and> 4 \<notin> set (snd (in_lines s)) \<and> 0x0A \<notin> set (snd (in_lines s))"

text \<open>What a key does to the two lists.\<close>

definition line_key :: "int \<Rightarrow> byte list \<times> byte list \<Rightarrow> byte list \<times> byte list" where
  "line_key c = (\<lambda>(com, ed).
     if c = ctl CHR ''P'' \<or> c = ctl CHR ''D'' \<or> c = 0 then (com, ed)
     else if c = ctl CHR ''U'' then (com, [])
     else if c = ctl CHR ''H'' \<or> c = 0x7F then (com, butlast ed)
     else if length com + length ed \<ge> INPUT_BUF then (com, ed)
     else
       let ed' = ed @ [if c = 0x0D then 0x0A else of_int c] in
       if c = 0x0D \<or> c = 0x0A \<or> length com + length ed' = INPUT_BUF then (com @ ed', []) else (com, ed'))"

text \<open>Printing does not touch the input.\<close>

lemma printed_input:
  "printed xs s s' \<Longrightarrow> in_lines s' = in_lines s \<and> in_ok s' = in_ok s \<and> held s' = held s \<and> procs s' = procs s \<and> poweroff s' = poweroff s"
  by (elim printedE, hypsubst) (simp add: in_lines_def in_ok_def in_shape_def)

lemma input_frame [simp]:
  "in_lines (s\<lparr>procs := x\<rparr>) = in_lines s" "in_shape (s\<lparr>procs := x\<rparr>) = in_shape s" "screen_ok (s\<lparr>procs := x\<rparr>) = screen_ok s"
  "in_lines (s\<lparr>held := h\<rparr>) = in_lines s" "in_shape (s\<lparr>held := h\<rparr>) = in_shape s" "screen_ok (s\<lparr>held := h\<rparr>) = screen_ok s"
  "screen_ok (s\<lparr>in_w := w\<rparr>) = screen_ok s" "in_lines (s\<lparr>poweroff := b\<rparr>) = in_lines s" "in_shape (s\<lparr>poweroff := b\<rparr>) = in_shape s"
  "screen_ok (s\<lparr>poweroff := b\<rparr>) = screen_ok s"
  "in_ok (s\<lparr>procs := x\<rparr>) = in_ok s" "in_ok (s\<lparr>held := h\<rparr>) = in_ok s" "in_ok (s\<lparr>poweroff := b\<rparr>) = in_ok s"
  by (simp_all add: in_ok_def in_lines_def in_shape_def screen_ok_def)

lemma in_lines_fields:
  "in_buf t = in_buf s \<Longrightarrow> in_r t = in_r s \<Longrightarrow> in_w t = in_w s \<Longrightarrow> in_e t = in_e s \<Longrightarrow> in_lines t = in_lines s \<and> in_ok t = in_ok s"
  by (simp add: in_lines_def in_ok_def in_shape_def)

lemma edit_empty: "in_ok s \<Longrightarrow> in_e s = in_w s \<longleftrightarrow> snd (in_lines s) = []"
proof
  assume "in_ok s" "snd (in_lines s) = []"
  then have "unat (in_w s - in_r s) = unat (in_e s - in_r s)" by (auto simp: in_lines_def in_ok_def in_shape_def Let_def)
  then have "in_w s - in_r s = in_e s - in_r s" by (rule unat32_eqI)
  then show "in_e s = in_w s" by simp
qed (simp add: in_lines_def Let_def)

lemma edit_less: "in_ok s \<Longrightarrow> in_e s \<noteq> in_w s \<Longrightarrow> unat (in_w s - in_r s) < unat (in_e s - in_r s)"
proof -
  assume a: "in_ok s" "in_e s \<noteq> in_w s"
  then have "unat (in_w s - in_r s) \<noteq> unat (in_e s - in_r s)" using unat32_eqI [of "in_w s - in_r s" "in_e s - in_r s"] by auto
  then show ?thesis using a(1) by (simp add: in_ok_def in_shape_def)
qed

text \<open>Taking back the last byte of the line being typed.\<close>

lemma edit_back:
  assumes "in_ok s" "in_e s \<noteq> in_w s"
  defines "t \<equiv> s\<lparr>in_e := in_e s - 1\<rparr>"
  shows "in_lines t = (fst (in_lines s), butlast (snd (in_lines s))) \<and> in_ok t \<and> in_at s (in_e s - 1) = last (snd (in_lines s))"
proof -
  let ?k = "unat (in_w s - in_r s)" and ?n = "unat (in_e s - in_r s - 1)"
  have l: "?k < unat (in_e s - in_r s)" by (rule edit_less [OF assms(1,2)])
  then have n: "unat (in_e s - in_r s) = Suc ?n" by (metis unat_minus_one unat_gt_0 Suc_pred' less_nat_zero_code unat_0 not_gr_zero)
  have e: "in_e t - in_r t = in_e s - in_r s - 1" by (simp add: t_def)
  have "in_r s + of_nat ?n = in_e s - 1" by simp
  then have r: "in_ring (in_buf s) (in_r s) (Suc ?n) = in_ring (in_buf s) (in_r s) ?n @ [in_at s (in_e s - 1)]" by (simp add: in_ring_Suc)
  have k: "?k \<le> ?n" using l n by simp
  have ls: "in_lines s = (take ?k (in_ring (in_buf s) (in_r s) ?n), drop ?k (in_ring (in_buf s) (in_r s) ?n) @ [in_at s (in_e s - 1)])"
    using k by (simp add: in_lines_def n r Let_def)
  have lt: "in_lines t = (take ?k (in_ring (in_buf s) (in_r s) ?n), drop ?k (in_ring (in_buf s) (in_r s) ?n))"
    unfolding in_lines_def e by (simp add: t_def Let_def)
  have "in_ok t" using assms(1) k n unfolding in_ok_def in_shape_def lt ls e by (simp add: t_def)
  then show ?thesis by (simp add: ls lt)
qed

text \<open>Appending a byte, and completing the line.\<close>

lemma edit_put:
  fixes c :: byte
  assumes "in_shape s" "in_e s - in_r s < of_nat INPUT_BUF"
  defines "t \<equiv> s\<lparr>in_buf := (in_buf s)[unat (in_e s) mod INPUT_BUF := c], in_e := in_e s + 1\<rparr>"
  shows "in_lines t = (fst (in_lines s), snd (in_lines s) @ [c]) \<and> in_shape t"
proof -
  let ?k = "unat (in_w s - in_r s)" and ?n = "unat (in_e s - in_r s)"
  have k: "?k \<le> ?n" and len: "length (in_buf s) = INPUT_BUF" using assms(1) by (simp_all add: in_shape_def)
  have n: "?n < INPUT_BUF" using assms(2) by (simp add: word_less_nat_alt unat_of_nat INPUT_BUF_def)
  have "unat (in_e s - in_r s + 1) = Suc ?n"
    using n unat_add_lem [of "in_e s - in_r s" 1] by (simp add: INPUT_BUF_def)
  then have e: "unat (in_e t - in_r t) = Suc ?n" by (simp add: t_def algebra_simps)
  have "in_r s + of_nat ?n = in_e s" by simp
  then have r: "in_ring (in_buf t) (in_r t) (Suc ?n) = in_ring (in_buf s) (in_r s) ?n @ [c]"
    using in_ring_put [OF n len, of "in_r s" c] by (simp add: t_def)
  have "in_lines t = (fst (in_lines s), snd (in_lines s) @ [c])"
    unfolding in_lines_def e r using k by (simp add: t_def Let_def)
  moreover have "in_shape t" using k n len unfolding in_shape_def e by (simp add: t_def)
  ultimately show ?thesis ..
qed

lemma edit_commit:
  assumes "in_shape s"
  shows "in_lines (s\<lparr>in_w := in_e s\<rparr>) = (fst (in_lines s) @ snd (in_lines s), []) \<and> in_shape (s\<lparr>in_w := in_e s\<rparr>)"
  using assms by (simp add: in_lines_def in_shape_def Let_def)

lemma in_count: "in_shape s \<Longrightarrow> length (fst (in_lines s)) + length (snd (in_lines s)) = unat (in_e s - in_r s)"
  by (simp add: in_lines_def in_shape_def Let_def)

subsection \<open>Keys\<close>

text \<open>What holds between two keys of an interrupt, with the state \<open>s\<close> at its start.\<close>

definition typed :: "'z consst_scheme \<Rightarrow> byte list \<times> byte list \<Rightarrow> 'z consst_scheme \<Rightarrow> bool" where
  "typed s ls s' \<longleftrightarrow> in_ok s' \<and> screen_ok s' \<and> in_lines s' = ls \<and> held s' = held s \<and> poweroff s' = poweroff s \<and>
     procs s' = (if fst ls = fst (in_lines s) then procs s else map (wake ChInput) (procs s))"

lemma typed_same: "in_ok s \<Longrightarrow> screen_ok s \<Longrightarrow> typed s (in_lines s) s"
  by (simp add: typed_def)

lemma rub_step:
  assumes "in_ok s" "screen_ok s" "in_e s \<noteq> in_w s"
  shows "\<exists>s'. kseq (modify (\<lambda>s. s\<lparr>in_e := in_e s - 1\<rparr>)) (consputc BACKSPACE) s = Ok () s' \<and>
    typed s (fst (in_lines s), butlast (snd (in_lines s))) s'"
proof -
  let ?t = "s\<lparr>in_e := in_e s - 1\<rparr>"
  have "screen_ok ?t" using assms(2) by (simp add: screen_ok_def)
  from consputc_run [OF this, of BACKSPACE] obtain s' xs where s': "consputc BACKSPACE ?t = Ok () s'" "printed xs ?t s'" by blast
  have "screen_ok s'" by (rule printed_screen_ok [OF s'(2) \<open>screen_ok ?t\<close>])
  then have "typed s (fst (in_lines s), butlast (snd (in_lines s))) s'"
    using printed_input [OF s'(2)] edit_back [OF assms(1,3)] by (simp add: typed_def)
  then show ?thesis using s'(1) by (auto simp: kstep)
qed

lemma rub_out_run:
  assumes "in_ok s" "screen_ok s"
  shows "\<exists>s'. rub_out s = Ok () s' \<and> typed s (fst (in_lines s), butlast (snd (in_lines s))) s'"
proof (cases "in_e s = in_w s")
  case True
  then have "snd (in_lines s) = []" using edit_empty [OF assms(1)] by simp
  then show ?thesis using True typed_same [OF assms] by (cases "in_lines s") (simp add: rub_out_def kstep)
next
  case False
  then show ?thesis using rub_step [OF assms False] by (simp add: rub_out_def kstep)
qed

lemma kill_line_loop:
  assumes "in_ok s" "screen_ok s" "length (snd (in_lines s)) < n"
  shows "\<exists>s'. kloop n kill_line_body () s = Ok () s' \<and> typed s (fst (in_lines s), []) s'"
  using assms
proof (induction n arbitrary: s)
  case (Suc n)
  show ?case
  proof (cases "in_e s = in_w s")
    case True
    then have "snd (in_lines s) = []" using edit_empty [OF Suc.prems(1)] by simp
    moreover have "kill_line_body () s = Ok (Inr ()) s" using True by (simp add: kill_line_body_def kstep)
    ultimately show ?thesis using typed_same [OF Suc.prems(1,2)] kloop_done [of kill_line_body "()" s _ _ "Suc n"]
      by (cases "in_lines s") (auto simp del: kloop.simps)
  next
    case False
    then have ne: "snd (in_lines s) \<noteq> []" using edit_empty [OF Suc.prems(1)] by simp
    have "in_at s (in_e s - 1) = last (snd (in_lines s))" using edit_back [OF Suc.prems(1) False] by simp
    then have nn: "in_at s (in_e s - 1) \<noteq> 0x0A" using Suc.prems(1) last_in_set [OF ne] by (metis in_ok_def)
    obtain t where t: "kseq (modify (\<lambda>s. s\<lparr>in_e := in_e s - 1\<rparr>)) (consputc BACKSPACE) s = Ok () t"
      "typed s (fst (in_lines s), butlast (snd (in_lines s))) t" using rub_step [OF Suc.prems(1,2) False] by blast
    have "kill_line_body () s = Ok (Inl ()) t"
      using t(1) False nn by (simp add: kill_line_body_def kif_def kseq_def kbind_def split: outcome.splits)
    then have l: "kloop (Suc n) kill_line_body () s = kloop n kill_line_body () t" by (rule kloop_next)
    have "length (snd (in_lines t)) < n" using t(2) Suc.prems(3) ne by (cases "snd (in_lines s)") (auto simp: typed_def)
    then obtain s' where s': "kloop n kill_line_body () t = Ok () s'" "typed t (fst (in_lines t), []) s'"
      using Suc.IH [of t] t(2) by (auto simp: typed_def)
    have "typed s (fst (in_lines s), []) s'" using s'(2) t(2) by (simp add: typed_def)
    then show ?thesis using l s'(1) by (simp del: kloop.simps)
  qed
qed simp

lemma kill_line_run:
  assumes "in_ok s" "screen_ok s"
  shows "\<exists>s'. kill_line s = Ok () s' \<and> typed s (fst (in_lines s), []) s'"
proof -
  have "length (snd (in_lines s)) < INPUT_BUF + 1" using in_count [of s] assms(1) by (simp add: in_ok_def in_shape_def)
  then show ?thesis unfolding kill_line_def using kill_line_loop [OF assms] by blast
qed

lemma ctl_values: "ctl CHR ''P'' = 16" "ctl CHR ''U'' = 21" "ctl CHR ''H'' = 8" "ctl CHR ''D'' = 4"
  by (simp_all add: ctl_def)

lemma in_room: "in_shape s \<Longrightarrow> in_e s - in_r s < of_nat INPUT_BUF \<longleftrightarrow> length (fst (in_lines s)) + length (snd (in_lines s)) < INPUT_BUF"
  by (simp add: in_count word_less_nat_alt unat_of_nat INPUT_BUF_def)

lemma in_full:
  assumes "in_shape s"
  shows "in_e s = in_r s + of_nat INPUT_BUF \<longleftrightarrow> length (fst (in_lines s)) + length (snd (in_lines s)) = INPUT_BUF"
proof -
  have "in_e s = in_r s + of_nat INPUT_BUF \<longleftrightarrow> in_e s - in_r s = of_nat INPUT_BUF" by (auto simp: algebra_simps)
  also have "\<dots> \<longleftrightarrow> unat (in_e s - in_r s) = INPUT_BUF" by (simp add: word_unat_eq_iff unat_of_nat INPUT_BUF_def)
  finally show ?thesis using in_count [OF assms] by simp
qed

lemma byte_of_int_eq:
  assumes "(of_int c :: byte) = of_int d" "0 \<le> c" "c < 256" "0 \<le> d" "d < 256"
  shows "c = d"
proof -
  have "uint (of_int c :: byte) = c" "uint (of_int d :: byte) = d" using assms(2-) by (simp_all add: uint_word_of_int)
  then show ?thesis using assms(1) by metis
qed

lemma take_char_run:
  assumes "in_ok s" "screen_ok s" "PtableLock \<notin> held s" "table_ok s" "0 \<le> c" "c < 256" "c \<notin> {4, 8, 16, 21, 127}"
  shows "\<exists>s'. take_char c s = Ok () s' \<and> typed s (line_key c (in_lines s)) s'"
proof (cases "c \<noteq> 0 \<and> in_e s - in_r s < of_nat INPUT_BUF")
  case False
  have "line_key c (in_lines s) = in_lines s"
    using False assms(1,7) in_room [of s] by (cases "in_lines s") (auto simp: line_key_def ctl_values in_ok_def)
  moreover have "take_char c s = Ok () s" using False unfolding take_char_def by (rule kwhen_False)
  ultimately show ?thesis using typed_same [OF assms(1,2)] by auto
next
  case True
  define d where "d = (if c = 0x0D then 0x0A else c)"
  define t where "t = s\<lparr>in_buf := (in_buf s)[unat (in_e s) mod INPUT_BUF := of_int d], in_e := in_e s + 1\<rparr>"
  obtain com ed where ls: "in_lines s = (com, ed)" by fastforce
  have sh: "in_shape s" using assms(1) by (simp add: in_ok_def)
  have lt: "in_lines t = (com, ed @ [of_int d])" "in_shape t" using edit_put [OF sh, of "of_int d"] True by (simp_all add: t_def ls)
  have room: "length com + length ed < INPUT_BUF" using in_room [OF sh] True by (simp add: ls)
  have "screen_ok t" using assms(2) by (simp add: t_def screen_ok_def)
  from consputc_run [OF this, of d] obtain u xs where u: "consputc d t = Ok () u" "printed xs t u" by blast
  obtain m p where us: "u = t\<lparr>uart_out := uart_out t @ (if uart t then xs else []), crt := m, crt_pos := p\<rparr>" using u(2) by (rule printedE)
  have su: "screen_ok u" by (rule printed_screen_ok [OF u(2) \<open>screen_ok t\<close>])
  have lu: "in_lines u = (com, ed @ [of_int d])" using lt(1) by (simp add: us in_lines_def)
  have shu: "in_shape u" using lt(2) by (simp add: us in_shape_def)
  have same: "held u = held s" "procs u = procs s" "poweroff u = poweroff s" by (simp_all add: us t_def)
  have d4: "d \<noteq> 4" "(of_int d :: byte) \<noteq> 4" using assms(5-7) byte_of_int_eq [of d 4] by (auto simp: d_def)
  have dn: "d = 10 \<longleftrightarrow> c = 0x0D \<or> c = 0x0A" "d \<noteq> 10 \<Longrightarrow> (of_int d :: byte) \<noteq> 0x0A"
    using assms(5-7) byte_of_int_eq [of d 10] by (auto simp: d_def)
  have key: "line_key c (com, ed) = (if d = 10 \<or> length com + length (ed @ [of_int d :: byte]) = INPUT_BUF then (com @ ed @ [of_int d], []) else (com, ed @ [of_int d]))"
    using assms(7) True room dn(1) by (simp add: line_key_def ctl_values d_def)
  have run: "take_char c s = kwhen (\<lambda>s. d = 0x0A \<or> d = ctl CHR ''D'' \<or> in_e s = in_r s + of_nat INPUT_BUF)
          (kseq (modify (\<lambda>s. s\<lparr>in_w := in_e s\<rparr>)) (wakeup ChInput)) u"
    using True u(1) unfolding take_char_def d_def [symmetric] Let_def by (simp add: kstep t_def)
  show ?thesis
  proof (cases "d = 10 \<or> length com + length (ed @ [of_int d :: byte]) = INPUT_BUF")
    case commit: True
    let ?v = "u\<lparr>in_w := in_e u\<rparr>"
    have "table_ok ?v" using assms(4) same by (simp add: table_ok_def)
    then have w: "wakeup ChInput ?v = Ok () (?v\<lparr>procs := map (wake ChInput) (procs s)\<rparr>)" using wakeup_run [of ?v] assms(3) same by simp
    have "d = 10 \<or> d = 4 \<or> in_e u = in_r u + of_nat INPUT_BUF" using commit in_full [OF shu] lu by auto
    then have r: "take_char c s = Ok () (?v\<lparr>procs := map (wake ChInput) (procs s)\<rparr>)" using w run by (simp add: kstep ctl_values)
    have "in_lines ?v = (com @ ed @ [of_int d], []) \<and> in_shape ?v" using edit_commit [OF shu] lu by simp
    then have "typed s (com @ ed @ [of_int d], []) (?v\<lparr>procs := map (wake ChInput) (procs s)\<rparr>)"
      using su same assms(1) d4 by (simp add: typed_def in_ok_def ls)
    then show ?thesis using r key commit by (simp add: ls)
  next
    case nc: False
    then have "\<not> (d = 10 \<or> d = 4 \<or> in_e u = in_r u + of_nat INPUT_BUF)" using in_full [OF shu] lu d4 by auto
    then have r: "take_char c s = Ok () u" using run by (simp add: kstep ctl_values)
    have "typed s (com, ed @ [of_int d]) u" using su shu lu same assms(1) d4 dn nc by (auto simp: typed_def in_ok_def ls)
    then show ?thesis using r key nc by (simp add: ls)
  qed
qed

lemma console_char_run:
  assumes "in_ok s" "screen_ok s" "PtableLock \<notin> held s" "table_ok s" "0 \<le> c" "c < 256"
  shows "\<exists>s'. console_char c (dump, down) s = Ok (dump \<or> c = ctl CHR ''P'', down \<or> c = ctl CHR ''D'') s' \<and>
    typed s (line_key c (in_lines s)) s'"
proof -
  consider "c = 16" | "c = 4" | "c = 21" | "c = 8 \<or> c = 127" | "c \<notin> {4, 8, 16, 21, 127}" by blast
  then show ?thesis
  proof cases
    case 3
    then show ?thesis using kill_line_run [OF assms(1,2)] by (cases "in_lines s") (auto simp: console_char_def line_key_def ctl_values kstep)
  next
    case 4
    then show ?thesis using rub_out_run [OF assms(1,2)] by (cases "in_lines s") (auto simp: console_char_def line_key_def ctl_values kstep)
  next
    case 5
    then show ?thesis using take_char_run [OF assms 5] by (auto simp: console_char_def ctl_values kstep)
  qed (use typed_same [OF assms(1,2)] in \<open>cases "in_lines s", simp add: console_char_def line_key_def ctl_values\<close>)+
qed

text \<open>Completed lines only grow while keys arrive.\<close>

lemma line_key_grows: "\<exists>xs. fst (line_key c ls) = fst ls @ xs"
  by (cases ls) (auto simp: line_key_def Let_def)

lemma wake_idem: "map (wake cn) (map (wake cn) ps) = map (wake cn) ps"
  by (simp add: wake_def)

lemma typed_trans:
  assumes "typed s ls t" "typed t (line_key c ls) u" "\<exists>xs. fst ls = fst (in_lines s) @ xs"
  shows "typed s (line_key c ls) u"
proof -
  obtain xs ys where x: "fst ls = fst (in_lines s) @ xs" "fst (line_key c ls) = fst ls @ ys"
    using assms(3) line_key_grows [of c ls] by blast
  then have "fst (line_key c ls) = fst (in_lines s) \<longleftrightarrow> xs = [] \<and> ys = []" by simp
  then show ?thesis using assms(1,2) x wake_idem [of ChInput "procs s"] by (auto simp: typed_def)
qed

lemma keys_run:
  assumes "in_ok s" "screen_ok s" "PtableLock \<notin> held s" "table_ok s" "\<forall>c\<in>set cs. 0 \<le> c \<and> c < 256"
  shows "\<exists>s'. kfold console_char cs (False, False) s = Ok (ctl CHR ''P'' \<in> set cs, ctl CHR ''D'' \<in> set cs) s' \<and>
    typed s (fold line_key cs (in_lines s)) s'"
proof -
  let ?I = "\<lambda>us a t. a = (ctl CHR ''P'' \<in> set us, ctl CHR ''D'' \<in> set us) \<and> typed s (fold line_key us (in_lines s)) t \<and>
    (\<exists>xs. fst (fold line_key us (in_lines s)) = fst (in_lines s) @ xs)"
  have "\<exists>a' s'. kfold console_char cs (False, False) s = Ok a' s' \<and> ?I cs a' s'"
  proof (rule kfold_rule)
    show "?I [] (False, False) s" using typed_same [OF assms(1,2)] by simp
  next
    fix us v ws a t assume cs: "cs = us @ v # ws" and I: "?I us a t"
    let ?ls = "fold line_key us (in_lines s)"
    have ty: "typed s ?ls t" using I by blast
    then have p: "in_ok t" "screen_ok t" "PtableLock \<notin> held t" "table_ok t" "in_lines t = ?ls"
      using assms(3,4) by (auto simp: typed_def table_ok_def)
    have "0 \<le> v" "v < 256" using assms(5) cs by auto
    from console_char_run [OF p(1-4) this] obtain u where
      u: "console_char v a t = Ok (fst a \<or> v = ctl CHR ''P'', snd a \<or> v = ctl CHR ''D'') u" "typed t (line_key v ?ls) u"
      using p(5) I by fastforce
    have "typed s (line_key v ?ls) u" using typed_trans [OF ty u(2)] I by blast
    moreover have "\<exists>xs. fst (line_key v ?ls) = fst (in_lines s) @ xs" using I line_key_grows [of v ?ls] by fastforce
    ultimately show "\<exists>a' s'. console_char v a t = Ok a' s' \<and> ?I (us @ [v]) a' s'" using u(1) I by fastforce
  qed
  then show ?thesis by blast
qed

text \<open>The end of consoleintr: printing, and switching off.\<close>

lemma typed_printed: "typed s ls t \<Longrightarrow> printed xs t u \<Longrightarrow> typed s ls u"
  using printed_input [of xs t u] printed_screen_ok [of xs t u] by (simp add: typed_def)

lemma typed_held:
  assumes "typed (s\<lparr>held := insert l (held s)\<rparr>) ls t" "l \<notin> held s"
  shows "release l t = Ok () (t\<lparr>held := held s\<rparr>) \<and> typed s ls (t\<lparr>held := held s\<rparr>)"
proof -
  have "held t = insert l (held s)" using assms(1) by (simp add: typed_def)
  moreover have "held t - {l} = held s" using calculation assms(2) by auto
  ultimately show ?thesis using assms by (auto simp: kstep typed_def)
qed

lemma consoleintr_lines:
  assumes "in_ok s" "screen_ok s" "ConsLock \<notin> held s" "PtableLock \<notin> held s" "table_ok s"
    and "\<forall>c\<in>set cs. 0 \<le> c \<and> c < 256"
  shows "\<exists>s'. consoleintr cs s = Ok () s' \<and> in_ok s' \<and> screen_ok s' \<and> held s' = held s \<and>
    in_lines s' = fold line_key cs (in_lines s) \<and> (poweroff s' \<longleftrightarrow> poweroff s \<or> ctl CHR ''D'' \<in> set cs) \<and>
    procs s' = (if fst (in_lines s') = fst (in_lines s) then procs s else map (wake ChInput) (procs s))"
proof -
  let ?s = "s\<lparr>held := insert ConsLock (held s)\<rparr>" and ?ls = "fold line_key cs (in_lines s)"
  have "in_ok ?s" "screen_ok ?s" "PtableLock \<notin> held ?s" "table_ok ?s" using assms(1-5) by (simp_all add: in_ok_def table_ok_def)
  from keys_run [OF this assms(6)] obtain t where
    t: "kfold console_char cs (False, False) ?s = Ok (ctl CHR ''P'' \<in> set cs, ctl CHR ''D'' \<in> set cs) t" "typed ?s ?ls t" by auto
  let ?t = "t\<lparr>held := held s\<rparr>"
  have r: "release ConsLock t = Ok () ?t" "typed s ?ls ?t" using typed_held [OF t(2) assms(3)] by auto
  have o: "screen_ok ?t" "ConsLock \<notin> held ?t" using r(2) assms(3) by (auto simp: typed_def)
  obtain xs u where u: "con_cprintf (nl @ ''Shutting down ...'' @ nl) [] ?t = Ok () u" "printed xs ?t u"
    using con_cprintf_run [OF o] by blast
  define v where "v = (if ctl CHR ''D'' \<in> set cs then u\<lparr>poweroff := True\<rparr> else ?t)"
  have "typed s ?ls u" by (rule typed_printed [OF r(2) u(2)])
  then have v: "(if ctl CHR ''D'' \<in> set cs then do_shutdown else ret ()) ?t = Ok () v"
    "typed (s\<lparr>poweroff := poweroff s \<or> ctl CHR ''D'' \<in> set cs\<rparr>) ?ls v"
    using u(1) r(2) by (auto simp: v_def do_shutdown_def kstep typed_def in_ok_def)
  have ov: "screen_ok v" "ConsLock \<notin> held v" using v(2) assms(3) by (auto simp: typed_def)
  have "prints (if ctl CHR ''P'' \<in> set cs then procdump else ret ())" using prints_procdump prints_ret by auto
  from printsE [OF this ov] obtain ys s' where
    s': "(if ctl CHR ''P'' \<in> set cs then procdump else ret ()) v = Ok () s'" "printed ys v s'" by blast
  have "consoleintr cs s = Ok () s'"
    using assms(3) t(1) r(1) v(1) s'(1) by (simp add: consoleintr_def kstep)
  moreover have "typed (s\<lparr>poweroff := poweroff s \<or> ctl CHR ''D'' \<in> set cs\<rparr>) ?ls s'" by (rule typed_printed [OF v(2) s'(2)])
  ultimately show ?thesis by (auto simp: typed_def)
qed

text \<open>
  C29: keyboard input. For any bytes an interrupt brings, consoleintr returns, wherever the wrapping indices of the
  ring buffer stand. Completed lines and the line being typed change key by key as the editing keys say: backspace
  takes the last byte of the current line and never one of a completed line, control-U the whole current line, a full
  buffer completes the line. No control-D is ever stored. Readers are woken exactly when a line was completed, the
  machine is switched off exactly by control-D, and the cursor stays on the screen.
\<close>

theorem console_input_refines_lines:
  assumes "in_ok s" "screen_ok s" "ConsLock \<notin> held s" "PtableLock \<notin> held s" "table_ok s"
    and "\<forall>c\<in>set cs. 0 \<le> c \<and> c < 256"
  shows "\<exists>s'. consoleintr cs s = Ok () s' \<and> in_ok s' \<and> screen_ok s' \<and> held s' = held s \<and>
    in_lines s' = fold line_key cs (in_lines s) \<and> (poweroff s' \<longleftrightarrow> poweroff s \<or> ctl CHR ''D'' \<in> set cs) \<and>
    procs s' = (if fst (in_lines s') = fst (in_lines s) then procs s else map (wake ChInput) (procs s))"
  using assms by (rule consoleintr_lines)

subsection \<open>Reading\<close>

text \<open>What a reader that wants \<open>n\<close> bytes takes from the completed lines, and whether that is enough.\<close>

fun line_read :: "nat \<Rightarrow> byte list \<Rightarrow> byte list \<times> bool" where
  "line_read 0 com = ([], True)"
| "line_read (Suc n) [] = ([], False)"
| "line_read (Suc n) (c # com) = (if c = 0x0A then ([c], True) else let (xs, b) = line_read n com in (c # xs, b))"

lemma line_read_take: "take (length (fst (line_read n com))) com = fst (line_read n com)"
  by (induction n com rule: line_read.induct) (simp_all add: case_prod_beta)

lemma read_empty: "in_ok s \<Longrightarrow> in_r s = in_w s \<longleftrightarrow> fst (in_lines s) = []"
proof
  assume "in_ok s" "fst (in_lines s) = []"
  then have "unat (in_w s - in_r s) = 0" by (auto simp: in_lines_def in_ok_def in_shape_def Let_def simp del: unat_eq_zero)
  then have "in_w s - in_r s = 0" by (simp add: unat_eq_zero)
  then show "in_r s = in_w s" by simp
qed (simp add: in_lines_def Let_def)

lemma read_next:
  assumes "in_ok s" "in_r s \<noteq> in_w s"
  defines "t \<equiv> s\<lparr>in_r := in_r s + 1\<rparr>"
  shows "in_ok t \<and> in_lines s = (in_at s (in_r s) # fst (in_lines t), snd (in_lines t))"
proof -
  let ?k = "unat (in_w s - in_r s)" and ?n = "unat (in_e s - in_r s)"
  have k: "?k \<le> ?n" "?n \<le> INPUT_BUF" "length (in_buf s) = INPUT_BUF" using assms(1) by (simp_all add: in_ok_def in_shape_def)
  have "in_w s - in_r s \<noteq> 0" using assms(2) by auto
  then have "0 < ?k" by (simp add: unat_gt_0)
  then obtain j m where j: "?k = Suc j" "?n = Suc m" using k(1) by (metis Suc_le_D gr0_implies_Suc)
  have ne: "in_e s - in_r s \<noteq> 0" using j(2) by (metis unat_0 nat.distinct(1))
  have "unat (in_w s - in_r s - 1) = j" "unat (in_e s - in_r s - 1) = m"
    using j \<open>in_w s - in_r s \<noteq> 0\<close> ne by (simp_all add: unat_minus_one)
  then have e: "unat (in_w t - in_r t) = j" "unat (in_e t - in_r t) = m" by (simp_all add: t_def algebra_simps)
  have "in_ring (in_buf s) (in_r s) (Suc m) = in_at s (in_r s) # in_ring (in_buf t) (in_r t) m" by (simp add: in_ring_Cons t_def)
  then have l: "in_lines s = (in_at s (in_r s) # fst (in_lines t), snd (in_lines t))"
    unfolding in_lines_def j e by (simp add: Let_def)
  have "in_shape t" using j k unfolding in_shape_def e by (simp add: t_def)
  then show ?thesis using assms(1) l by (simp add: in_ok_def)
qed

lemma ctl_D_byte: "of_int (ctl CHR ''D'') = (4 :: byte)"
  by (simp add: ctl_values)

lemma sint_pred: "0 < sint (n :: cint) \<Longrightarrow> sint (n - 1) = sint n - 1"
  using sint_range_size [of n] by (simp add: sint_word_ariths word_size signed_take_bit_int_eq_self)

lemma consoleread_scan:
  assumes "in_ok s" "nat (sint n) < m"
  defines "r \<equiv> line_read (nat (sint n)) (fst (in_lines s))"
  defines "k \<equiv> length (fst r)"
  defines "t \<equiv> s\<lparr>in_r := in_r s + of_nat k\<rparr>"
  shows "kloop m (consoleread_body target) (n, acc) s =
      Ok (if snd r then Inr (Some (n - of_nat k, acc @ fst r))
          else if p_killed (proc_at s (curproc s)) then Inr None else Inl (n - of_nat k, acc @ fst r)) t \<and>
    in_ok t \<and> in_lines t = (drop k (fst (in_lines s)), snd (in_lines s))"
  using assms(1,2) unfolding r_def k_def t_def
proof (induction m arbitrary: n acc s)
  case (Suc m)
  consider "\<not> sint n > 0" | "sint n > 0" "in_r s = in_w s" | "sint n > 0" "in_r s \<noteq> in_w s" by blast
  then show ?case
  proof cases
    case 1
    then have "consoleread_body target (n, acc) s = Ok (Inr (Inr (Some (n, acc)))) s" by (simp add: consoleread_body_def)
    then have "kloop (Suc m) (consoleread_body target) (n, acc) s = Ok (Inr (Some (n, acc))) s" by (rule kloop_done) simp
    then show ?thesis using 1 Suc.prems(1) by (simp del: kloop.simps)
  next
    case 2
    then obtain j where j: "nat (sint n) = Suc j" by (cases "nat (sint n)") auto
    have "consoleread_body target (n, acc) s = Ok (Inr (if p_killed (proc_at s (curproc s)) then Inr None else Inl (n, acc))) s"
      using 2 by (simp add: consoleread_body_def kif_def)
    then have "kloop (Suc m) (consoleread_body target) (n, acc) s = Ok (if p_killed (proc_at s (curproc s)) then Inr None else Inl (n, acc)) s"
      by (rule kloop_done) simp
    moreover have "fst (in_lines s) = []" using 2 read_empty [OF Suc.prems(1)] by simp
    ultimately show ?thesis using Suc.prems(1) j by (simp add: prod_eq_iff del: kloop.simps)
  next
    case 3
    then obtain j where j: "nat (sint n) = Suc j" by (cases "nat (sint n)") auto
    let ?c = "in_at s (in_r s)" and ?u = "s\<lparr>in_r := in_r s + 1\<rparr>"
    have u: "in_ok ?u" "in_lines s = (?c # fst (in_lines ?u), snd (in_lines ?u))" using read_next [OF Suc.prems(1) 3(2)] by auto
    have "?c \<noteq> 4" using Suc.prems(1) unfolding in_ok_def u(2) by auto
    then have b: "consoleread_body target (n, acc) s = Ok (if ?c = 0x0A then Inr (Inr (Some (n - 1, acc @ [?c]))) else Inl (n - 1, acc @ [?c])) ?u"
      using 3 by (simp add: consoleread_body_def ctl_D_byte kif_def kseq_def kbind_def)
    show ?thesis
    proof (cases "?c = 0x0A")
      case True
      then have "kloop (Suc m) (consoleread_body target) (n, acc) s = Ok (Inr (Some (n - 1, acc @ [?c]))) ?u" using b by (intro kloop_done) simp_all
      then show ?thesis using j u True by (simp del: kloop.simps)
    next
      case False
      have n: "nat (sint (n - 1)) = j" using sint_pred [OF 3(1)] j by simp
      have "kloop (Suc m) (consoleread_body target) (n, acc) s = kloop m (consoleread_body target) (n - 1, acc @ [?c]) ?u"
        using b False by (intro kloop_next) simp
      then show ?thesis
        using Suc.IH [OF u(1), of "n - 1" "acc @ [?c]"] Suc.prems(2) n j u(2) False
        by (simp add: case_prod_beta algebra_simps proc_at_def curproc_def myproc_def del: kloop.simps)
    qed
  qed
qed simp

text \<open>
  C30: reading the console. A reader takes bytes of the completed lines up to and including the first newline, at most
  as many as it asked for; when they run out first it keeps what it took and sleeps on the channel that consoleintr
  wakes, giving up the console lock, and returns -1 if it was killed. Exactly the bytes taken leave the buffer, in
  order, and the line being typed is untouched. The same holds when the call resumes after a sleep, with what it had.
\<close>

theorem consoleread_takes_a_line:
  assumes "in_ok s" "held s = {ConsLock}" "runs s i"
  shows "let (xs, enough) = line_read (nat (sint n)) (fst (in_lines s));
      t = s\<lparr>in_r := in_r s + of_nat (length xs)\<rparr>
    in consoleread_loop ip target n acc s =
      (if enough then kseq (release ConsLock) (kseq (ilock ip) (ret (target - n + of_nat (length xs), acc @ xs))) t
       else if p_killed (proc_at s i) then kseq (release ConsLock) (kseq (ilock ip) (ret (- 1, []))) t
       else Sched (t\<lparr>held := {PtableLock}, procs := upd_nth i (asleep ChInput) (procs s)\<rparr>)) \<and>
    in_ok t \<and> snd (in_lines t) = snd (in_lines s) \<and> fst (in_lines s) = xs @ fst (in_lines t)"
proof -
  obtain xs b where r: "line_read (nat (sint n)) (fst (in_lines s)) = (xs, b)" by fastforce
  define t where "t = s\<lparr>in_r := in_r s + of_nat (length xs)\<rparr>"
  have c: "curproc s = i" using assms(3) by (simp add: runs_def curproc_def)
  have sc: "kloop (nat (sint n) + 1) (consoleread_body target) (n, acc) s =
      Ok (if b then Inr (Some (n - of_nat (length xs), acc @ xs))
          else if p_killed (proc_at s i) then Inr None else Inl (n - of_nat (length xs), acc @ xs)) t \<and>
    in_ok t \<and> in_lines t = (drop (length xs) (fst (in_lines s)), snd (in_lines s))"
    unfolding t_def using consoleread_scan [OF assms(1), of n "nat (sint n) + 1" target acc] c r by simp
  have "runs t i" "held t = {ConsLock}" using assms(2,3) by (simp_all add: t_def runs_def myproc_def)
  from sleep_run [OF this, of ChInput] have sl: "kseq (sleep ChInput (Some ConsLock)) (ret (0 :: cint, [] :: byte list)) t =
      Sched (t\<lparr>held := {PtableLock}, procs := upd_nth i (asleep ChInput) (procs s)\<rparr>)" by (simp add: kstep t_def)
  have "xs @ drop (length xs) (fst (in_lines s)) = fst (in_lines s)"
    using line_read_take [of "nat (sint n)" "fst (in_lines s)"] append_take_drop_id [of "length xs" "fst (in_lines s)"] r by simp
  then show ?thesis using sc sl unfolding r t_def [symmetric] by (simp add: Let_def consoleread_loop_def kbind_def algebra_simps t_def [symmetric])
qed

subsection \<open>A console to run\<close>

definition boot_cons :: consst where
  "boot_cons = boot_fs (\<lambda>_. 0) (fsst_ext [] tsb (pipst_ext (\<lambda>_. new_pipe) (ftst_ext [] (sysst_ext True
     (consst_ext True False True [] (\<lambda>_. 0) (24 * 80 - 1) False (replicate INPUT_BUF 0) (- 2) (- 2) (- 2) ())))))"

lemma boot_cons_fields:
  "in_buf boot_cons = replicate INPUT_BUF 0" "in_r boot_cons = - 2" "in_w boot_cons = - 2" "in_e boot_cons = - 2" "held boot_cons = {}"
  "panicked boot_cons = False" "crt_pos boot_cons = 1919" "uart boot_cons" "uart_out boot_cons = []" "\<not> poweroff boot_cons"
  by (simp_all add: boot_cons_def boot_fs_def boot_bcst_def boot_slst_def boot_ptab_def ptab.defs slst.defs bcst.defs)

lemma boot_cons_table: "table_ok boot_cons" "runs boot_cons 0" "\<not> p_killed (proc_at boot_cons 0)"
  by (simp_all add: boot_cons_def boot_fs_def boot_bcst_def boot_slst_def boot_ptab_def ptab.defs slst.defs bcst.defs
      table_ok_def NPROC_def runs_def myproc_def proc_at_def init_p_def free_p_def)

lemma boot_cons_lines: "in_lines boot_cons = ([], [])" "in_ok boot_cons" "screen_ok boot_cons"
  by (simp_all add: in_ok_def in_shape_def in_lines_def screen_ok_def boot_cons_fields Let_def)

theorem console_input_refines_lines_witness:
  "\<exists>s. consoleintr [97, 98, 8, 99, 13] boot_cons = Ok () s \<and> in_lines s = ([97, 99, 10], []) \<and> \<not> poweroff s"
proof -
  have "fold line_key [97, 98, 8, 99, 13] ([], []) = ([97, 99, 10], [])" by (simp add: line_key_def ctl_values INPUT_BUF_def Let_def)
  then show ?thesis
    using console_input_refines_lines [of boot_cons "[97, 98, 8, 99, 13]"] boot_cons_fields boot_cons_table boot_cons_lines
    by (auto simp: ctl_values)
qed

theorem consoleread_takes_a_line_witness:
  "\<exists>t. consoleread_loop 3 80 80 [] (boot_cons\<lparr>held := {ConsLock}\<rparr>) = Sched t \<and> p_state (procs t ! 0) = SLEEPING \<and> p_chan (procs t ! 0) = ChInput"
proof -
  let ?s = "boot_cons\<lparr>held := {ConsLock}\<rparr>"
  have r: "runs ?s 0" using boot_cons_table(2) by (simp add: runs_def myproc_def)
  have k: "\<not> p_killed (proc_at ?s 0)" using boot_cons_table(3) by (simp add: proc_at_def)
  have l: "line_read (nat (sint (80 :: cint))) [] = ([], False)" by (simp add: numeral_eq_Suc)
  have "0 < length (procs boot_cons)" using boot_cons_table(1) by (simp add: table_ok_def NPROC_def)
  then show ?thesis using consoleread_takes_a_line [of ?s 0 80 3 80 "[]"] r k l boot_cons_lines by (simp add: asleep_def)
qed

text \<open>
  C31: printing. Whatever the format, the arguments and the position of the cursor on the screen, cprintf sends exactly
  the text it formats to the serial port and never runs into the panic of cgaputc; the cursor stays within the 24 lines,
  no cell of the screen memory behind them changes, and nothing else of the kernel state does.
\<close>

theorem cprintf_stays_on_screen:
  assumes "screen_ok s" "ConsLock \<notin> held s"
  shows "\<exists>s'. con_cprintf fmt as s = Ok () s' \<and>
    s' = s\<lparr>uart_out := uart_out s @ (if uart s then cprintf_out (str fmt) as else []), crt := crt s', crt_pos := crt_pos s'\<rparr> \<and>
    crt_pos s' < 24 * 80 \<and> (\<forall>i\<ge>24 * 80. crt s' i = crt s i)"
  using con_cprintf_run [OF assms] by (simp add: printed_def)

theorem cprintf_stays_on_screen_witness:
  "\<exists>s. con_cprintf ''%x %d'' [W 255, W (- 7)] boot_cons = Ok () s \<and> uart_out s = str ''ff -7'' \<and> crt_pos s < 24 * 80"
proof -
  have "cprintf_out (str ''%x %d'') [W 255, W (- 7)] = str ''ff -7''"
    by (simp add: con_printint_def con_digits.simps con_digit_def str_def)
  moreover obtain s where s: "con_cprintf ''%x %d'' [W 255, W (- 7)] boot_cons = Ok () s"
    "s = boot_cons\<lparr>uart_out := uart_out boot_cons @ (if uart boot_cons then cprintf_out (str ''%x %d'') [W 255, W (- 7)] else []), crt := crt s, crt_pos := crt_pos s\<rparr>"
    "crt_pos s < 24 * 80"
    using cprintf_stays_on_screen [of boot_cons "''%x %d''" "[W 255, W (- 7)]"] boot_cons_lines(3) boot_cons_fields(5) by auto
  moreover have "uart_out s = cprintf_out (str ''%x %d'') [W 255, W (- 7)]"
    using arg_cong [OF s(2), of uart_out] boot_cons_fields by simp
  ultimately show ?thesis by auto
qed

end
