(* ===== verification/Grep.thy ===== *)
theory Grep
  imports Cstring
begin

text \<open>
  grep.c: the regular expression matcher of Kernighan and Pike, and the loop that cuts the input into lines. Strings
  are byte lists as in Cstring. The successive results of \<^verbatim>\<open>read\<close> are a list of chunks; the output is the bytes
  passed to \<^verbatim>\<open>write\<close>. The matcher is shown equivalent to a declarative meaning of patterns.
\<close>

abbreviation star :: byte where "star \<equiv> 0x2A"
abbreviation dollar :: byte where "dollar \<equiv> 0x24"
abbreviation dot :: byte where "dot \<equiv> 0x2E"
abbreviation caret :: byte where "caret \<equiv> 0x5E"
abbreviation newline :: byte where "newline \<equiv> 0x0A"

lemma length_tl_ch: "ch xs \<noteq> 0 \<Longrightarrow> length (tl xs) < length xs"
  by (cases xs) auto

function matchhere :: "byte list \<Rightarrow> byte list \<Rightarrow> bool" and matchstar :: "byte \<Rightarrow> byte list \<Rightarrow> byte list \<Rightarrow> bool" where
  "matchhere re text =
     (if ch re = 0 then True
      else if ch (tl re) = star then matchstar (ch re) (tl (tl re)) text
      else if ch re = dollar \<and> ch (tl re) = 0 then ch text = 0
      else if ch text \<noteq> 0 \<and> (ch re = dot \<or> ch re = ch text) then matchhere (tl re) (tl text)
      else False)"
| "matchstar c re text =
     (if matchhere re text then True
      else if ch text \<noteq> 0 \<and> (ch text = c \<or> c = dot) then matchstar c re (tl text)
      else False)"
  by pat_completeness auto

termination
proof (relation "measures [\<lambda>x. case x of Inl (re, _) \<Rightarrow> length re | Inr (_, re, _) \<Rightarrow> length re,
    \<lambda>x. case x of Inl (_, t) \<Rightarrow> length t | Inr (_, _, t) \<Rightarrow> length t, \<lambda>x. case x of Inl _ \<Rightarrow> 0 | Inr _ \<Rightarrow> 1]")
  fix re t :: "byte list"
  assume "ch re \<noteq> 0" "ch (tl re) = star"
  then show "(Inr (ch re, tl (tl re), t), Inl (re, t)) \<in>
      measures [\<lambda>x. case x of Inl (re, _) \<Rightarrow> length re | Inr (_, re, _) \<Rightarrow> length re,
    \<lambda>x. case x of Inl (_, t) \<Rightarrow> length t | Inr (_, _, t) \<Rightarrow> length t, \<lambda>x. case x of Inl _ \<Rightarrow> 0 | Inr _ \<Rightarrow> 1]"
    using length_tl_ch [of re] by auto
qed (auto dest: length_tl_ch)

declare matchhere.simps [simp del] matchstar.simps [simp del]

fun match_from :: "byte list \<Rightarrow> byte list \<Rightarrow> bool" where
  "match_from re [] = matchhere re []"
| "match_from re (c # text) = (if matchhere re (c # text) then True else if c \<noteq> 0 then match_from re text else False)"

definition match :: "byte list \<Rightarrow> byte list \<Rightarrow> bool" where
  "match re text = (if ch re = caret then matchhere (tl re) text else match_from re text)"

text \<open>
  The lines of the buffer: the output, and what is behind the last newline. strchr stops at a NUL byte.
\<close>

function grep_lines :: "byte list \<Rightarrow> byte list \<Rightarrow> byte list \<times> byte list" where
  "grep_lines pattern p =
     (case strchr p newline of
        None \<Rightarrow> ([], p)
      | Some q \<Rightarrow>
          let line = take (length p - length q) p; (out, rest) = grep_lines pattern (tl q) in
          ((if match pattern line then line @ [newline] else []) @ out, rest))"
  by auto

termination
proof (relation "measure (\<lambda>(_, p). length p)")
  fix pattern p q :: "byte list"
  assume "strchr p newline = Some q"
  then have "ch q = newline" "length q \<le> length p" using strchr_Some [of p newline q] by auto
  then show "((pattern, tl q), pattern, p) \<in> measure (\<lambda>(_, p). length p)" using length_tl_ch [of q] by simp
qed simp

declare grep_lines.simps [simp del]

text \<open>
  One turn of the reading loop keeps what is left of the buffer, and the whole loop. \<^verbatim>\<open>if(p == buf) m = 0\<close>: a buffer
  without any complete line is thrown away.
\<close>

definition grep_chunk :: "byte list \<Rightarrow> byte list \<Rightarrow> byte list \<Rightarrow> byte list \<times> byte list" where
  "grep_chunk pattern carry chunk =
    (let b = carry @ chunk; (out, rest) = grep_lines pattern b in
     (out, if length rest = length b then [] else rest))"

fun grep_loop :: "byte list \<Rightarrow> byte list \<Rightarrow> byte list list \<Rightarrow> byte list" where
  "grep_loop pattern carry [] = []"
| "grep_loop pattern carry (c # cs) =
     (if c = [] then [] else let (out, rest) = grep_chunk pattern carry c in out @ grep_loop pattern rest cs)"

definition grep :: "byte list \<Rightarrow> byte list list \<Rightarrow> byte list" where
  "grep pattern cs = grep_loop pattern [] cs"

text \<open>
  main: a file is its name and the chunks read from it, or none when it cannot be opened; the result is what is
  written to descriptor 1 and to descriptor 2.
\<close>

fun grep_files :: "byte list \<Rightarrow> (byte list \<times> byte list list option) list \<Rightarrow> byte list" where
  "grep_files pattern [] = []"
| "grep_files pattern ((name, f) # fs) =
     (case f of None \<Rightarrow> str ''grep: cannot open '' @ name @ [newline]
      | Some cs \<Rightarrow> grep pattern cs @ grep_files pattern fs)"

definition grep_main :: "byte list list \<Rightarrow> byte list list \<Rightarrow> (byte list \<Rightarrow> byte list list option) \<Rightarrow> byte list \<times> byte list" where
  "grep_main argv stdin fs =
    (if length argv \<le> 1 then ([], str ''usage: grep pattern [file ...]'' @ [newline])
     else if length argv \<le> 2 then (grep (argv ! 1) stdin, [])
     else (grep_files (argv ! 1) (map (\<lambda>n. (n, fs n)) (drop 2 argv)), []))"


subsection \<open>The meaning of patterns\<close>

datatype item = One byte | Many byte

fun fits_char :: "byte \<Rightarrow> byte \<Rightarrow> bool" where
  "fits_char c x \<longleftrightarrow> c = dot \<or> c = x"

text \<open>The items of a pattern without its anchors, and whether it ends in \<^verbatim>\<open>$\<close>.\<close>

fun items :: "byte list \<Rightarrow> item list \<times> bool" where
  "items [] = ([], False)"
| "items [c] = (if c = dollar then ([], True) else ([One c], False))"
| "items (c # d # re) =
     (if d = star then let (is, e) = items re in (Many c # is, e)
      else let (is, e) = items (d # re) in (One c # is, e))"

fun lang :: "item list \<Rightarrow> byte list \<Rightarrow> bool" where
  "lang [] w \<longleftrightarrow> w = []"
| "lang (One c # is) w \<longleftrightarrow> (\<exists>x v. w = x # v \<and> fits_char c x \<and> lang is v)"
| "lang (Many c # is) w \<longleftrightarrow> (\<exists>u v. w = u @ v \<and> (\<forall>x\<in>set u. fits_char c x) \<and> lang is v)"

definition here :: "byte list \<Rightarrow> byte list \<Rightarrow> bool" where
  "here re text \<longleftrightarrow> (\<exists>u v. text = u @ v \<and> lang (fst (items re)) u \<and> (snd (items re) \<longrightarrow> v = []))"

lemma here_Nil: "here [] t"
  by (simp add: here_def)

lemma split_assoc:
  "(\<exists>w z. t = w @ z \<and> (\<exists>u v. w = u @ v \<and> A u \<and> B v) \<and> C z) \<longleftrightarrow> (\<exists>u r. t = u @ r \<and> A u \<and> (\<exists>v z. r = v @ z \<and> B v \<and> C z))" (is "?l \<longleftrightarrow> ?r")
proof
  assume ?l
  then obtain u v z where "t = u @ v @ z" "A u" "B v" "C z" by auto
  then show ?r by (intro exI [of _ u] exI [of _ "v @ z"]) blast
next
  assume ?r
  then obtain u v z where "t = u @ v @ z" "A u" "B v" "C z" by auto
  then show ?l by (intro exI [of _ "u @ v"] exI [of _ z]) auto
qed

lemma here_star: "here (c # star # re) t \<longleftrightarrow> (\<exists>u v. t = u @ v \<and> (\<forall>x\<in>set u. fits_char c x) \<and> here re v)"
  unfolding here_def using split_assoc [of t "\<lambda>u. \<forall>x\<in>set u. fits_char c x" "lang (fst (items re))" "\<lambda>v. snd (items re) \<longrightarrow> v = []"]
  by (simp add: case_prod_beta)

lemma here_end: "here [dollar] t \<longleftrightarrow> t = []"
  by (auto simp: here_def)

lemma here_one:
  assumes "ch re \<noteq> star" "\<not> (c = dollar \<and> re = [])"
  shows "here (c # re) t \<longleftrightarrow> (\<exists>x v. t = x # v \<and> fits_char c x \<and> here re v)"
proof -
  have i: "items (c # re) = (One c # fst (items re), snd (items re))" using assms by (cases re) (auto simp: case_prod_beta)
  show ?thesis
  proof
    assume "here (c # re) t"
    then obtain u v where u: "t = u @ v" "lang (One c # fst (items re)) u" "snd (items re) \<longrightarrow> v = []"
      unfolding here_def i fst_conv snd_conv by blast
    then obtain x w where "u = x # w" "fits_char c x" "lang (fst (items re)) w" by (auto simp del: fits_char.simps)
    with u(1,3) show "\<exists>x v. t = x # v \<and> fits_char c x \<and> here re v"
      unfolding here_def by (intro exI [of _ x] exI [of _ "w @ v"]) auto
  next
    assume "\<exists>x v. t = x # v \<and> fits_char c x \<and> here re v"
    then obtain x u v where "t = x # u @ v" "fits_char c x" "lang (fst (items re)) u" "snd (items re) \<longrightarrow> v = []" by (auto simp: here_def)
    then show "here (c # re) t" unfolding here_def i by (intro exI [of _ "x # u"] exI [of _ v]) auto
  qed
qed

lemma split_star:
  "(\<exists>u v. t = u @ v \<and> (\<forall>x\<in>set u. P x) \<and> Q v) \<longleftrightarrow> Q t \<or> (\<exists>x t'. t = x # t' \<and> P x \<and> (\<exists>u v. t' = u @ v \<and> (\<forall>x\<in>set u. P x) \<and> Q v))"
  (is "?l \<longleftrightarrow> ?r")
proof
  assume ?l
  then obtain u v where "t = u @ v" "\<forall>x\<in>set u. P x" "Q v" by blast
  then show ?r by (cases u) auto
next
  assume ?r
  then show ?l
  proof (elim disjE exE conjE)
    fix x t' u v assume "t = x # t'" "P x" "t' = u @ v" "\<forall>x\<in>set u. P x" "Q v"
    then have "t = (x # u) @ v \<and> (\<forall>y\<in>set (x # u). P y) \<and> Q v" by simp
    then show ?l by blast
  qed (metis append_Nil ball_empty empty_set)
qed

lemma matchhere_Cons:
  "matchhere (c # r) t =
     (if c = 0 then True else if ch r = star then matchstar c (tl r) t else if c = dollar \<and> ch r = 0 then ch t = 0
      else if ch t \<noteq> 0 \<and> (c = dot \<or> c = ch t) then matchhere r (tl t) else False)"
  by (subst matchhere.simps) simp

lemma matcher_meaning:
  "0 \<notin> set re \<Longrightarrow> 0 \<notin> set t \<Longrightarrow> matchhere re t \<longleftrightarrow> here re t"
  "0 \<notin> set re \<Longrightarrow> 0 \<notin> set t \<Longrightarrow> matchstar c re t \<longleftrightarrow> (\<exists>u v. t = u @ v \<and> (\<forall>x\<in>set u. fits_char c x) \<and> here re v)"
proof (induction re t and c re t rule: matchhere_matchstar.induct)
  case (1 re t)
  show ?case
  proof (cases re)
    case Nil
    then show ?thesis by (simp add: matchhere.simps [of "[]"] here_Nil)
  next
    case (Cons c r)
    then have c: "c \<noteq> 0" "0 \<notin> set r" using "1.prems" by auto
    consider "ch r = star" | "ch r \<noteq> star" "c = dollar" "r = []" | "ch r \<noteq> star" "\<not> (c = dollar \<and> r = [])" by blast
    then show ?thesis
    proof cases
      case 1
      then obtain r' where "r = star # r'" by (cases r) auto
      then show ?thesis using "1.IH"(1) "1.prems" Cons c by (simp add: matchhere_Cons here_star)
    next
      case 2
      then show ?thesis using "1.prems" Cons by (cases t) (auto simp: matchhere_Cons here_end)
    next
      case 3
      then have nd: "\<not> (c = dollar \<and> ch r = 0)" using c(2) by (cases r) auto
      show ?thesis
      proof (cases t)
        case (Cons x t')
        then show ?thesis using 3 nd "1.IH"(2) "1.prems" c \<open>re = c # r\<close> here_one [OF 3, of t] by (auto simp: matchhere_Cons)
      qed (use 3 nd c \<open>re = c # r\<close> here_one [OF 3, of t] in \<open>simp add: matchhere_Cons\<close>)
    qed
  qed
next
  case (2 c re t)
  have "matchstar c re t \<longleftrightarrow> here re t \<or> (\<exists>x t'. t = x # t' \<and> fits_char c x \<and> matchstar c re t')"
    using 2 by (cases t) (auto simp: matchstar.simps [of c re])
  also have "\<dots> \<longleftrightarrow> here re t \<or> (\<exists>x t'. t = x # t' \<and> fits_char c x \<and> (\<exists>u v. t' = u @ v \<and> (\<forall>x\<in>set u. fits_char c x) \<and> here re v))"
  proof (cases "here re t")
    case False
    then have "matchstar c re t' \<longleftrightarrow> (\<exists>u v. t' = u @ v \<and> (\<forall>x\<in>set u. fits_char c x) \<and> here re v)" if "t = x # t'" "fits_char c x" for x t'
      using 2 that by auto
    then show ?thesis by (cases t) (simp_all del: fits_char.simps cong: conj_cong)
  qed simp
  finally show ?case by (rule trans) (rule split_star [symmetric])
qed

lemma match_from_meaning:
  "0 \<notin> set re \<Longrightarrow> 0 \<notin> set t \<Longrightarrow> match_from re t \<longleftrightarrow> (\<exists>u v. t = u @ v \<and> here re v)"
proof (induction t)
  case (Cons c t)
  then have "match_from re (c # t) \<longleftrightarrow> here re (c # t) \<or> (\<exists>u v. t = u @ v \<and> here re v)"
    using matcher_meaning(1) [of re "c # t"] by simp
  also have "\<dots> \<longleftrightarrow> (\<exists>u v. c # t = u @ v \<and> here re v)" by (auto simp: Cons_eq_append_conv)
  finally show ?case .
qed (simp add: matcher_meaning)

text \<open>
  C34: the matcher finds exactly what patterns mean. A line matches if and only if it splits into \<open>u\<close>, \<open>v\<close> and \<open>w\<close>
  with \<open>v\<close> in the language of the pattern, where a character stands for itself, a dot for any byte and a starred one
  for any number of them, with \<open>u\<close> empty when the pattern starts with a caret and \<open>w\<close> empty when it ends in a dollar
  sign that is not starred. The recursion of the matcher always ends.
\<close>

theorem match_meaning:
  assumes "0 \<notin> set re" "0 \<notin> set t"
  shows "match re t \<longleftrightarrow>
    (\<exists>u v w. t = u @ v @ w \<and> (ch re = caret \<longrightarrow> u = []) \<and>
       (let (is, end_anchor) = items (if ch re = caret then tl re else re) in lang is v \<and> (end_anchor \<longrightarrow> w = [])))"
proof (cases "ch re = caret")
  case True
  have "0 \<notin> set (tl re)" using assms(1) by (cases re) auto
  then show ?thesis using True matcher_meaning(1) [OF _ assms(2)] by (simp add: match_def here_def case_prod_beta)
next
  case False
  then show ?thesis using match_from_meaning [OF assms] by (simp add: match_def here_def case_prod_beta) blast
qed

theorem match_meaning_witness:
  "match (str ''^ab*c.$'') (str ''abbcx'') \<and> \<not> match (str ''^b'') (str ''ab'')"
proof
  have "lang [One 0x63, One dot] [0x63, 0x78]" by simp
  then have "lang [Many 0x62, One 0x63, One dot] ([0x62, 0x62] @ [0x63, 0x78])"
    unfolding lang.simps(3) by (intro exI [of _ "[0x62, 0x62]"] exI [of _ "[0x63, 0x78]"]) simp
  then have l: "lang [One 0x61, Many 0x62, One 0x63, One dot] [0x61, 0x62, 0x62, 0x63, 0x78]" unfolding lang.simps(2) [of 0x61] by simp
  have s: "str ''^ab*c.$'' = [caret, 0x61, 0x62, star, 0x63, dot, dollar]" "str ''abbcx'' = [0x61, 0x62, 0x62, 0x63, 0x78]" by (simp_all add: str_def)
  have i: "items [0x61, 0x62, star, 0x63, dot, dollar] = ([One 0x61, Many 0x62, One 0x63, One dot], True)" by simp
  show "match (str ''^ab*c.$'') (str ''abbcx'')"
    using match_meaning [of "str ''^ab*c.$''" "str ''abbcx''"] l unfolding s by (simp add: i del: lang.simps items.simps)
  show "\<not> match (str ''^b'') (str ''ab'')"
    using match_meaning [of "str ''^b''" "str ''ab''"] by (simp add: str_def)
qed


subsection \<open>Cutting the input into lines\<close>

text \<open>The complete lines of the input after \<open>acc\<close>, and what follows the last newline.\<close>

fun cut_lines :: "byte list \<Rightarrow> byte list \<Rightarrow> byte list list \<times> byte list" where
  "cut_lines acc [] = ([], acc)"
| "cut_lines acc (c # cs) =
     (if c = newline then let (ls, r) = cut_lines [] cs in (acc # ls, r) else cut_lines (acc @ [c]) cs)"

definition selected :: "byte list \<Rightarrow> byte list list \<Rightarrow> byte list" where
  "selected pattern ls = concat (map (\<lambda>l. l @ [newline]) (filter (match pattern) ls))"

lemma cut_lines_append:
  "cut_lines acc (xs @ ys) = (let (l1, r1) = cut_lines acc xs; (l2, r2) = cut_lines r1 ys in (l1 @ l2, r2))"
  by (induction acc xs rule: cut_lines.induct) (simp_all add: case_prod_beta Let_def)

lemma cut_lines_plain: "newline \<notin> set xs \<Longrightarrow> cut_lines acc xs = ([], acc @ xs)"
  by (induction acc xs rule: cut_lines.induct) auto

lemma strchr_None: "strchr p c = None \<Longrightarrow> 0 \<notin> set p \<Longrightarrow> c \<notin> set p"
  by (induction p) (auto split: if_splits)

lemma grep_lines_meaning: "0 \<notin> set p \<Longrightarrow> grep_lines pattern p = (selected pattern (fst (cut_lines [] p)), snd (cut_lines [] p))"
proof (induction pattern p rule: grep_lines.induct)
  case (1 pattern p)
  show ?case
  proof (cases "strchr p newline")
    case None
    then have "cut_lines [] p = ([], p)" using strchr_None [OF None 1(2)] cut_lines_plain [of p "[]"] by simp
    then show ?thesis using None by (simp add: grep_lines.simps [of pattern p] selected_def)
  next
    case (Some q)
    then obtain u where u: "p = u @ q" "ch q = newline" "newline \<notin> set u" using strchr_Some [OF Some] by blast
    then obtain q' where q: "q = newline # q'" by (cases q) auto
    have "grep_lines pattern q' = (selected pattern (fst (cut_lines [] q')), snd (cut_lines [] q'))"
      using 1(1) [OF Some] 1(2) u(1) q by simp
    moreover have "cut_lines [] p = (u # fst (cut_lines [] q'), snd (cut_lines [] q'))"
      using cut_lines_append [of "[]" u q] cut_lines_plain [OF u(3), of "[]"] by (simp add: u(1) q case_prod_beta)
    moreover have "take (length p - length q) p = u" by (simp add: u(1))
    ultimately show ?thesis using Some by (simp add: grep_lines.simps [of pattern p] selected_def q)
  qed
qed

lemma cut_lines_rest: "length (snd (cut_lines acc xs)) \<le> length acc + length xs \<and>
    (newline \<in> set xs \<longrightarrow> length (snd (cut_lines acc xs)) < length acc + length xs)"
  by (induction acc xs rule: cut_lines.induct) (auto simp: case_prod_beta)

lemma grep_chunk_meaning:
  assumes "0 \<notin> set carry" "0 \<notin> set chunk" "newline \<in> set chunk" "newline \<notin> set carry"
  shows "grep_chunk pattern carry chunk = (selected pattern (fst (cut_lines carry chunk)), snd (cut_lines carry chunk))"
proof -
  have "cut_lines [] (carry @ chunk) = cut_lines carry chunk"
    using cut_lines_append [of "[]" carry chunk] cut_lines_plain [OF assms(4), of "[]"] by (simp add: case_prod_beta)
  then show ?thesis
    using assms cut_lines_rest [of carry chunk] grep_lines_meaning [of "carry @ chunk" pattern] by (simp add: grep_chunk_def)
qed

lemma cut_lines_rest_set: "set (snd (cut_lines acc xs)) \<subseteq> set acc \<union> set xs \<and> (newline \<notin> set acc \<longrightarrow> newline \<notin> set (snd (cut_lines acc xs)))"
  by (induction acc xs rule: cut_lines.induct) (auto simp: case_prod_beta)

lemma grep_loop_meaning:
  assumes "0 \<notin> set carry" "newline \<notin> set carry" "\<forall>c\<in>set cs. newline \<in> set c \<and> 0 \<notin> set c"
  shows "grep_loop pattern carry cs = selected pattern (fst (cut_lines carry (concat cs)))"
  using assms
proof (induction cs arbitrary: carry)
  case (Cons c cs)
  let ?r = "snd (cut_lines carry c)"
  have "0 \<notin> set ?r" "newline \<notin> set ?r" using Cons.prems cut_lines_rest_set [of carry c] by auto
  moreover have "c \<noteq> []" using Cons.prems by auto
  ultimately show ?case
    using Cons.IH [of ?r] Cons.prems grep_chunk_meaning [of carry c pattern] cut_lines_append [of carry c "concat cs"]
    by (simp add: case_prod_beta selected_def Let_def)
qed (simp add: selected_def)



text \<open>A line that two reads bring in two halves is lost: the first half has no newline and is thrown away.\<close>

lemma grep_loses_split_line:
  "grep (str ''ab'') [str ''xa'', str ''b'' @ [newline]] = [] \<and> match (str ''ab'') (str ''xab'')"
proof -
  have "matchhere [] t" for t by (subst matchhere.simps) simp
  then have "\<not> match (str ''ab'') (str ''b'')" "match (str ''ab'') (str ''xab'')" by (simp_all add: match_def str_def matchhere_Cons)
  then show ?thesis using grep_lines_meaning [of "str ''b'' @ [newline]" "str ''ab''"] grep_lines_meaning [of "str ''xa''" "str ''ab''"]
    by (simp add: grep_def grep_chunk_def str_def selected_def)
qed

end
