(* ===== verification/Sh.thy ===== *)
theory Sh
  imports Cstring "HOL-Library.Sublist"
begin

text \<open>
  The command parser of sh.c. During parsing the line is not changed, so a pointer into it is given by the bytes from
  there to the end \<^verbatim>\<open>es\<close> of the line; \<^verbatim>\<open>*s\<close> is 0 at \<^verbatim>\<open>es\<close>. An argument keeps the two pointers \<^verbatim>\<open>q\<close> and \<^verbatim>\<open>eq\<close>;
  \<open>nulterminate\<close> then writes the NULs into the line. A call of panic is an error value with its message. The
  recursive-descent routines take a bound on the depth of calls, and none stands for a parser that has not returned:
  the parser is shown to return within a bound computed from the length of the line.
\<close>

unbundle bit_operations_syntax

type_synonym ptr = "byte list"
type_synonym token = "ptr \<times> ptr"

definition MAXARGS :: nat where "MAXARGS = 10"

datatype cmd =
    EXEC "token list"
  | REDIR cmd token uint nat
  | PIPE cmd cmd
  | LIST cmd cmd
  | BACK cmd

definition whitespace :: "byte list" where
  "whitespace = [0x20, 0x09, 0x0D, 0x0A, 0x0B]"

definition symbols :: "byte list" where
  "symbols = str ''<|>&;()''"

definition is_space :: "byte \<Rightarrow> bool" where
  "is_space c \<longleftrightarrow> strchr whitespace c \<noteq> None"

definition is_symbol :: "byte \<Rightarrow> bool" where
  "is_symbol c \<longleftrightarrow> strchr symbols c \<noteq> None"

definition skip_space :: "ptr \<Rightarrow> ptr" where
  "skip_space s = dropWhile is_space s"

text \<open>gettoken: the kind of token, where it starts and ends, and the pointer after it and the blanks.\<close>

definition gettoken :: "ptr \<Rightarrow> byte \<times> token \<times> ptr" where
  "gettoken ps =
    (let q = skip_space ps; c = ch q;
         (kind, eq) =
           (if c = 0 then (0, q)
            else if c \<in> set (str ''|();&<'') then (c, tl q)
            else if c = of_char CHR ''>'' then
              (if ch (tl q) = of_char CHR ''>'' then (of_char CHR ''+'', tl (tl q)) else (c, tl q))
            else (of_char CHR ''a'', dropWhile (\<lambda>d. \<not> is_space d \<and> \<not> is_symbol d) q))
     in (kind, (q, eq), skip_space eq))"

definition peek :: "ptr \<Rightarrow> string \<Rightarrow> bool \<times> ptr" where
  "peek ps toks = (let s = skip_space ps in (ch s \<noteq> 0 \<and> strchr (str toks) (ch s) \<noteq> None, s))"

text \<open>\<open>O_WRONLY|O_CREATE\<close>\<close>

definition redir_of :: "byte \<Rightarrow> cmd \<Rightarrow> token \<Rightarrow> cmd" where
  "redir_of tok cmd f =
    (if tok = of_char CHR ''<'' then REDIR cmd f 0 0
     else if tok = of_char CHR ''>'' then REDIR cmd f (0x001 OR 0x200) 1
     else if tok = of_char CHR ''+'' then REDIR cmd f (0x001 OR 0x200) 1
     else cmd)"

lemma skip_space_le: "length (skip_space s) \<le> length s"
  by (simp add: skip_space_def length_dropWhile_le)

lemma dropWhile_le: "length (dropWhile P s) \<le> length s"
  by (rule length_dropWhile_le)

lemma symbols_covered: "is_symbol c \<Longrightarrow> c \<in> set (str ''|();&<'') \<or> c = of_char CHR ''>''"
  by (auto simp: is_symbol_def symbols_def str_def split: if_splits)

text \<open>A token is at least one byte long, except at the end of the line.\<close>

lemma gettoken_shape:
  obtains kind q eq where "gettoken s = (kind, (q, eq), skip_space eq)" "q = skip_space s" "kind = 0 \<longleftrightarrow> ch q = 0"
    "length eq \<le> length q" "ch q \<noteq> 0 \<longrightarrow> length eq < length q"
proof -
  let ?q = "skip_space s"
  have t: "ch ?q \<noteq> 0 \<Longrightarrow> length (tl ?q) < length ?q" by (cases ?q) auto
  have d: "length (dropWhile (\<lambda>d. \<not> is_space d \<and> \<not> is_symbol d) ?q) < length ?q"
    if a: "ch ?q \<noteq> 0" "ch ?q \<notin> set (str ''|();&<'')" "ch ?q \<noteq> of_char CHR ''>''"
  proof -
    obtain c r where q: "?q = c # r" using a(1) by (cases ?q) auto
    then have "\<not> is_space c" unfolding skip_space_def by (metis dropWhile_eq_Cons_conv)
    moreover have "\<not> is_symbol c" using symbols_covered [of c] a q by auto
    ultimately show ?thesis using dropWhile_le [of _ r] by (simp add: q le_imp_less_Suc)
  qed
  have n: "(of_char CHR ''a'' :: byte) \<noteq> 0" "(of_char CHR ''+'' :: byte) \<noteq> 0" by simp_all
  show ?thesis
    by (rule that [of "fst (gettoken s)" ?q "snd (fst (snd (gettoken s)))"])
      (use t d n in \<open>auto simp: gettoken_def Let_def intro: less_imp_le order.strict_trans1 [OF diff_le_self]\<close>)
qed

lemma gettoken_le:
  assumes "gettoken s = (k, tk, p)"
  shows "length p \<le> length s" "ch (skip_space s) \<noteq> 0 \<Longrightarrow> length p < length s"
proof -
  obtain kind q eq where g: "gettoken s = (kind, (q, eq), skip_space eq)" "q = skip_space s" "kind = 0 \<longleftrightarrow> ch q = 0"
    "length eq \<le> length q" "ch q \<noteq> 0 \<longrightarrow> length eq < length q" by (rule gettoken_shape [of s])
  have p: "p = skip_space eq" using assms g(1) by simp
  show "length p \<le> length s" using p g(2,4) skip_space_le [of s] skip_space_le [of eq] by simp
  show "length p < length s" if "ch (skip_space s) \<noteq> 0"
    using p g(2) g(5) that skip_space_le [of s] skip_space_le [of eq] by simp
qed

text \<open>What a parsing routine returns: a value and the pointer \<^verbatim>\<open>*ps\<close> afterwards, or the text that panic prints.\<close>

type_synonym 'a parsed = "byte list + 'a \<times> ptr"

definition shpanic :: "string \<Rightarrow> 'a parsed" where
  "shpanic s = Inl (str s @ [0x0A])"

lemma skip_skip [simp]: "skip_space (skip_space s) = skip_space s"
  by (simp add: skip_space_def)

lemma peek_true: "peek ps toks = (True, s) \<Longrightarrow> ch (skip_space s) \<noteq> 0 \<and> length s \<le> length ps"
  using skip_space_le [of ps] by (auto simp: peek_def Let_def)

function parseredirs :: "cmd \<Rightarrow> ptr \<Rightarrow> cmd parsed" where
  "parseredirs cmd ps =
    (let (more, s) = peek ps ''<>'' in
     if \<not> more then Inr (cmd, s)
     else
       let (tok, _, s1) = gettoken s; (kind, f, s2) = gettoken s1 in
       if kind \<noteq> of_char CHR ''a'' then shpanic ''missing file for redirection''
       else parseredirs (redir_of tok cmd f) s2)"
  by pat_completeness auto

termination
proof (relation "measure (length \<circ> snd)")
  fix cmd more s k tk s1 kind f s2 and ps :: ptr and x y z w v :: "_"
  assume "x = peek ps ''<>''" "(more, s) = x" "\<not> \<not> more" "y = gettoken s" "(k, z) = y" "(tk, s1) = z" "w = gettoken s1" "(kind, v) = w" "(f, s2) = v"
  then have "peek ps ''<>'' = (True, s)" "gettoken s = (k, tk, s1)" "gettoken s1 = (kind, f, s2)" by auto
  then show "((redir_of k cmd f, s2), cmd, ps) \<in> measure (length \<circ> snd)"
    using peek_true [of ps "''<>''" s] gettoken_le(2) [of s k tk s1] gettoken_le(1) [of s1 kind f s2] by auto
qed simp

declare parseredirs.simps [simp del]

text \<open>\<^verbatim>\<open>cmd->argv[argc] = q\<close> stores into the execcmd inside the redirections built so far.\<close>

fun put_arg :: "token \<Rightarrow> cmd \<Rightarrow> cmd" where
  "put_arg a (EXEC ts) = EXEC (ts @ [a])"
| "put_arg a (REDIR c f m d) = REDIR (put_arg a c) f m d"
| "put_arg a c = c"

lemma peek_simp: "peek ps toks = (ch (skip_space ps) \<noteq> 0 \<and> strchr (str toks) (ch (skip_space ps)) \<noteq> None, skip_space ps)"
  by (simp add: peek_def Let_def)

text \<open>One turn of the loop of parseredirs.\<close>

lemma parseredirs_step:
  obtains (stop) "\<not> fst (peek ps ''<>'')" "parseredirs c ps = Inr (c, skip_space ps)"
  | (err) e where "parseredirs c ps = Inl e"
  | (more) tok tk s1 f s2 where "fst (peek ps ''<>'')" "gettoken (skip_space ps) = (tok, tk, s1)"
      "gettoken s1 = (of_char CHR ''a'', f, s2)" "length s2 < length ps" "parseredirs c ps = parseredirs (redir_of tok c f) s2"
proof (cases "fst (peek ps ''<>'')")
  case False
  then show ?thesis by (intro stop) (simp_all add: parseredirs.simps [of c ps] peek_simp)
next
  case True
  obtain tok tk s1 where g1: "gettoken (skip_space ps) = (tok, tk, s1)" by (metis prod_cases3)
  obtain kind f s2 where g2: "gettoken s1 = (kind, f, s2)" by (metis prod_cases3)
  show ?thesis
  proof (cases "kind = of_char CHR ''a''")
    case False
    then show ?thesis using True g1 g2 by (intro err [of "str ''missing file for redirection'' @ [0x0A]"]) (simp add: parseredirs.simps [of c ps] peek_simp shpanic_def)
  next
    case a: True
    have "length s1 < length (skip_space ps)" using gettoken_le(2) [OF g1] True by (simp add: peek_simp)
    then have "length s2 < length ps" using gettoken_le(1) [OF g2] skip_space_le [of ps] by linarith
    then show ?thesis using True g1 g2 a by (intro more [of tok tk s1 f s2]) (simp_all add: parseredirs.simps [of c ps] peek_simp)
  qed
qed

lemma parseredirs_le: "parseredirs c ps = Inr (c', p) \<Longrightarrow> length p \<le> length ps"
proof (induction ps arbitrary: c rule: length_induct)
  case (1 ps)
  show ?case
  proof (cases rule: parseredirs_step [of ps c])
    case stop
    then show ?thesis using "1.prems" skip_space_le [of ps] by simp
  next
    case (more tok tk s1 f s2)
    then show ?thesis using 1 by fastforce
  qed (use "1.prems" in simp)
qed

lemma gettoken_kind:
  assumes "gettoken s = (k, tk, p)" "k \<noteq> 0"
  shows "ch (skip_space s) \<noteq> 0"
proof -
  obtain kind q eq where "gettoken s = (kind, (q, eq), skip_space eq)" "q = skip_space s" "kind = 0 \<longleftrightarrow> ch q = 0"
    "length eq \<le> length q" "ch q \<noteq> 0 \<longrightarrow> length eq < length q" by (rule gettoken_shape [of s])
  then show ?thesis using assms by simp
qed

function parseargs :: "nat \<Rightarrow> cmd \<Rightarrow> ptr \<Rightarrow> cmd parsed" where
  "parseargs argc ret ps =
    (let (stop, s) = peek ps ''|)&;'' in
     if stop then Inr (ret, s)
     else
       let (tok, a, s1) = gettoken s in
       if tok = 0 then Inr (ret, s1)
       else if tok \<noteq> of_char CHR ''a'' then shpanic ''syntax''
       else if argc + 1 \<ge> MAXARGS then shpanic ''too many args''
       else case parseredirs (put_arg a ret) s1 of Inl e \<Rightarrow> Inl e | Inr (ret1, s2) \<Rightarrow> parseargs (argc + 1) ret1 s2)"
  by pat_completeness auto

termination
proof (relation "measure (\<lambda>(_, _, ps). length ps)")
  fix argc ret ret1 s2 stop s tok a s1 and ps :: ptr and x y z b
  assume "x = peek ps ''|)&;''" "(stop, s) = x" "y = gettoken s" "(tok, z) = y" "(a, s1) = z" "\<not> tok = 0"
    "parseredirs (put_arg a ret) s1 = Inr b" "(ret1, s2) = b"
  then have g: "gettoken s = (tok, a, s1)" "parseredirs (put_arg a ret) s1 = Inr (ret1, s2)" "s = skip_space ps" "tok \<noteq> 0"
    by (auto simp: peek_def Let_def)
  have "length s1 < length s" using gettoken_le(2) [OF g(1)] gettoken_kind [OF g(1,4)] by simp
  then show "((argc + 1, ret1, s2), argc, ret, ps) \<in> measure (\<lambda>(_, _, ps). length ps)"
    using parseredirs_le [OF g(2)] skip_space_le [of ps] g(3) by simp
qed simp

declare parseargs.simps [simp del]

text \<open>The loop of parseline over \<^verbatim>\<open>&\<close>.\<close>

function parsebacks :: "cmd \<Rightarrow> ptr \<Rightarrow> cmd \<times> ptr" where
  "parsebacks cmd ps =
    (let (more, s) = peek ps ''&'' in
     if \<not> more then (cmd, s) else let (_, _, s1) = gettoken s in parsebacks (BACK cmd) s1)"
  by pat_completeness auto

termination
proof (relation "measure (length \<circ> snd)")
  fix cmd more s k tk s1 and ps :: ptr and x y z
  assume "x = peek ps ''&''" "(more, s) = x" "\<not> \<not> more" "y = gettoken s" "(k, z) = y" "(tk, s1) = z"
  then have "peek ps ''&'' = (True, s)" "gettoken s = (k, tk, s1)" by auto
  then show "((BACK cmd, s1), cmd, ps) \<in> measure (length \<circ> snd)" using peek_true [of ps "''&''" s] gettoken_le(2) [of s k tk s1] by auto
qed simp

declare parsebacks.simps [simp del]

text \<open>Sequencing: a routine that has not returned, or has printed an error and left.\<close>

definition andthen :: "'a parsed option \<Rightarrow> ('a \<Rightarrow> ptr \<Rightarrow> 'b parsed option) \<Rightarrow> 'b parsed option" where
  "andthen m k = (case m of None \<Rightarrow> None | Some (Inl e) \<Rightarrow> Some (Inl e) | Some (Inr (x, p)) \<Rightarrow> k x p)"

fun parseline :: "nat \<Rightarrow> ptr \<Rightarrow> cmd parsed option"
  and parsepipe :: "nat \<Rightarrow> ptr \<Rightarrow> cmd parsed option"
  and parseexec :: "nat \<Rightarrow> ptr \<Rightarrow> cmd parsed option"
  and parseblock :: "nat \<Rightarrow> ptr \<Rightarrow> cmd parsed option" where
  "parseline 0 ps = None"
| "parseline (Suc n) ps =
     andthen (parsepipe n ps) (\<lambda>c p.
       let (cmd, p1) = parsebacks c p; (more, p2) = peek p1 '';'' in
       if \<not> more then Some (Inr (cmd, p2))
       else let (_, _, p3) = gettoken p2 in
         andthen (parseline n p3) (\<lambda>right p4. Some (Inr (LIST cmd right, p4))))"
| "parsepipe 0 ps = None"
| "parsepipe (Suc n) ps =
     andthen (parseexec n ps) (\<lambda>cmd p.
       let (more, p1) = peek p ''|'' in
       if \<not> more then Some (Inr (cmd, p1))
       else let (_, _, p2) = gettoken p1 in
         andthen (parsepipe n p2) (\<lambda>right p3. Some (Inr (PIPE cmd right, p3))))"
| "parseexec 0 ps = None"
| "parseexec (Suc n) ps =
     (let (block, p) = peek ps ''('' in
      if block then parseblock n p
      else andthen (Some (parseredirs (EXEC []) p)) (\<lambda>ret p1. Some (parseargs 0 ret p1)))"
| "parseblock 0 ps = None"
| "parseblock (Suc n) ps =
     (let (open1, p) = peek ps ''('' in
      if \<not> open1 then Some (shpanic ''parseblock'')
      else let (_, _, p1) = gettoken p in
        andthen (parseline n p1) (\<lambda>cmd p2.
          let (close1, p3) = peek p2 '')'' in
          if \<not> close1 then Some (shpanic ''syntax - missing )'')
          else let (_, _, p4) = gettoken p3 in Some (parseredirs cmd p4)))"

text \<open>\<open>nulterminate n cmd line\<close> with the length \<open>n\<close> of the string: a pointer \<open>p\<close> is the index \<open>n - length p\<close> of the line.\<close>

definition put_nul :: "nat \<Rightarrow> ptr \<Rightarrow> byte list \<Rightarrow> byte list" where
  "put_nul n p line = line[n - length p := 0]"

fun nulterminate :: "nat \<Rightarrow> cmd \<Rightarrow> byte list \<Rightarrow> byte list" where
  "nulterminate n (EXEC ts) line = fold (\<lambda>(q, eq). put_nul n eq) ts line"
| "nulterminate n (REDIR c (q, eq) m d) line = put_nul n eq (nulterminate n c line)"
| "nulterminate n (PIPE l r) line = nulterminate n r (nulterminate n l line)"
| "nulterminate n (LIST l r) line = nulterminate n r (nulterminate n l line)"
| "nulterminate n (BACK c) line = nulterminate n c line"

definition parsecmd :: "byte list \<Rightarrow> (byte list + cmd \<times> byte list) option" where
  "parsecmd line =
    (let s = take (strlen line) line in
     case parseline (4 * strlen line + 4) s of
       None \<Rightarrow> None
     | Some (Inl e) \<Rightarrow> Some (Inl e)
     | Some (Inr (cmd, p)) \<Rightarrow>
         let (_, p1) = peek p '''' in
         if p1 \<noteq> [] then Some (Inl (str ''leftovers: '' @ p1 @ [0x0A] @ str ''syntax'' @ [0x0A]))
         else Some (Inr (cmd, nulterminate (strlen line) cmd line)))"

subsection \<open>What the parser returns\<close>

text \<open>A word: the text of an argument or a file name.\<close>

definition word_ok :: "byte list \<Rightarrow> bool" where
  "word_ok w \<longleftrightarrow> w \<noteq> [] \<and> (\<forall>c\<in>set w. c \<noteq> 0 \<and> \<not> is_space c \<and> \<not> is_symbol c)"

fun toks :: "cmd \<Rightarrow> token set" where
  "toks (EXEC ts) = set ts"
| "toks (REDIR c f m d) = insert f (toks c)"
| "toks (PIPE l r) = toks l \<union> toks r"
| "toks (LIST l r) = toks l \<union> toks r"
| "toks (BACK c) = toks c"

fun cmd_ok :: "cmd \<Rightarrow> bool" where
  "cmd_ok (EXEC ts) \<longleftrightarrow> length ts < MAXARGS"
| "cmd_ok (REDIR c f m d) \<longleftrightarrow> cmd_ok c \<and> (m, d) \<in> {(0, 0), (0x201, 1)}"
| "cmd_ok (PIPE l r) \<longleftrightarrow> cmd_ok l \<and> cmd_ok r"
| "cmd_ok (LIST l r) \<longleftrightarrow> cmd_ok l \<and> cmd_ok r"
| "cmd_ok (BACK c) \<longleftrightarrow> cmd_ok c"

text \<open>A token is a word, and ends at a blank, a symbol or the end of the line.\<close>

definition token_ok :: "token \<Rightarrow> bool" where
  "token_ok a \<longleftrightarrow> (\<exists>w. word_ok w \<and> fst a = w @ snd a) \<and> (snd a = [] \<or> is_space (hd (snd a)) \<or> is_symbol (hd (snd a)))"

text \<open>The tokens \<open>T\<close> are words that lie between the pointers \<open>p\<close> and \<open>p'\<close>, and no two overlap.\<close>

definition apart :: "token \<Rightarrow> token \<Rightarrow> bool" where
  "apart a b \<longleftrightarrow> a = b \<or> length (fst b) \<le> length (snd a) \<or> length (fst a) \<le> length (snd b)"

definition seg :: "ptr \<Rightarrow> ptr \<Rightarrow> token set \<Rightarrow> bool" where
  "seg p p' T \<longleftrightarrow> suffix p' p \<and>
     (\<forall>a\<in>T. suffix (fst a) p \<and> suffix p' (snd a) \<and> token_ok a) \<and> (\<forall>a\<in>T. \<forall>b\<in>T. apart a b)"

lemma seg_none: "suffix p' p \<Longrightarrow> seg p p' {}"
  by (simp add: seg_def)

lemma seg_one: "suffix q p \<Longrightarrow> token_ok (q, eq) \<Longrightarrow> suffix p' eq \<Longrightarrow> seg p p' {(q, eq)}"
proof -
  assume a: "suffix q p" "token_ok (q, eq)" "suffix p' eq"
  have "suffix eq q" using a(2) by (auto simp: token_ok_def suffix_def)
  then have "suffix p' p" using a suffix_order.trans by metis
  then show ?thesis using a by (auto simp: seg_def apart_def)
qed

lemma seg_join:
  assumes "seg p p1 T" "seg p1 p2 U"
  shows "seg p p2 (T \<union> U)"
proof -
  have s: "suffix p1 p" "suffix p2 p1" using assms by (auto simp: seg_def)
  have c: "apart a b \<and> apart b a" if "a \<in> T" "b \<in> U" for a b
  proof -
    have "suffix p1 (snd a)" "suffix (fst b) p1" using assms that by (auto simp: seg_def)
    then have "length (fst b) \<le> length (snd a)" using suffix_length_le le_trans by blast
    then show ?thesis by (simp add: apart_def)
  qed
  have i: "\<forall>a\<in>T \<union> U. suffix (fst a) p \<and> suffix p2 (snd a) \<and> token_ok a"
    using assms s suffix_order.trans unfolding seg_def by blast
  have a: "\<forall>a\<in>T \<union> U. \<forall>b\<in>T \<union> U. apart a b" using assms c unfolding seg_def by blast
  show ?thesis unfolding seg_def using suffix_order.trans [OF s(2,1)] i a by blast
qed

lemma seg_move: "seg p s T \<Longrightarrow> suffix s' s \<Longrightarrow> seg p s' T"
  using seg_join [of p s T s' "{}"] by (simp add: seg_none)

lemma seg_add: "seg p s T \<Longrightarrow> seg s s' {a} \<Longrightarrow> seg p s' (insert a T)"
  using seg_join [of p s T s' "{a}"] by simp

lemma seg_skip: "seg p p' T \<Longrightarrow> seg p (skip_space p') T"
  using seg_join [of p p' T "skip_space p'" "{}"] by (simp add: seg_none skip_space_def suffix_dropWhile)

lemma skip_suffix [simp]: "suffix (skip_space p) p"
  by (simp add: skip_space_def suffix_dropWhile)

lemma first_word:
  assumes "0 \<notin> set q" "length (dropWhile (\<lambda>d. \<not> is_space d \<and> \<not> is_symbol d) q) < length q"
  shows "word_ok (takeWhile (\<lambda>d. \<not> is_space d \<and> \<not> is_symbol d) q)"
  using assms by (cases q) (auto simp: word_ok_def dest: set_takeWhileD split: if_splits)

lemma gettoken_seg:
  assumes "gettoken s = (k, a, p)"
  shows "suffix p s" "k = of_char CHR ''a'' \<Longrightarrow> 0 \<notin> set s \<Longrightarrow> seg s p {a}"
proof -
  let ?q = "skip_space s" and ?w = "\<lambda>d. \<not> is_space d \<and> \<not> is_symbol d"
  obtain kind q eq where g: "gettoken s = (kind, (q, eq), skip_space eq)" "q = ?q" "kind = 0 \<longleftrightarrow> ch q = 0"
    "length eq \<le> length q" "ch q \<noteq> 0 \<longrightarrow> length eq < length q" by (rule gettoken_shape [of s])
  have a: "a = (?q, eq)" "p = skip_space eq" using assms g by auto
  have "suffix eq ?q" using assms a by (auto simp: gettoken_def Let_def suffix_tl suffix_dropWhile split: if_splits intro: suffix_order.trans [OF suffix_tl])
  then have e: "suffix p eq" "suffix eq ?q" using a(2) by auto
  show "suffix p s" using e skip_suffix [of s] suffix_order.trans by metis
  assume k: "k = of_char CHR ''a''" and z: "0 \<notin> set s"
  have n: "ch ?q \<noteq> 0" using gettoken_kind [OF assms] k by simp
  have lt: "length eq < length ?q" using g(2,5) n by simp
  have eq: "eq = dropWhile ?w ?q" using assms k n a by (auto simp: gettoken_def Let_def str_def split: if_splits)
  have "0 \<notin> set ?q" using z skip_suffix [of s] set_mono_suffix by blast
  then have "word_ok (takeWhile ?w ?q)" using first_word [of ?q] lt eq by blast
  moreover have "?q = takeWhile ?w ?q @ eq" by (simp add: eq)
  moreover have "eq = [] \<or> \<not> ?w (hd eq)" unfolding eq using hd_dropWhile by blast
  ultimately have "token_ok (?q, eq)" unfolding token_ok_def fst_conv snd_conv by blast
  then show "seg s p {a}" unfolding a(1) by (rule seg_one [OF skip_suffix _ e(1)])
qed

text \<open>The loops. \<open>simple\<close>: a command that is an execcmd inside redirections, with its number of arguments.\<close>

fun nargs :: "cmd \<Rightarrow> nat option" where
  "nargs (EXEC ts) = Some (length ts)"
| "nargs (REDIR c f m d) = nargs c"
| "nargs c = None"

definition good :: "ptr \<Rightarrow> ptr \<Rightarrow> cmd \<Rightarrow> bool" where
  "good p p' c \<longleftrightarrow> cmd_ok c \<and> seg p p' (toks c)"

lemma redir_kind:
  assumes "fst (peek ps ''<>'')" "gettoken (skip_space ps) = (tok, tk, s1)"
  shows "tok \<in> set (str ''<>+'')"
  using assms by (auto simp: peek_simp gettoken_def Let_def str_def split: if_splits)

lemma redir_of_ok: "tok \<in> set (str ''<>+'') \<Longrightarrow> \<exists>m d. redir_of tok c f = REDIR c f m d \<and> (m, d) \<in> {(0, 0), (0x201, 1)}"
  by (auto simp: redir_of_def str_def)

lemma suffix_no0: "suffix p s \<Longrightarrow> 0 \<notin> set s \<Longrightarrow> 0 \<notin> set p"
  using set_mono_suffix by blast

lemma parseredirs_good:
  assumes "parseredirs c s = Inr (c', p')" "good p s c" "0 \<notin> set p"
  shows "good p p' c' \<and> nargs c' = nargs c"
  using assms
proof (induction s arbitrary: c rule: length_induct)
  case (1 s)
  have sp: "suffix s p" using "1.prems"(2) by (simp add: good_def seg_def)
  then have z: "0 \<notin> set (skip_space s)" using suffix_no0 [OF _ "1.prems"(3)] suffix_order.trans [OF skip_suffix sp] by blast
  show ?case
  proof (cases rule: parseredirs_step [of s c])
    case stop
    then show ?thesis using "1.prems" by (auto simp: good_def intro: seg_skip)
  next
    case (more tok tk s1 f s2)
    obtain m d where r: "redir_of tok c f = REDIR c f m d" "(m, d) \<in> {(0, 0), (0x201, 1)}"
      using redir_of_ok [OF redir_kind [OF more(1,2)]] by blast
    have "suffix s1 (skip_space s)" "seg s1 s2 {f}" using gettoken_seg(1) [OF more(2)] gettoken_seg(2) [OF more(3)] suffix_no0 z by blast+
    then have "seg p s2 (insert f (toks c))"
      using seg_add [of p s1 "toks c" s2 f] seg_move [of p s "toks c" s1] suffix_order.trans [OF _ skip_suffix] "1.prems"(2) by (simp add: good_def)
    then have "good p s2 (redir_of tok c f)" using "1.prems"(2) r by (auto simp: good_def)
    then show ?thesis using "1.IH" more(4,5) "1.prems"(1,3) r(1) by fastforce
  qed (use "1.prems" in simp)
qed

lemma peek_T: "fst (peek p t) \<Longrightarrow> peek p t = (True, skip_space p)"
  by (auto simp: peek_simp)

lemma peek_F: "\<not> fst (peek p t) \<Longrightarrow> peek p t = (False, skip_space p)"
  by (auto simp: peek_simp)

lemma put_arg_good:
  assumes "nargs c = Some n" "Suc n < MAXARGS" "good p s c" "seg s s' {a}"
  shows "good p s' (put_arg a c) \<and> nargs (put_arg a c) = Some (Suc n)"
proof -
  have "toks (put_arg a c) = insert a (toks c) \<and> nargs (put_arg a c) = Some (Suc n) \<and> cmd_ok (put_arg a c)"
    using assms(1-3) unfolding good_def by (induction a c rule: put_arg.induct) (auto simp: seg_def)
  then show ?thesis using assms(3) seg_add [OF _ assms(4)] by (simp add: good_def)
qed

lemma parseargs_step:
  obtains (stop) p where "suffix p ps" "parseargs argc ret ps = Inr (ret, p)"
  | (err) e where "parseargs argc ret ps = Inl e"
  | (more) a s1 ret1 s2 where "\<not> fst (peek ps ''|)&;'')" "gettoken (skip_space ps) = (of_char CHR ''a'', a, s1)" "Suc argc < MAXARGS"
      "parseredirs (put_arg a ret) s1 = Inr (ret1, s2)" "length s2 < length ps" "parseargs argc ret ps = parseargs (Suc argc) ret1 s2"
proof (cases "fst (peek ps ''|)&;'')")
  case True
  then show ?thesis by (intro stop [of "skip_space ps"]) (simp_all add: parseargs.simps [of argc ret ps] peek_simp)
next
  case False
  note eq = parseargs.simps [of argc ret ps]
  have pk: "peek ps ''|)&;'' = (False, skip_space ps)" using False by (auto simp: peek_simp)
  obtain tok a s1 where g: "gettoken (skip_space ps) = (tok, a, s1)" by (metis prod_cases3)
  consider "tok = 0" | "tok \<noteq> 0" "tok \<noteq> of_char CHR ''a'' \<or> Suc argc \<ge> MAXARGS" | "tok = of_char CHR ''a''" "Suc argc < MAXARGS" by fastforce
  then show ?thesis
  proof cases
    case 1
    then show ?thesis using False g gettoken_seg(1) [OF g] suffix_order.trans [OF _ skip_suffix]
      by (intro stop [of s1]) (simp_all add: eq pk)
  next
    case 2
    have "\<exists>e. parseargs argc ret ps = Inl e" using 2 g by (auto simp: eq pk shpanic_def)
    then show ?thesis using err by blast
  next
    case 3
    show ?thesis
    proof (cases "parseredirs (put_arg a ret) s1")
      case (Inl e)
      then show ?thesis using 3 False g by (intro err [of e]) (simp add: eq pk)
    next
      case (Inr r)
      then obtain ret1 s2 where r: "parseredirs (put_arg a ret) s1 = Inr (ret1, s2)" by (cases r) auto
      have "ch (skip_space (skip_space ps)) \<noteq> 0" using gettoken_kind [OF g] 3 by simp
      then have "length s1 < length (skip_space ps)" by (rule gettoken_le(2) [OF g])
      then have "length s2 < length ps" using parseredirs_le [OF r] skip_space_le [of ps] by linarith
      then show ?thesis using 3 False g r by (intro more [of a s1 ret1 s2]) (simp_all add: eq pk)
    qed
  qed
qed

lemma parseargs_good:
  assumes "parseargs argc ret s = Inr (c', p')" "good p s ret" "nargs ret = Some argc" "0 \<notin> set p"
  shows "good p p' c'"
  using assms
proof (induction s arbitrary: argc ret rule: length_induct)
  case (1 s)
  have sp: "suffix s p" using "1.prems"(2) by (simp add: good_def seg_def)
  show ?case
  proof (cases rule: parseargs_step [of s argc ret])
    case (stop p1)
    then show ?thesis using "1.prems" by (auto simp: good_def intro: seg_move)
  next
    case (more a s1 ret1 s2)
    have "0 \<notin> set (skip_space s)" using suffix_no0 [OF _ "1.prems"(4)] suffix_order.trans [OF skip_suffix sp] by blast
    then have "seg (skip_space s) s1 {a}" using gettoken_seg(2) [OF more(2)] by simp
    moreover have "good p (skip_space s) ret" using "1.prems"(2) by (simp add: good_def seg_skip)
    ultimately have "good p s1 (put_arg a ret) \<and> nargs (put_arg a ret) = Some (Suc argc)"
      using put_arg_good [OF "1.prems"(3) more(3)] by blast
    then have "good p s2 ret1 \<and> nargs ret1 = Some (Suc argc)" using parseredirs_good [OF more(4), of p] "1.prems"(4) by simp
    then show ?thesis using "1.IH" more(5,6) "1.prems"(1,4) by fastforce
  qed (use "1.prems" in simp)
qed

lemma parsebacks_good:
  assumes "parsebacks c s = (c', p')" "good p s c"
  shows "good p p' c'"
  using assms
proof (induction s arbitrary: c rule: length_induct)
  case (1 s)
  show ?case
  proof (cases "fst (peek s ''&'')")
    case False
    then show ?thesis using "1.prems" by (auto simp: parsebacks.simps [of c s] peek_F [OF False] good_def intro: seg_skip)
  next
    case True
    obtain k tk s1 where g: "gettoken (skip_space s) = (k, tk, s1)" by (metis prod_cases3)
    have "length s1 < length (skip_space s)" using gettoken_le(2) [OF g] True by (simp add: peek_simp)
    then have "length s1 < length s" using skip_space_le [of s] by linarith
    moreover have "good p s1 (BACK c)"
      using "1.prems"(2) seg_move [OF seg_skip gettoken_seg(1) [OF g]] by (simp add: good_def)
    moreover have "parsebacks (BACK c) s1 = (c', p')" using "1.prems"(1) g by (simp add: parsebacks.simps [of c s] peek_T [OF True])
    ultimately show ?thesis using "1.IH" by blast
  qed
qed

lemma andthen_Inr: "andthen m k = Some (Inr y) \<longleftrightarrow> (\<exists>x p. m = Some (Inr (x, p)) \<and> k x p = Some (Inr y))"
  by (auto simp: andthen_def split: option.split sum.split)

lemma andthen_None: "andthen m k = None \<longleftrightarrow> m = None \<or> (\<exists>x p. m = Some (Inr (x, p)) \<and> k x p = None)"
  by (auto simp: andthen_def split: option.split sum.split)

lemma good_seq:
  assumes "good p p1 l" "suffix p2 p1" "good p2 p3 r"
  shows "cmd_ok l \<and> cmd_ok r \<and> seg p p3 (toks l \<union> toks r)"
  using assms seg_join [OF seg_move [of p p1 "toks l" p2]] by (simp add: good_def)

lemma good_suffix: "good p p1 c \<Longrightarrow> suffix p1 p"
  by (simp add: good_def seg_def)

lemma good_pre: "suffix p1 p \<Longrightarrow> good p1 p2 c \<Longrightarrow> good p p2 c"
  using seg_join [of p p1 "{}" p2 "toks c"] by (simp add: good_def seg_none)

lemma next_pointer: "gettoken (skip_space p) = (k, tk, p') \<Longrightarrow> suffix p' p"
  using gettoken_seg(1) suffix_order.trans [OF _ skip_suffix] by blast

text \<open>Whatever the parser accepts is well formed and its words lie in the line.\<close>

lemma parser_good:
  "(\<forall>p c p'. 0 \<notin> set p \<longrightarrow> parseline n p = Some (Inr (c, p')) \<longrightarrow> good p p' c) \<and>
   (\<forall>p c p'. 0 \<notin> set p \<longrightarrow> parsepipe n p = Some (Inr (c, p')) \<longrightarrow> good p p' c) \<and>
   (\<forall>p c p'. 0 \<notin> set p \<longrightarrow> parseexec n p = Some (Inr (c, p')) \<longrightarrow> good p p' c) \<and>
   (\<forall>p c p'. 0 \<notin> set p \<longrightarrow> parseblock n p = Some (Inr (c, p')) \<longrightarrow> good p p' c)"
proof (induction n)
  case (Suc n)
  have line: "good p p' c" if z: "0 \<notin> set p" and r: "parseline (Suc n) p = Some (Inr (c, p'))" for p c p'
  proof -
    obtain c1 p1 where 1: "parsepipe n p = Some (Inr (c1, p1))" using r by (auto simp: andthen_Inr)
    obtain c2 p2 where 2: "parsebacks c1 p1 = (c2, p2)" by fastforce
    have g2: "good p p2 c2" using parsebacks_good [OF 2] Suc.IH z 1 by blast
    obtain k tk p3 where 3: "gettoken (skip_space p2) = (k, tk, p3)" by (metis prod_cases3)
    show ?thesis
    proof (cases "fst (peek p2 '';'')")
      case False
      then show ?thesis using r 1 2 g2 by (auto simp: andthen_def peek_F [OF False] good_def seg_skip)
    next
      case True
      then obtain r4 where 4: "parseline n p3 = Some (Inr (r4, p'))" "c = LIST c2 r4"
        using r 1 2 3 by (auto simp: andthen_Inr peek_T [OF True])
      have "0 \<notin> set p3" using suffix_no0 [OF suffix_order.trans [OF next_pointer [OF 3] good_suffix [OF g2]] z] .
      then have "good p3 p' r4" using Suc.IH 4(1) by blast
      then show ?thesis using good_seq [OF g2 next_pointer [OF 3]] 4(2) by (simp add: good_def)
    qed
  qed
  have pipe: "good p p' c" if z: "0 \<notin> set p" and r: "parsepipe (Suc n) p = Some (Inr (c, p'))" for p c p'
  proof -
    obtain c1 p1 where 1: "parseexec n p = Some (Inr (c1, p1))" using r by (auto simp: andthen_Inr)
    have g1: "good p p1 c1" using Suc.IH z 1 by blast
    obtain k tk p3 where 3: "gettoken (skip_space p1) = (k, tk, p3)" by (metis prod_cases3)
    show ?thesis
    proof (cases "fst (peek p1 ''|'')")
      case False
      then show ?thesis using r 1 g1 by (auto simp: andthen_def peek_F [OF False] good_def seg_skip)
    next
      case True
      then obtain r4 where 4: "parsepipe n p3 = Some (Inr (r4, p'))" "c = PIPE c1 r4"
        using r 1 3 by (auto simp: andthen_Inr peek_T [OF True])
      have "0 \<notin> set p3" using suffix_no0 [OF suffix_order.trans [OF next_pointer [OF 3] good_suffix [OF g1]] z] .
      then have "good p3 p' r4" using Suc.IH 4(1) by blast
      then show ?thesis using good_seq [OF g1 next_pointer [OF 3]] 4(2) by (simp add: good_def)
    qed
  qed
  have exec: "good p p' c" if z: "0 \<notin> set p" and r: "parseexec (Suc n) p = Some (Inr (c, p'))" for p c p'
  proof (cases "fst (peek p ''('')")
    case True
    have "0 \<notin> set (skip_space p)" by (rule suffix_no0 [OF skip_suffix z])
    moreover have "parseblock n (skip_space p) = Some (Inr (c, p'))" using r by (simp add: peek_T [OF True])
    ultimately have "good (skip_space p) p' c" using Suc.IH by blast
    then show ?thesis by (rule good_pre [OF skip_suffix])
  next
    case False
    then obtain r1 p1 where 1: "parseredirs (EXEC []) (skip_space p) = Inr (r1, p1)" "parseargs 0 r1 p1 = Inr (c, p')"
      using r by (auto simp: andthen_Inr peek_F [OF False])
    have "good p (skip_space p) (EXEC [])" by (simp add: good_def seg_none MAXARGS_def)
    then have "good p p1 r1 \<and> nargs r1 = Some 0" using parseredirs_good [OF 1(1) _ z] by simp
    then show ?thesis using parseargs_good [OF 1(2) _ _ z] by blast
  qed
  have block: "good p p' c" if z: "0 \<notin> set p" and r: "parseblock (Suc n) p = Some (Inr (c, p'))" for p c p'
  proof -
    have o: "fst (peek p ''('')" using r peek_F [of p "''(''"] by (cases "fst (peek p ''('')") (simp_all add: shpanic_def)
    obtain k tk p1 where 1: "gettoken (skip_space p) = (k, tk, p1)" by (metis prod_cases3)
    obtain c2 p2 where 2: "parseline n p1 = Some (Inr (c2, p2))" using r 1 by (auto simp: andthen_Inr peek_T [OF o])
    have z1: "0 \<notin> set p1" by (rule suffix_no0 [OF next_pointer [OF 1] z])
    have g2: "good p1 p2 c2" using Suc.IH z1 2 by blast
    obtain k' tk' p4 where 4: "gettoken (skip_space p2) = (k', tk', p4)" by (metis prod_cases3)
    have e: "fst (peek p2 '')'')" using r 1 2 peek_F [of p2 "'')''"] by (cases "fst (peek p2 '')'')") (simp_all add: andthen_def peek_T [OF o] shpanic_def)
    have "parseredirs c2 p4 = Inr (c, p')" using r 1 2 4 by (simp add: andthen_def peek_T [OF o] peek_T [OF e])
    moreover have "good p1 p4 c2" using g2 seg_move [OF _ next_pointer [OF 4]] by (simp add: good_def)
    ultimately have "good p1 p' c" using parseredirs_good z1 by blast
    then show ?thesis by (rule good_pre [OF next_pointer [OF 1]])
  qed
  show ?case using line pipe exec block by blast
qed simp

text \<open>The parser returns: four levels of calls for each open parenthesis are enough.\<close>

lemma parser_total:
  "(\<forall>p. 0 \<notin> set p \<longrightarrow> 4 * length p + 4 \<le> n \<longrightarrow> parseline n p \<noteq> None) \<and>
   (\<forall>p. 0 \<notin> set p \<longrightarrow> 4 * length p + 3 \<le> n \<longrightarrow> parsepipe n p \<noteq> None) \<and>
   (\<forall>p. 0 \<notin> set p \<longrightarrow> 4 * length p + 2 \<le> n \<longrightarrow> parseexec n p \<noteq> None) \<and>
   (\<forall>p. 0 \<notin> set p \<longrightarrow> 4 * length p + 1 \<le> n \<longrightarrow> parseblock n p \<noteq> None)"
proof (induction n)
  case (Suc n)
  have rest: "0 \<notin> set p' \<and> length p' < length p" if "0 \<notin> set p" "suffix p1 p" "fst (peek p1 t)" "gettoken (skip_space p1) = (k, tk, p')" for p p1 p' t k tk
  proof -
    have "length p' < length (skip_space p1)" using gettoken_le(2) [OF that(4)] that(3) by (simp add: peek_simp)
    then show ?thesis using suffix_no0 [OF suffix_order.trans [OF next_pointer [OF that(4)] that(2)] that(1)]
        skip_space_le [of p1] suffix_length_le [OF that(2)] by linarith
  qed
  have line: "parseline (Suc n) p \<noteq> None" if z: "0 \<notin> set p" "4 * length p + 4 \<le> Suc n" for p
  proof
    assume "parseline (Suc n) p = None"
    moreover have "parsepipe n p \<noteq> None" using Suc.IH z by simp
    ultimately obtain c1 p1 c2 p2 k tk p3 where r: "parsepipe n p = Some (Inr (c1, p1))" "parsebacks c1 p1 = (c2, p2)"
      "fst (peek p2 '';'')" "gettoken (skip_space p2) = (k, tk, p3)" "parseline n p3 = None"
      by (auto simp: andthen_None Let_def case_prod_beta peek_simp split: if_splits) (metis prod.collapse)
    have "good p p2 c2" using parsebacks_good [OF r(2)] parser_good [of n] r(1) z(1) by blast
    then have "0 \<notin> set p3 \<and> length p3 < length p" using rest [OF z(1) good_suffix r(3,4)] by blast
    then have "parseline n p3 \<noteq> None" using Suc.IH z(2) by simp
    then show False using r(5) by simp
  qed
  have pipe: "parsepipe (Suc n) p \<noteq> None" if z: "0 \<notin> set p" "4 * length p + 3 \<le> Suc n" for p
  proof
    assume "parsepipe (Suc n) p = None"
    moreover have "parseexec n p \<noteq> None" using Suc.IH z by simp
    ultimately obtain c1 p1 k tk p3 where r: "parseexec n p = Some (Inr (c1, p1))"
      "fst (peek p1 ''|'')" "gettoken (skip_space p1) = (k, tk, p3)" "parsepipe n p3 = None"
      by (auto simp: andthen_None Let_def case_prod_beta peek_simp split: if_splits) (metis prod.collapse)
    have "good p p1 c1" using parser_good [of n] r(1) z(1) by blast
    then have "0 \<notin> set p3 \<and> length p3 < length p" using rest [OF z(1) good_suffix r(2,3)] by blast
    then have "parsepipe n p3 \<noteq> None" using Suc.IH z(2) by simp
    then show False using r(4) by simp
  qed
  have exec: "parseexec (Suc n) p \<noteq> None" if z: "0 \<notin> set p" "4 * length p + 2 \<le> Suc n" for p
  proof -
    have "0 \<notin> set (skip_space p)" by (rule suffix_no0 [OF skip_suffix z(1)])
    then have "parseblock n (skip_space p) \<noteq> None" using Suc.IH z(2) skip_space_le [of p] by simp
    then show ?thesis by (auto simp: andthen_def peek_simp split: sum.split)
  qed
  have block: "parseblock (Suc n) p \<noteq> None" if z: "0 \<notin> set p" "4 * length p + 1 \<le> Suc n" for p
  proof (cases "fst (peek p ''('')")
    case True
    obtain k tk p1 where 1: "gettoken (skip_space p) = (k, tk, p1)" by (metis prod_cases3)
    have "0 \<notin> set p1 \<and> length p1 < length p" using rest [OF z(1) _ True 1] by simp
    then have "parseline n p1 \<noteq> None" using Suc.IH z(2) by simp
    then show ?thesis using 1 by (auto simp: andthen_None peek_T [OF True] Let_def case_prod_beta)
  qed (simp add: peek_F)
  show ?case using line pipe exec block by blast
qed simp

text \<open>What nulterminate writes.\<close>

lemma length_nulterminate [simp]: "length (nulterminate n c line) = length line"
proof -
  have "length (fold (\<lambda>(q, eq). put_nul n eq) ts line) = length line" for ts line
    by (induction ts arbitrary: line) (auto simp: put_nul_def)
  then show ?thesis by (induction n c line rule: nulterminate.induct) (auto simp: put_nul_def)
qed

lemma nth_nul_args:
  "i < length line \<Longrightarrow> fold (\<lambda>(q, eq). put_nul n eq) ts line ! i = (if \<exists>a\<in>set ts. i = n - length (snd a) then 0 else line ! i)"
  by (induction ts arbitrary: line) (force simp: put_nul_def nth_list_update)+

lemma nth_nulterminate:
  "i < length line \<Longrightarrow> nulterminate n c line ! i = (if \<exists>a\<in>toks c. i = n - length (snd a) then 0 else line ! i)"
proof (induction c arbitrary: line)
  case (REDIR c f m d)
  obtain q eq where f: "f = (q, eq)" by fastforce
  show ?case
  proof (cases "i = n - length eq")
    case True
    then show ?thesis using REDIR.prems by (simp add: f put_nul_def)
  next
    case False
    then show ?thesis using REDIR by (simp add: f put_nul_def)
  qed
next
  case (PIPE l r)
  then show ?case by (simp add: bex_Un)
next
  case (LIST l r)
  then show ?case by (simp add: bex_Un)
qed (simp_all add: nth_nul_args)

text \<open>The text of a token, and the C string at a pointer into the line.\<close>

definition tok_text :: "token \<Rightarrow> byte list" where
  "tok_text a = take (length (fst a) - length (snd a)) (fst a)"

definition string_at :: "nat \<Rightarrow> ptr \<Rightarrow> byte list \<Rightarrow> byte list" where
  "string_at n p line = cstr (drop (n - length p) line)"

lemma suffix_drop: "suffix q s \<Longrightarrow> drop (length s - length q) s = q"
  by (auto simp: suffix_def)

lemma cstr_stop: "0 \<notin> set w \<Longrightarrow> cstr (w @ 0 # r) = w"
  by (induction w) auto

text \<open>No token ends inside a word.\<close>

lemma word_uncut:
  assumes "seg s p T" "(w @ eq, eq) \<in> T" "b \<in> T" "i < length w"
  shows "length (snd b) \<noteq> length eq + length w - i"
proof
  assume i: "length (snd b) = length eq + length w - i"
  let ?a = "(w @ eq, eq)"
  have s: "suffix (w @ eq) s" "word_ok w" using assms(1,2) by (auto simp: seg_def token_ok_def)
  have b: "suffix (fst b) s" "token_ok b" "apart ?a b" using assms(1-3) by (auto simp: seg_def)
  have sb: "suffix (snd b) (fst b)" "length (snd b) < length (fst b)" using b(2) by (auto simp: token_ok_def word_ok_def suffix_def)
  have "\<not> length (fst b) \<le> length eq" "?a \<noteq> b" using i sb(2) assms(4) by auto
  then have "length (w @ eq) \<le> length (snd b)" using b(3) by (simp add: apart_def)
  then have "length (snd b) = length (w @ eq)" using i assms(4) by simp
  moreover have "suffix (snd b) s" using sb(1) b(1) suffix_order.trans by blast
  ultimately have "snd b = w @ eq" using suffix_drop [of "snd b" s] suffix_drop [OF s(1)] by metis
  then show False using b(2) s(2) by (cases w) (auto simp: token_ok_def word_ok_def)
qed

lemma word_at:
  assumes "seg s p (toks c)" "a \<in> toks c" "s = take n line" "n < length line"
  shows "string_at n (fst a) (nulterminate n c line) = tok_text a \<and> word_ok (tok_text a)"
proof -
  obtain w eq where w: "a = (w @ eq, eq)" "word_ok w" "suffix (w @ eq) s"
    using assms(1,2) by (cases a) (auto simp: seg_def token_ok_def)
  let ?k = "n - length (w @ eq)" and ?l = "nulterminate n c line"
  have n: "length s = n" "length (w @ eq) \<le> n" using assms(3,4) suffix_length_le [OF w(3)] by auto
  have e: "n - length eq = ?k + length w" using n(2) by simp
  have byte: "?l ! (?k + i) = w ! i" if i: "i < length w" for i
  proof -
    have "?k + i \<noteq> n - length (snd b)" if b: "b \<in> toks c" for b
    proof -
      have "suffix (fst b) s" "length (snd b) \<le> length (fst b)" using assms(1) b by (auto simp: seg_def token_ok_def)
      then have "length (snd b) \<le> n" using suffix_length_le [of "fst b" s] n(1) by linarith
      then show ?thesis using word_uncut [OF assms(1) _ b i, of eq] assms(2) w(1) n(2) i by auto
    qed
    moreover have "line ! (?k + i) = s ! (?k + i)" using i assms(3) n e by simp
    moreover have "s ! (?k + i) = w ! i"
    proof -
      have "drop ?k s = w @ eq" using suffix_drop [OF w(3)] n by simp
      moreover have "drop ?k s ! i = s ! (?k + i)" by (rule nth_drop) (use n in simp)
      ultimately show ?thesis using i by (metis nth_append)
    qed
    moreover have "?k + i < length line" using i n e assms(4) by linarith
    ultimately show ?thesis using nth_nulterminate [of "?k + i" line n c] by auto
  qed
  have z: "?l ! (?k + length w) = 0" using nth_nulterminate [of "n - length eq" line n c] assms(2,4) e w(1) by force
  have l: "?k + length w < length ?l" using e assms(4) by simp
  have "take (length w) (drop ?k ?l) = w" using byte l by (intro nth_equalityI) auto
  moreover have "drop (length w) (drop ?k ?l) = 0 # drop (Suc (?k + length w)) ?l"
    using z Cons_nth_drop_Suc [OF l] by (simp add: add.commute)
  ultimately have "drop ?k ?l = w @ 0 # drop (Suc (?k + length w)) ?l" by (metis append_take_drop_id)
  moreover have "0 \<notin> set w" using w(2) by (auto simp: word_ok_def)
  ultimately have "string_at n (w @ eq) ?l = w" using cstr_stop by (simp add: string_at_def)
  then show ?thesis using w(1,2) by (simp add: tok_text_def)
qed

lemma take_strlen: "take (strlen line) line = cstr line" "0 \<in> set line \<Longrightarrow> strlen line < length line"
proof -
  have "strlen line = length (cstr line)" by (rule strlen_cstr)
  moreover have "cstr line @ dropWhile (\<lambda>c. c \<noteq> 0) line = line" by (simp add: cstr_def)
  ultimately show "take (strlen line) line = cstr line" by (metis append_eq_conv_conj)
  assume "0 \<in> set line"
  then show "strlen line < length line" unfolding strlen_cstr by (induction line) auto
qed

text \<open>
  C32: parsing a line always ends. For any buffer that holds a NUL-terminated string, the parser prints an error and
  exits, or returns a command in which every program has fewer than MAXARGS arguments, so that argv stays within its
  array and ends in a null pointer, and every redirection opens its file for reading as descriptor 0 or for writing as
  descriptor 1. After nulterminate each argument and file name, read as a C string in the changed buffer, is exactly
  the text of its token: a nonempty word without blanks or symbols, not cut short by the end of another token.
\<close>

theorem parsecmd_returns:
  assumes "0 \<in> set line"
  shows "(\<exists>e. parsecmd line = Some (Inl e)) \<or>
    (\<exists>c buf. parsecmd line = Some (Inr (c, buf)) \<and> cmd_ok c \<and> length buf = length line \<and>
       (\<forall>a\<in>toks c. suffix (fst a) (cstr line) \<and> word_ok (tok_text a) \<and> string_at (strlen line) (fst a) buf = tok_text a))"
proof -
  let ?s = "cstr line" and ?n = "strlen line"
  have z: "0 \<notin> set ?s" by (auto simp: cstr_def dest: set_takeWhileD)
  have "length ?s = ?n" by (simp add: strlen_cstr)
  then have "parseline (4 * ?n + 4) ?s \<noteq> None" using parser_total [of "4 * ?n + 4"] z by simp
  then obtain r where r: "parseline (4 * ?n + 4) ?s = Some r" by blast
  show ?thesis
  proof (cases r)
    case (Inl e)
    then show ?thesis using r by (simp add: parsecmd_def take_strlen(1))
  next
    case (Inr cp)
    then obtain c p where c: "parseline (4 * ?n + 4) ?s = Some (Inr (c, p))" using r by (cases cp) auto
    have g: "good ?s p c" using parser_good [of "4 * ?n + 4"] z c by blast
    have "?s = take ?n line" by (simp add: take_strlen(1))
    then have w: "\<forall>a\<in>toks c. suffix (fst a) ?s \<and> word_ok (tok_text a) \<and> string_at ?n (fst a) (nulterminate ?n c line) = tok_text a"
      using word_at [of ?s p c _ ?n line] g take_strlen(2) [OF assms] by (auto simp: good_def seg_def)
    show ?thesis
    proof (cases "skip_space p = []")
      case True
      then have "parsecmd line = Some (Inr (c, nulterminate ?n c line))" using c by (simp add: parsecmd_def take_strlen(1) peek_simp)
      then show ?thesis using w g by (auto simp: good_def)
    next
      case False
      then show ?thesis using c by (simp add: parsecmd_def take_strlen(1) peek_simp)
    qed
  qed
qed

theorem parsecmd_returns_witness:
  "0 \<in> set (str ''( a; b)| c>f'' @ [0]) \<and>
   ((\<exists>e. parsecmd (str ''( a; b)| c>f'' @ [0]) = Some (Inl e)) \<or>
    (\<exists>c buf. parsecmd (str ''( a; b)| c>f'' @ [0]) = Some (Inr (c, buf)) \<and> cmd_ok c))"
  using parsecmd_returns [of "str ''( a; b)| c>f'' @ [0]"] by auto

end
