(* ===== verification/Sh_Print.thy ===== *)
theory Sh_Print
  imports Sh
begin

text \<open>
  The grammar of the shell seen from the other side: a printer of command trees, with parentheses where the grammar
  needs them, and the proof that the parser reads back what it prints.
\<close>

datatype scmd =
    SExec "byte list list"
  | SRedir scmd "byte list" uint nat
  | SPipe scmd scmd
  | SList scmd scmd
  | SBack scmd

fun texts :: "cmd \<Rightarrow> scmd" where
  "texts (EXEC ts) = SExec (map tok_text ts)"
| "texts (REDIR c f m d) = SRedir (texts c) (tok_text f) m d"
| "texts (PIPE l r) = SPipe (texts l) (texts r)"
| "texts (LIST l r) = SList (texts l) (texts r)"
| "texts (BACK c) = SBack (texts c)"

fun scmd_ok :: "scmd \<Rightarrow> bool" where
  "scmd_ok (SExec ws) \<longleftrightarrow> length ws < MAXARGS \<and> (\<forall>w\<in>set ws. word_ok w)"
| "scmd_ok (SRedir c f m d) \<longleftrightarrow> scmd_ok c \<and> word_ok f \<and> (m, d) \<in> {(0, 0), (0x201, 1)}"
| "scmd_ok (SPipe l r) \<longleftrightarrow> scmd_ok l \<and> scmd_ok r"
| "scmd_ok (SList l r) \<longleftrightarrow> scmd_ok l \<and> scmd_ok r"
| "scmd_ok (SBack c) \<longleftrightarrow> scmd_ok c"

abbreviation sy :: "char \<Rightarrow> byte" where "sy c \<equiv> of_char c"

definition paren :: "bool \<Rightarrow> byte list \<Rightarrow> byte list" where
  "paren b s = (if b then sy CHR ''('' # s @ [sy CHR '')''] else s)"

definition redir_text :: "byte list \<times> uint \<times> nat \<Rightarrow> byte list" where
  "redir_text = (\<lambda>(f, m, d). (if d = 0 then sy CHR ''<'' else sy CHR ''>'') # f)"

definition words_text :: "byte list list \<Rightarrow> byte list" where
  "words_text ws = concat (map (\<lambda>w. 0x20 # w) ws)"

text \<open>The levels are those of parseline, of its loop, of parsepipe and of parseexec.\<close>

fun show_cmd :: "nat \<Rightarrow> scmd \<Rightarrow> byte list" where
  "show_cmd p (SExec ws) = words_text ws"
| "show_cmd p (SRedir c f m d) = show_cmd 3 c @ redir_text (f, m, d)"
| "show_cmd p (SPipe l r) = paren (2 < p) (show_cmd 3 l @ sy CHR ''|'' # show_cmd 2 r)"
| "show_cmd p (SList l r) = paren (0 < p) (show_cmd 1 l @ sy CHR '';'' # show_cmd 0 r)"
| "show_cmd p (SBack c) = paren (1 < p) (show_cmd 1 c @ [sy CHR ''&''])"

subsection \<open>Tokens\<close>

lemma strchr_str: "strchr (str cs) c \<noteq> None \<longleftrightarrow> c \<in> set (takeWhile (\<lambda>x. x \<noteq> 0) (str cs))"
proof -
  have "strchr xs c \<noteq> None \<longleftrightarrow> c \<in> set (takeWhile (\<lambda>x. x \<noteq> 0) xs)" for xs by (induction xs) auto
  then show ?thesis .
qed

lemma is_space_iff: "is_space c \<longleftrightarrow> c \<in> {0x20, 0x09, 0x0D, 0x0A, 0x0B}"
  by (simp add: is_space_def whitespace_def)

lemma is_symbol_iff: "is_symbol c \<longleftrightarrow> c \<in> {0x3C, 0x7C, 0x3E, 0x26, 0x3B, 0x28, 0x29}"
  by (simp add: is_symbol_def symbols_def str_def)

lemma skip_cons: "\<not> is_space c \<Longrightarrow> skip_space (c # r) = c # r"
  by (simp add: skip_space_def)

lemma skip_blank: "skip_space (0x20 # r) = skip_space r"
  by (simp add: skip_space_def is_space_iff)

lemma skip_word: "word_ok w \<Longrightarrow> skip_space (w @ r) = w @ r"
  by (cases w) (simp_all add: word_ok_def skip_cons)

lemma gettoken_symbol:
  "c \<in> {0x7C, 0x28, 0x29, 0x3B, 0x26, 0x3C} \<Longrightarrow> gettoken (c # r) = (c, (c # r, r), skip_space r)"
  by (auto simp: gettoken_def skip_cons is_space_iff str_def)

lemma gettoken_gt: "ch r \<noteq> 0x3E \<Longrightarrow> gettoken (0x3E # r) = (0x3E, (0x3E # r, r), skip_space r)"
  by (simp add: gettoken_def skip_cons is_space_iff str_def)

definition word_end :: "ptr \<Rightarrow> bool" where
  "word_end r \<longleftrightarrow> r = [] \<or> is_space (hd r) \<or> is_symbol (hd r)"

lemma gettoken_word:
  assumes "word_ok w" "word_end r"
  shows "gettoken (w @ r) = (0x61, (w @ r, r), skip_space r)"
proof -
  obtain c w' where w: "w = c # w'" using assms(1) by (cases w) (auto simp: word_ok_def)
  have c: "c \<noteq> 0" "\<not> is_space c" "\<not> is_symbol c" using assms(1) w by (auto simp: word_ok_def)
  have "dropWhile (\<lambda>d. \<not> is_space d \<and> \<not> is_symbol d) (w @ r) = r"
    using assms by (subst dropWhile_append2) (auto simp: word_ok_def word_end_def intro: dropWhile_eq_self_iff [THEN iffD2])
  then show ?thesis using c skip_word [OF assms(1), of r] by (simp add: gettoken_def w str_def is_symbol_iff)
qed

lemma tok_text_word: "tok_text (w @ r, r) = w"
  by (simp add: tok_text_def)

text \<open>What may follow a command at each level.\<close>

definition stop_at :: "byte set \<Rightarrow> ptr \<Rightarrow> bool" where
  "stop_at C r \<longleftrightarrow> r = [] \<or> (\<exists>c r'. r = c # r' \<and> c \<in> C)"

lemma stop_end: "stop_at {0x7C, 0x29, 0x26, 0x3B} r \<Longrightarrow> word_end r \<and> skip_space r = r"
  by (auto simp: stop_at_def word_end_def is_symbol_iff is_space_iff skip_space_def)

lemma word_first: "word_ok w \<Longrightarrow> \<exists>c w'. w = c # w' \<and> c \<noteq> 0 \<and> \<not> is_space c \<and> \<not> is_symbol c"
  by (cases w) (auto simp: word_ok_def)

subsection \<open>The loops\<close>

lemma parseredirs_skip: "parseredirs c (skip_space p) = parseredirs c p"
  by (subst (1 2) parseredirs.simps) (simp add: peek_simp)

lemma parseargs_skip: "parseargs n c (skip_space p) = parseargs n c p"
  by (subst (1 2) parseargs.simps) (simp add: peek_simp)

lemma parser_skip:
  "parseexec n (skip_space p) = parseexec n p" "parsepipe n (skip_space p) = parsepipe n p" "parseline n (skip_space p) = parseline n p"
proof -
  show e: "parseexec n (skip_space p) = parseexec n p" for n by (cases n) (simp_all add: peek_simp)
  show q: "parsepipe n (skip_space p) = parsepipe n p" for n by (cases n) (simp_all add: e)
  show "parseline n (skip_space p) = parseline n p" by (cases n) (simp_all add: q)
qed

definition redirs_text :: "(byte list \<times> uint \<times> nat) list \<Rightarrow> byte list" where
  "redirs_text rs = concat (map redir_text rs)"

definition wrap :: "scmd \<Rightarrow> (byte list \<times> uint \<times> nat) list \<Rightarrow> scmd" where
  "wrap = foldl (\<lambda>c (f, m, d). SRedir c f m d)"

definition redirs_ok :: "(byte list \<times> uint \<times> nat) list \<Rightarrow> bool" where
  "redirs_ok rs \<longleftrightarrow> (\<forall>(f, m, d)\<in>set rs. word_ok f \<and> (m, d) \<in> {(0, 0), (0x201, 1)})"

abbreviation stop_exec :: "ptr \<Rightarrow> bool" where
  "stop_exec \<equiv> stop_at {0x7C, 0x29, 0x26, 0x3B}"

lemma redirs_end: "stop_exec rest \<Longrightarrow> word_end (redirs_text rs @ rest) \<and> skip_space (redirs_text rs @ rest) = redirs_text rs @ rest"
  by (cases rs) (auto simp: redirs_text_def redir_text_def word_end_def is_symbol_iff is_space_iff skip_cons stop_end split: prod.splits dest: stop_end)

lemma parseredirs_text:
  assumes "redirs_ok rs" "stop_exec rest"
  shows "\<exists>c'. parseredirs c (redirs_text rs @ rest) = Inr (c', rest) \<and> texts c' = wrap (texts c) rs \<and> nargs c' = nargs c"
  using assms(1)
proof (induction rs arbitrary: c)
  case Nil
  have "\<not> fst (peek rest ''<>'')" using assms(2) stop_end [OF assms(2)] by (auto simp: peek_simp stop_at_def str_def)
  then show ?case using stop_end [OF assms(2)] by (simp add: parseredirs.simps [of c rest] peek_F redirs_text_def wrap_def)
next
  case (Cons x rs)
  obtain f m d where x: "x = (f, m, d)" by (metis prod_cases3)
  have f: "word_ok f" "(m, d) \<in> {(0, 0), (0x201, 1)}" "redirs_ok rs" using Cons.prems by (auto simp: redirs_ok_def x)
  let ?r = "redirs_text rs @ rest" and ?k = "if d = 0 then 0x3C else 0x3E :: byte"
  obtain a f' where a: "f = a # f'" "a \<noteq> 0" "\<not> is_space a" "\<not> is_symbol a" using word_first [OF f(1)] by blast
  have t: "redirs_text (x # rs) @ rest = ?k # f @ ?r" by (simp add: redirs_text_def redir_text_def x)
  have s: "skip_space (?k # f @ ?r) = ?k # f @ ?r" by (simp add: skip_cons is_space_iff)
  then have pk: "peek (?k # f @ ?r) ''<>'' = (True, ?k # f @ ?r)" by (simp add: peek_simp str_def)
  have g1: "gettoken (?k # f @ ?r) = (?k, (?k # f @ ?r, f @ ?r), f @ ?r)"
    using gettoken_symbol [of "0x3C" "f @ ?r"] gettoken_gt [of "f @ ?r"] skip_word [OF f(1), of ?r] a by (auto simp: is_symbol_iff)
  have g2: "gettoken (f @ ?r) = (0x61, (f @ ?r, ?r), ?r)" using gettoken_word [OF f(1)] redirs_end [OF assms(2)] by simp
  have "redir_of ?k c (f @ ?r, ?r) = REDIR c (f @ ?r, ?r) m d" using f(2) by (auto simp: redir_of_def)
  then have "parseredirs c (?k # f @ ?r) = parseredirs (REDIR c (f @ ?r, ?r) m d) ?r"
    using pk g1 g2 by (simp add: parseredirs.simps [of c "?k # f @ ?r"])
  then show ?case using Cons.IH [OF f(3), of "REDIR c (f @ ?r, ?r) m d"] unfolding t by (simp add: tok_text_word wrap_def x)
qed

fun add_args :: "scmd \<Rightarrow> byte list list \<Rightarrow> scmd" where
  "add_args (SExec vs) ws = SExec (vs @ ws)"
| "add_args (SRedir c f m d) ws = SRedir (add_args c ws) f m d"
| "add_args c ws = c"

lemma put_arg_texts: "nargs c = Some n \<Longrightarrow> texts (put_arg a c) = add_args (texts c) [tok_text a] \<and> nargs (put_arg a c) = Some (Suc n)"
  by (induction a c rule: put_arg.induct) auto

lemma add_args_add: "add_args (add_args c vs) ws = add_args c (vs @ ws)" "add_args c [] = c"
  by (induction c vs rule: add_args.induct) auto

lemma parseargs_stop:
  assumes "stop_exec rest"
  shows "parseargs k c rest = Inr (c, rest)"
proof (cases rest)
  case Nil
  then show ?thesis by (simp add: parseargs.simps [of k c] peek_simp skip_space_def gettoken_def)
next
  case (Cons x r')
  then have "peek rest ''|)&;'' = (True, rest)" using assms stop_end [OF assms] by (auto simp: peek_simp stop_at_def str_def)
  then show ?thesis by (simp add: parseargs.simps [of k c])
qed

lemma parseredirs_word:
  assumes "word_ok v"
  shows "parseredirs c (0x20 # v @ r) = Inr (c, v @ r)"
proof -
  obtain b v' where "v = b # v'" "b \<noteq> 0" "\<not> is_space b" "\<not> is_symbol b" using word_first [OF assms] by blast
  then have "peek (0x20 # v @ r) ''<>'' = (False, v @ r)" using skip_word [OF assms, of r] by (auto simp: peek_simp skip_blank str_def is_symbol_iff)
  then show ?thesis by (simp add: parseredirs.simps [of c])
qed

lemma parseargs_text:
  assumes "\<forall>w\<in>set ws. word_ok w" "redirs_ok rs" "stop_exec rest" "nargs c = Some k" "k + length ws < MAXARGS" "ws = [] \<longrightarrow> rs = []"
  shows "\<exists>c'. parseargs k c (words_text ws @ redirs_text rs @ rest) = Inr (c', rest) \<and> texts c' = wrap (add_args (texts c) ws) rs"
  using assms(1,4-)
proof (induction ws arbitrary: c k)
  case Nil
  then show ?case using parseargs_stop [OF assms(3)] by (simp add: words_text_def redirs_text_def wrap_def add_args_add)
next
  case (Cons w ws)
  have w: "word_ok w" using Cons.prems(1) by simp
  obtain b w' where b: "w = b # w'" "b \<noteq> 0" "\<not> is_space b" "\<not> is_symbol b" using word_first [OF w] by blast
  let ?t = "words_text ws @ redirs_text rs @ rest"
  have t: "skip_space (words_text (w # ws) @ redirs_text rs @ rest) = w @ ?t" using skip_word [OF w] by (simp add: words_text_def skip_blank)
  have "word_end ?t" using redirs_end [OF assms(3), of rs] by (cases ws) (auto simp: words_text_def word_end_def is_space_iff)
  then have g: "gettoken (w @ ?t) = (0x61, (w @ ?t, ?t), skip_space ?t)" by (rule gettoken_word [OF w])
  have pk: "peek (w @ ?t) ''|)&;'' = (False, w @ ?t)" using b skip_word [OF w] by (auto simp: peek_simp str_def is_symbol_iff)
  let ?c = "put_arg (w @ ?t, ?t) c"
  have c: "texts ?c = add_args (texts c) [w]" "nargs ?c = Some (Suc k)" using put_arg_texts [OF Cons.prems(2)] by (simp_all add: tok_text_word)
  have r: "parseargs k c (w @ ?t) = (case parseredirs ?c ?t of Inl e \<Rightarrow> Inl e | Inr (c1, p) \<Rightarrow> parseargs (k + 1) c1 p)"
    using pk g Cons.prems(3) by (simp add: parseargs.simps [of k c] parseredirs_skip)
  have "\<exists>c'. parseargs k c (w @ ?t) = Inr (c', rest) \<and> texts c' = wrap (add_args (texts c) (w # ws)) rs"
  proof (cases ws)
    case Nil
    then obtain c1 where c1: "parseredirs ?c ?t = Inr (c1, rest)" "texts c1 = wrap (texts ?c) rs" "nargs c1 = Some (Suc k)"
      using parseredirs_text [OF assms(2,3), of ?c] c by (auto simp: words_text_def)
    then show ?thesis using r c Nil parseargs_stop [OF assms(3)] by auto
  next
    case (Cons v vs)
    then have v: "word_ok v" using Cons.prems(1) by simp
    have "?t = 0x20 # v @ words_text vs @ redirs_text rs @ rest" by (simp add: words_text_def \<open>ws = v # vs\<close>)
    then have "parseredirs ?c ?t = Inr (?c, skip_space ?t)" using parseredirs_word [OF v] skip_word [OF v] by (simp add: skip_blank)
    then have "parseargs k c (w @ ?t) = parseargs (Suc k) ?c ?t" using r by (simp add: parseargs_skip)
    moreover have "\<exists>c'. parseargs (Suc k) ?c ?t = Inr (c', rest) \<and> texts c' = wrap (add_args (texts ?c) ws) rs"
      by (rule Cons.IH) (use Cons.prems c \<open>ws = v # vs\<close> in auto)
    ultimately show ?thesis using c by (simp add: add_args_add)
  qed
  then show ?case using t by (metis parseargs_skip)
qed

subsection \<open>The recursive routines\<close>

definition reads_exec :: "scmd \<Rightarrow> bool" where
  "reads_exec c \<longleftrightarrow> (\<forall>n rs rest r. redirs_ok rs \<longrightarrow> stop_exec rest \<longrightarrow>
     parseexec n (show_cmd 3 c @ redirs_text rs @ rest) = Some r \<longrightarrow> (\<exists>c'. r = Inr (c', rest) \<and> texts c' = wrap c rs))"

definition reads_pipe :: "scmd \<Rightarrow> bool" where
  "reads_pipe c \<longleftrightarrow> (\<forall>n rest r. stop_at {0x29, 0x26, 0x3B} rest \<longrightarrow>
     parsepipe n (show_cmd 2 c @ rest) = Some r \<longrightarrow> (\<exists>c'. r = Inr (c', rest) \<and> texts c' = c))"

definition reads_back :: "scmd \<Rightarrow> bool" where
  "reads_back c \<longleftrightarrow> (\<forall>n rest r. stop_at {0x29, 0x26, 0x3B} rest \<longrightarrow>
     parsepipe n (show_cmd 1 c @ rest) = Some r \<longrightarrow>
     (\<exists>c1 p c'. r = Inr (c1, p) \<and> parsebacks c1 p = parsebacks c' rest \<and> texts c' = c))"

definition reads_line :: "scmd \<Rightarrow> bool" where
  "reads_line c \<longleftrightarrow> (\<forall>n rest r. stop_at {0x29} rest \<longrightarrow>
     parseline n (show_cmd 0 c @ rest) = Some r \<longrightarrow> (\<exists>c'. r = Inr (c', rest) \<and> texts c' = c))"

lemma stop_mono: "stop_at C r \<Longrightarrow> C \<subseteq> D \<Longrightarrow> stop_at D r"
  by (auto simp: stop_at_def)

lemma stop_cons: "c \<in> C \<Longrightarrow> stop_at C (c # r)"
  by (simp add: stop_at_def)

lemma stop_skip: "stop_at {0x29, 0x26, 0x3B} r \<Longrightarrow> skip_space r = r"
  using stop_end [OF stop_mono] by blast

lemma strchr_in: "strchr xs c = Some y \<Longrightarrow> c \<in> set xs"
  by (induction xs) (auto split: if_splits)

text \<open>At a stop, peek sees exactly the symbols it may see.\<close>

lemma peek_stop: "stop_at C r \<Longrightarrow> 0 \<notin> C \<Longrightarrow> C \<inter> set (str ts) = {} \<Longrightarrow> skip_space r = r \<Longrightarrow> peek r ts = (False, r)"
  by (cases r) (auto simp: peek_simp stop_at_def dest!: strchr_in)

lemma peek_hit:
  "peek (0x7C # r) ''|'' = (True, 0x7C # r)" "peek (0x28 # r) ''('' = (True, 0x28 # r)" "peek (0x29 # r) '')'' = (True, 0x29 # r)"
  "peek (0x3B # r) '';'' = (True, 0x3B # r)" "peek (0x26 # r) ''&'' = (True, 0x26 # r)"
  by (simp_all add: peek_simp skip_cons is_space_iff str_def)

lemma parsebacks_stop: "stop_at {0x29, 0x3B} rest \<Longrightarrow> parsebacks c rest = (c, rest)"
  using peek_stop [of "{0x29, 0x3B}" rest "''&''"] stop_skip [OF stop_mono, of "{0x29, 0x3B}"]
  by (simp add: parsebacks.simps [of c rest] str_def)

lemma parsebacks_amp: "stop_at {0x29, 0x26, 0x3B} rest \<Longrightarrow> parsebacks c (0x26 # rest) = parsebacks (BACK c) rest"
  using peek_hit(5) [of rest] gettoken_symbol [of "0x26" rest] stop_skip [of rest]
  by (simp add: parsebacks.simps [of c "0x26 # rest"])

lemma exec_words:
  assumes "\<forall>w\<in>set ws. word_ok w" "length ws < MAXARGS"
  shows "reads_exec (SExec ws)"
  unfolding reads_exec_def
proof (intro allI impI)
  fix n rs rest r
  assume a: "redirs_ok rs" "stop_exec rest" "parseexec n (show_cmd 3 (SExec ws) @ redirs_text rs @ rest) = Some r"
  let ?t = "words_text ws @ redirs_text rs @ rest"
  obtain m where n: "n = Suc m" using a(3) by (cases n) auto
  have pk: "fst (peek ?t ''('') = False"
  proof (cases ws)
    case Nil
    then show ?thesis using a(1,2) redirs_end [OF a(2), of rs]
      by (cases rs) (auto simp: words_text_def peek_simp redirs_text_def redir_text_def str_def stop_at_def split: if_splits)
  next
    case (Cons w vs)
    then obtain b w' where "w = b # w'" "b \<noteq> 0" "\<not> is_space b" "\<not> is_symbol b" using word_first [of w] assms(1) by auto
    then show ?thesis using Cons skip_word [of w] assms(1) by (auto simp: words_text_def peek_simp skip_blank str_def is_symbol_iff)
  qed
  then have r: "r = (case parseredirs (EXEC []) ?t of Inl e \<Rightarrow> Inl e | Inr (c1, p) \<Rightarrow> parseargs 0 c1 p)"
    using a(3) n by (auto simp: peek_F andthen_def parseredirs_skip split: sum.splits)
  show "\<exists>c'. r = Inr (c', rest) \<and> texts c' = wrap (SExec ws) rs"
  proof (cases ws)
    case Nil
    then show ?thesis using r parseredirs_text [OF a(1,2), of "EXEC []"] parseargs_stop [OF a(2)] by (auto simp: words_text_def)
  next
    case (Cons w vs)
    then have "?t = 0x20 # w @ words_text vs @ redirs_text rs @ rest" "word_ok w" using assms(1) by (simp_all add: words_text_def)
    then have "parseredirs (EXEC []) ?t = Inr (EXEC [], skip_space ?t)" using parseredirs_word skip_word by (simp add: skip_blank)
    then have "r = parseargs 0 (EXEC []) ?t" using r by (simp add: parseargs_skip)
    then show ?thesis using parseargs_text [OF assms(1) a(1,2), of "EXEC []" 0] assms(2) Cons by auto
  qed
qed

lemma exec_paren:
  assumes "reads_line c" "show_cmd 3 c = 0x28 # show_cmd 0 c @ [0x29]"
  shows "reads_exec c"
  unfolding reads_exec_def
proof (intro allI impI)
  fix n rs rest r
  assume a: "redirs_ok rs" "stop_exec rest" "parseexec n (show_cmd 3 c @ redirs_text rs @ rest) = Some r"
  let ?u = "0x29 # redirs_text rs @ rest"
  have t: "show_cmd 3 c @ redirs_text rs @ rest = 0x28 # show_cmd 0 c @ ?u" by (simp add: assms(2))
  obtain m where n: "n = Suc m" using a(3) by (cases n) auto
  have b: "parseblock m (0x28 # show_cmd 0 c @ ?u) = Some r" using a(3) unfolding t n by (simp add: peek_hit)
  then obtain k where m: "m = Suc k" by (cases m) auto
  obtain r1 where r1: "parseline k (show_cmd 0 c @ ?u) = Some r1" "andthen (Some r1) (\<lambda>cmd p2.
          let (close1, p3) = peek p2 '')'' in
          if \<not> close1 then Some (shpanic ''syntax - missing )'')
          else let (_, _, p4) = gettoken p3 in Some (parseredirs cmd p4)) = Some r"
    using b unfolding m by (auto simp: peek_hit gettoken_symbol parser_skip andthen_def split: option.splits)
  obtain c1 where c1: "r1 = Inr (c1, ?u)" "texts c1 = c" using assms(1) r1(1) stop_cons [of "0x29" "{0x29}"] unfolding reads_line_def by blast
  have "r = parseredirs c1 (redirs_text rs @ rest)" using r1(2) c1(1) by (simp add: andthen_def peek_hit gettoken_symbol parseredirs_skip)
  then show "\<exists>c'. r = Inr (c', rest) \<and> texts c' = wrap c rs" using parseredirs_text [OF a(1,2), of c1] c1(2) by auto
qed

lemma exec_redir:
  assumes "reads_exec c" "word_ok f" "(m, d) \<in> {(0, 0), (0x201, 1)}"
  shows "reads_exec (SRedir c f m d)"
  unfolding reads_exec_def
proof (intro allI impI)
  fix n rs rest r
  assume a: "redirs_ok rs" "stop_exec rest" "parseexec n (show_cmd 3 (SRedir c f m d) @ redirs_text rs @ rest) = Some r"
  have "redirs_ok ((f, m, d) # rs)" using a(1) assms(2,3) by (simp add: redirs_ok_def)
  moreover have "parseexec n (show_cmd 3 c @ redirs_text ((f, m, d) # rs) @ rest) = Some r" using a(3) by (simp add: redirs_text_def)
  ultimately show "\<exists>c'. r = Inr (c', rest) \<and> texts c' = wrap (SRedir c f m d) rs"
    using assms(1) a(2) unfolding reads_exec_def by (fastforce simp: wrap_def)
qed

text \<open>A command that prints the same at two levels is read at the lower one.\<close>

lemma pipe_of_exec:
  assumes "reads_exec c" "show_cmd 2 c = show_cmd 3 c"
  shows "reads_pipe c"
  unfolding reads_pipe_def
proof (intro allI impI)
  fix n rest r
  assume a: "stop_at {0x29, 0x26, 0x3B} rest" "parsepipe n (show_cmd 2 c @ rest) = Some r"
  obtain m where n: "n = Suc m" using a(2) by (cases n) auto
  obtain r1 where r1: "parseexec m (show_cmd 3 c @ redirs_text [] @ rest) = Some r1"
    using a(2) unfolding n assms(2) by (auto simp: andthen_def redirs_text_def split: option.splits)
  have "stop_exec rest" "redirs_ok []" using stop_mono [OF a(1)] by (auto simp: redirs_ok_def)
  then obtain c' where "r1 = Inr (c', rest)" "texts c' = wrap c []" using assms(1) r1 unfolding reads_exec_def by blast
  then show "\<exists>c'. r = Inr (c', rest) \<and> texts c' = c"
    using a r1 peek_stop [OF a(1), of "''|''"] stop_skip [OF a(1)] unfolding n assms(2) by (auto simp: andthen_def redirs_text_def wrap_def str_def)
qed

lemma back_of_pipe: "reads_pipe c \<Longrightarrow> show_cmd 1 c = show_cmd 2 c \<Longrightarrow> reads_back c"
  unfolding reads_pipe_def reads_back_def by simp blast

lemma line_of_back:
  assumes "reads_back c" "show_cmd 0 c = show_cmd 1 c"
  shows "reads_line c"
  unfolding reads_line_def
proof (intro allI impI)
  fix n rest r
  assume a: "stop_at {0x29} rest" "parseline n (show_cmd 0 c @ rest) = Some r"
  obtain m where n: "n = Suc m" using a(2) by (cases n) auto
  obtain r1 where r1: "parsepipe m (show_cmd 1 c @ rest) = Some r1"
    using a(2) unfolding n assms(2) by (auto simp: andthen_def split: option.splits)
  have s: "stop_at {0x29, 0x26, 0x3B} rest" "stop_at {0x29, 0x3B} rest" using stop_mono [OF a(1)] by auto
  obtain c1 p c' where c: "r1 = Inr (c1, p)" "parsebacks c1 p = parsebacks c' rest" "texts c' = c"
    using assms(1) r1 s(1) unfolding reads_back_def by blast
  then show "\<exists>c'. r = Inr (c', rest) \<and> texts c' = c"
    using a r1 parsebacks_stop [OF s(2)] peek_stop [OF s(2), of "'';''"] peek_stop [OF a(1), of "'';''"] stop_skip [OF s(1)]
    unfolding n assms(2) by (auto simp: andthen_def str_def)
qed

lemma pipe_pipe:
  assumes "reads_exec l" "reads_pipe r"
  shows "reads_pipe (SPipe l r)"
  unfolding reads_pipe_def
proof (intro allI impI)
  fix n rest r0
  assume a: "stop_at {0x29, 0x26, 0x3B} rest" "parsepipe n (show_cmd 2 (SPipe l r) @ rest) = Some r0"
  let ?u = "0x7C # show_cmd 2 r @ rest"
  have t: "show_cmd 2 (SPipe l r) @ rest = show_cmd 3 l @ redirs_text [] @ ?u" by (simp add: paren_def redirs_text_def)
  obtain m where n: "n = Suc m" using a(2) by (cases n) auto
  obtain r1 where r1: "parseexec m (show_cmd 3 l @ redirs_text [] @ ?u) = Some r1"
    using a(2) unfolding n t by (auto simp: andthen_def split: option.splits)
  have "stop_exec ?u" "redirs_ok []" by (auto simp: stop_cons redirs_ok_def)
  then obtain cl where cl: "r1 = Inr (cl, ?u)" "texts cl = wrap l []" using assms(1) r1 unfolding reads_exec_def by blast
  obtain r2 where r2: "parsepipe m (show_cmd 2 r @ rest) = Some r2"
    using a(2) r1 cl(1) unfolding n t by (auto simp: andthen_def peek_hit gettoken_symbol parser_skip split: option.splits)
  then obtain cr where "r2 = Inr (cr, rest)" "texts cr = r" using assms(2) a(1) unfolding reads_pipe_def by blast
  then show "\<exists>c'. r0 = Inr (c', rest) \<and> texts c' = SPipe l r"
    using a(2) r1 r2 cl unfolding n t by (auto simp: andthen_def peek_hit gettoken_symbol parser_skip wrap_def)
qed

lemma back_back:
  assumes "reads_back c"
  shows "reads_back (SBack c)"
  unfolding reads_back_def
proof (intro allI impI)
  fix n rest r
  assume a: "stop_at {0x29, 0x26, 0x3B} rest" "parsepipe n (show_cmd 1 (SBack c) @ rest) = Some r"
  have "parsepipe n (show_cmd 1 c @ 0x26 # rest) = Some r" using a(2) by (simp add: paren_def)
  then obtain c1 p c' where "r = Inr (c1, p)" "parsebacks c1 p = parsebacks c' (0x26 # rest)" "texts c' = c"
    using assms stop_cons [of "0x26" "{0x29, 0x26, 0x3B}" rest] unfolding reads_back_def by blast
  then show "\<exists>c1 p c'. r = Inr (c1, p) \<and> parsebacks c1 p = parsebacks c' rest \<and> texts c' = SBack c"
    using parsebacks_amp [OF a(1), of c'] by (intro exI [of _ c1] exI [of _ p] exI [of _ "BACK c'"]) simp
qed

lemma line_list:
  assumes "reads_back l" "reads_line r"
  shows "reads_line (SList l r)"
  unfolding reads_line_def
proof (intro allI impI)
  fix n rest r0
  assume a: "stop_at {0x29} rest" "parseline n (show_cmd 0 (SList l r) @ rest) = Some r0"
  let ?u = "0x3B # show_cmd 0 r @ rest"
  have t: "show_cmd 0 (SList l r) @ rest = show_cmd 1 l @ ?u" by (simp add: paren_def)
  obtain m where n: "n = Suc m" using a(2) by (cases n) auto
  obtain r1 where r1: "parsepipe m (show_cmd 1 l @ ?u) = Some r1" using a(2) unfolding n t by (auto simp: andthen_def split: option.splits)
  obtain c1 p cl where cl: "r1 = Inr (c1, p)" "parsebacks c1 p = parsebacks cl ?u" "texts cl = l"
    using assms(1) r1 stop_cons [of "0x3B" "{0x29, 0x26, 0x3B}"] unfolding reads_back_def by blast
  have b: "parsebacks cl ?u = (cl, ?u)" by (rule parsebacks_stop) (simp add: stop_cons)
  obtain r2 where r2: "parseline m (show_cmd 0 r @ rest) = Some r2"
    using a(2) r1 cl b unfolding n t by (auto simp: andthen_def peek_hit gettoken_symbol parser_skip split: option.splits)
  then obtain cr where "r2 = Inr (cr, rest)" "texts cr = r" using assms(2) a(1) unfolding reads_line_def by blast
  then show "\<exists>c'. r0 = Inr (c', rest) \<and> texts c' = SList l r"
    using a(2) r1 r2 cl b unfolding n t by (auto simp: andthen_def peek_hit gettoken_symbol parser_skip)
qed

lemma reads_all: "scmd_ok c \<Longrightarrow> reads_exec c \<and> reads_pipe c \<and> reads_back c \<and> reads_line c"
proof (induction c)
  case (SExec ws)
  then have "reads_exec (SExec ws)" by (intro exec_words) auto
  then show ?case using pipe_of_exec back_of_pipe line_of_back by (metis show_cmd.simps(1))
next
  case (SRedir c f m d)
  then have "reads_exec (SRedir c f m d)" by (intro exec_redir) auto
  then show ?case using pipe_of_exec back_of_pipe line_of_back by (metis show_cmd.simps(2))
next
  case (SPipe l r)
  then have "reads_pipe (SPipe l r)" by (intro pipe_pipe) auto
  then have "reads_back (SPipe l r)" by (rule back_of_pipe) (simp add: paren_def)
  moreover then have "reads_line (SPipe l r)" by (rule line_of_back) (simp add: paren_def)
  moreover then have "reads_exec (SPipe l r)" by (rule exec_paren) (simp add: paren_def)
  ultimately show ?case using \<open>reads_pipe (SPipe l r)\<close> by blast
next
  case (SList l r)
  then have "reads_line (SList l r)" by (intro line_list) auto
  moreover then have "reads_exec (SList l r)" by (rule exec_paren) (simp add: paren_def)
  moreover then have "reads_pipe (SList l r)" by (rule pipe_of_exec) (simp add: paren_def)
  moreover then have "reads_back (SList l r)" by (rule back_of_pipe) (simp add: paren_def)
  ultimately show ?case by blast
next
  case (SBack c)
  then have "reads_back (SBack c)" by (intro back_back) auto
  moreover then have "reads_line (SBack c)" by (rule line_of_back) (simp add: paren_def)
  moreover then have "reads_exec (SBack c)" by (rule exec_paren) (simp add: paren_def)
  moreover then have "reads_pipe (SBack c)" by (rule pipe_of_exec) (simp add: paren_def)
  ultimately show ?case by blast
qed

text \<open>What is printed holds no NUL.\<close>

lemma show_no0: "scmd_ok c \<Longrightarrow> 0 \<notin> set (show_cmd p c)"
  by (induction c arbitrary: p) (auto simp: words_text_def redir_text_def paren_def word_ok_def)

text \<open>
  C33: every command tree can be typed. Printing a tree, with parentheses only where the precedence of the operators
  needs them, gives a line that the parser reads back as exactly that tree, without error and with nothing left over.
\<close>

theorem parse_show:
  assumes "scmd_ok c"
  shows "\<exists>c' buf. parsecmd (show_cmd 0 c @ [0]) = Some (Inr (c', buf)) \<and> texts c' = c"
proof -
  let ?s = "show_cmd 0 c"
  have z: "0 \<notin> set ?s" by (rule show_no0 [OF assms])
  then have s: "cstr (?s @ [0]) = ?s" using cstr_stop [of ?s "[]"] by simp
  have n: "strlen (?s @ [0]) = length ?s" by (simp add: strlen_cstr s)
  obtain r where r: "parseline (4 * length ?s + 4) ?s = Some r" using parser_total [of "4 * length ?s + 4"] z by blast
  then obtain c' where "r = Inr (c', [])" "texts c' = c"
    using reads_all [OF assms] unfolding reads_line_def by (metis append_Nil2 stop_at_def)
  then show ?thesis using r by (simp add: parsecmd_def n peek_simp skip_space_def)
qed

theorem parse_show_witness:
  "\<exists>c' buf. parsecmd (str ''( a; b)| c>f'' @ [0]) = Some (Inr (c', buf)) \<and>
     texts c' = SPipe (SList (SExec [str ''a'']) (SExec [str ''b''])) (SRedir (SExec [str ''c'']) (str ''f'') 0x201 1)"
proof -
  let ?c = "SPipe (SList (SExec [str ''a'']) (SExec [str ''b''])) (SRedir (SExec [str ''c'']) (str ''f'') 0x201 1)"
  have "scmd_ok ?c" by (simp add: word_ok_def str_def is_space_iff is_symbol_iff MAXARGS_def)
  moreover have "show_cmd 0 ?c = str ''( a; b)| c>f''" by (simp add: words_text_def redir_text_def paren_def str_def)
  ultimately show ?thesis using parse_show [of ?c] by simp
qed

end
