(* ===== verification/Kbd.thy ===== *)
theory Kbd
  imports Console_Props
begin

text \<open>
  kbd.c and kbd.h: from scan codes to characters, and the two interrupt handlers that feed consoleintr. The pending
  bytes of a device are a list; \<^verbatim>\<open>getc\<close> takes them one by one and returns -1 when there is none.
\<close>

unbundle bit_operations_syntax

definition SHIFT :: uint where "SHIFT = 1"
definition CTL :: uint where "CTL = 2"
definition ALT :: uint where "ALT = 4"
definition CAPSLOCK :: uint where "CAPSLOCK = 8"
definition NUMLOCK :: uint where "NUMLOCK = 16"
definition SCROLLLOCK :: uint where "SCROLLLOCK = 32"
definition E0ESC :: uint where "E0ESC = 64"

definition shiftcode :: "nat \<Rightarrow> uint" where
  "shiftcode d = (if d = 0x1D \<or> d = 0x9D then CTL else if d = 0x2A \<or> d = 0x36 then SHIFT else if d = 0x38 \<or> d = 0xB8 then ALT else 0)"

definition togglecode :: "nat \<Rightarrow> uint" where
  "togglecode d = (if d = 0x3A then CAPSLOCK else if d = 0x45 then NUMLOCK else if d = 0x46 then SCROLLLOCK else 0)"

text \<open>The keys behind the escape code 0xE0: the same in the three maps except for Enter and the slash.\<close>

definition special :: "nat \<Rightarrow> byte option" where
  "special = map_of [(0xC8, 0xE2), (0xD0, 0xE3), (0xC9, 0xE6), (0xD1, 0xE7), (0xCB, 0xE4), (0xCD, 0xE5),
     (0x97, 0xE0), (0xCF, 0xE1), (0xD2, 0xE8), (0xD3, 0xE9)]"

definition keymap :: "byte list \<Rightarrow> byte \<Rightarrow> byte \<Rightarrow> nat \<Rightarrow> byte" where
  "keymap low enter slash d =
     (if d < length low then low ! d else if d = 0x9C then enter else if d = 0xB5 then slash
      else case special d of None \<Rightarrow> 0 | Some c \<Rightarrow> c)"

definition normalmap :: "nat \<Rightarrow> byte" where
  "normalmap = keymap [
     0x00, 0x1B, 0x31, 0x32, 0x33, 0x34, 0x35, 0x36, 0x37, 0x38, 0x39, 0x30, 0x2D, 0x3D, 0x08, 0x09,
     0x71, 0x77, 0x65, 0x72, 0x74, 0x79, 0x75, 0x69, 0x6F, 0x70, 0x5B, 0x5D, 0x0A, 0x00, 0x61, 0x73,
     0x64, 0x66, 0x67, 0x68, 0x6A, 0x6B, 0x6C, 0x3B, 0x27, 0x60, 0x00, 0x5C, 0x7A, 0x78, 0x63, 0x76,
     0x62, 0x6E, 0x6D, 0x2C, 0x2E, 0x2F, 0x00, 0x2A, 0x00, 0x20, 0x00, 0x00, 0x00, 0x00, 0x00, 0x00,
     0x00, 0x00, 0x00, 0x00, 0x00, 0x00, 0x00, 0x37, 0x38, 0x39, 0x2D, 0x34, 0x35, 0x36, 0x2B, 0x31,
     0x32, 0x33, 0x30, 0x2E, 0x00, 0x00, 0x00, 0x00] 0x0A 0x2F"

definition shiftmap :: "nat \<Rightarrow> byte" where
  "shiftmap = keymap [
     0x00, 0x1B, 0x21, 0x40, 0x23, 0x24, 0x25, 0x5E, 0x26, 0x2A, 0x28, 0x29, 0x5F, 0x2B, 0x08, 0x09,
     0x51, 0x57, 0x45, 0x52, 0x54, 0x59, 0x55, 0x49, 0x4F, 0x50, 0x7B, 0x7D, 0x0A, 0x00, 0x41, 0x53,
     0x44, 0x46, 0x47, 0x48, 0x4A, 0x4B, 0x4C, 0x3A, 0x22, 0x7E, 0x00, 0x7C, 0x5A, 0x58, 0x43, 0x56,
     0x42, 0x4E, 0x4D, 0x3C, 0x3E, 0x3F, 0x00, 0x2A, 0x00, 0x20, 0x00, 0x00, 0x00, 0x00, 0x00, 0x00,
     0x00, 0x00, 0x00, 0x00, 0x00, 0x00, 0x00, 0x37, 0x38, 0x39, 0x2D, 0x34, 0x35, 0x36, 0x2B, 0x31,
     0x32, 0x33, 0x30, 0x2E, 0x00, 0x00, 0x00, 0x00] 0x0A 0x2F"

definition ctlmap :: "nat \<Rightarrow> byte" where
  "ctlmap = keymap [
     0x00, 0x00, 0x00, 0x00, 0x00, 0x00, 0x00, 0x00, 0x00, 0x00, 0x00, 0x00, 0x00, 0x00, 0x00, 0x00,
     0x11, 0x17, 0x05, 0x12, 0x14, 0x19, 0x15, 0x09, 0x0F, 0x10, 0x00, 0x00, 0x0D, 0x00, 0x01, 0x13,
     0x04, 0x06, 0x07, 0x08, 0x0A, 0x0B, 0x0C, 0x00, 0x00, 0x00, 0x00, 0x1C, 0x1A, 0x18, 0x03, 0x16,
     0x02, 0x0E, 0x0D, 0x00, 0x00, 0xEF, 0x00, 0x00] 0x0D 0xEF"

definition charcode :: "uint \<Rightarrow> nat \<Rightarrow> byte" where
  "charcode m = (if m = 0 then normalmap else if m = 1 then shiftmap else ctlmap)"

text \<open>kbdgetc on a byte of the keyboard, with the static variable \<^verbatim>\<open>shift\<close>: the character and the new \<^verbatim>\<open>shift\<close>.\<close>

definition caps :: "uint \<Rightarrow> uint" where
  "caps c = (if 0x61 \<le> c \<and> c \<le> 0x7A then c + (0x41 - 0x61) else if 0x41 \<le> c \<and> c \<le> 0x5A then c + (0x61 - 0x41) else c)"

definition kbdgetc :: "uint \<Rightarrow> byte \<Rightarrow> int \<times> uint" where
  "kbdgetc shift b =
    (let data = unat b in
     if data = 0xE0 then (0, shift OR E0ESC)
     else if data AND 0x80 \<noteq> 0 then
       let d = (if shift AND E0ESC \<noteq> 0 then data else data AND 0x7F) in
       (0, shift AND NOT (shiftcode d OR E0ESC))
     else
       let (data, shift) = (if shift AND E0ESC \<noteq> 0 then (data OR 0x80, shift AND NOT E0ESC) else (data, shift));
           shift = (shift OR shiftcode data) XOR togglecode data;
           c = ucast (charcode (shift AND (CTL OR SHIFT)) data) :: uint;
           c = (if shift AND CAPSLOCK \<noteq> 0 then caps c else c)
       in (sint c, shift))"

fun kbd_chars :: "uint \<Rightarrow> byte list \<Rightarrow> int list \<times> uint" where
  "kbd_chars shift [] = ([], shift)"
| "kbd_chars shift (b # bs) = (let (c, shift1) = kbdgetc shift b; (cs, shift2) = kbd_chars shift1 bs in (c # cs, shift2))"

record kbdst = consst +
  kbd_shift :: uint

definition kbdintr :: "byte list \<Rightarrow> ('z kbdst_scheme, unit) kern" where
  "kbdintr bs = (\<lambda>s.
     let (cs, shift) = kbd_chars (kbd_shift s) bs in consoleintr cs (s\<lparr>kbd_shift := shift\<rparr>))"

text \<open>uartgetc returns the bytes of the serial port, or -1 at once when there is no such port.\<close>

definition uartintr :: "byte list \<Rightarrow> ('z consst_scheme, unit) kern" where
  "uartintr bs = (\<lambda>s. consoleintr (if uart s then map uint bs else []) s)"

subsection \<open>Characters stay in a byte\<close>

lemma caps_range:
  assumes "c < 256"
  shows "caps c < 256"
proof -
  have "unat (c - 32) = unat c - 32" if "97 \<le> c" using that unat_sub [of 32 c] by (simp add: word_le_nat_alt)
  moreover have "unat (c + 32) = unat c + 32" using assms unat_add_lem [of c 32] by (simp add: word_less_nat_alt)
  ultimately show ?thesis using assms by (auto simp: caps_def word_less_nat_alt word_le_nat_alt)
qed

lemma sint_byte: "(c :: uint) < 256 \<Longrightarrow> 0 \<le> sint c \<and> sint c < 256"
proof -
  assume "c < 256"
  then have "uint c < 256" by (simp add: word_less_def)
  moreover have "- 2147483648 \<le> uint c" by (rule order_trans [OF _ uint_ge_0]) simp
  ultimately have "sint c = uint c" by (simp add: sint_uint signed_take_bit_int_eq_self_iff)
  then show ?thesis using \<open>uint c < 256\<close> by simp
qed

lemma ucast_byte: "(ucast (x :: byte) :: uint) < 256"
proof -
  have "unat x < 256" using unsigned_less [of x, where ?'a = nat] by simp
  then show ?thesis by (simp add: word_less_nat_alt unsigned_ucast_eq take_bit_nat_eq_self)
qed

lemma kbdgetc_range: "0 \<le> fst (kbdgetc shift b) \<and> fst (kbdgetc shift b) < 256"
proof -
  have "0 \<le> sint (if P then caps (ucast (x :: byte)) else ucast x) \<and> sint (if P then caps (ucast x) else ucast x) < 256" for P x
    using sint_byte [OF caps_range [OF ucast_byte [of x]]] sint_byte [OF ucast_byte [of x]] by simp
  then show ?thesis unfolding kbdgetc_def Let_def by (simp add: case_prod_beta)
qed

lemma kbd_chars_range: "\<forall>c\<in>set (fst (kbd_chars shift bs)). 0 \<le> c \<and> c < 256"
  using kbdgetc_range by (induction bs arbitrary: shift) (auto simp: Let_def case_prod_beta)

lemma kbdst_simps [simp]:
  "in_ok (s\<lparr>kbd_shift := k\<rparr>) = in_ok s" "screen_ok (s\<lparr>kbd_shift := k\<rparr>) = screen_ok s"
  "in_lines (s\<lparr>kbd_shift := k\<rparr>) = in_lines s" "table_ok (s\<lparr>kbd_shift := k\<rparr>) = table_ok s"
  by (simp_all add: in_ok_def in_shape_def in_lines_def screen_ok_def table_ok_def)

text \<open>A keyboard interrupt edits the line with the characters of its scan codes.\<close>

lemma kbdintr_lines:
  assumes "in_ok s" "screen_ok s" "ConsLock \<notin> held s" "PtableLock \<notin> held s" "table_ok s"
  shows "\<exists>s'. kbdintr bs s = Ok () s' \<and> in_ok s' \<and> screen_ok s' \<and> held s' = held s \<and>
    in_lines s' = fold line_key (fst (kbd_chars (kbd_shift s) bs)) (in_lines s)"
proof -
  let ?cs = "fst (kbd_chars (kbd_shift s) bs)" and ?s = "s\<lparr>kbd_shift := snd (kbd_chars (kbd_shift s) bs)\<rparr>"
  have "kbdintr bs s = consoleintr ?cs ?s" by (simp add: kbdintr_def case_prod_beta)
  moreover have "\<exists>s'. consoleintr ?cs ?s = Ok () s' \<and> in_ok s' \<and> screen_ok s' \<and> held s' = held ?s \<and>
    in_lines s' = fold line_key ?cs (in_lines ?s)"
    using consoleintr_lines [of ?s ?cs] assms kbd_chars_range [of "kbd_shift s" bs] by auto
  ultimately show ?thesis by simp
qed

end
