(* ===== verification/Date.thy ===== *)
theory Date
  imports Cstring "HOL-Library.Signed_Division"
begin

text \<open>
  The user program date.c. The date is the six words of struct rtcdate; the result is the line that main prints.
  \<open>dayofweek\<close> is compared with the Gregorian calendar, given by the day that follows a day.
\<close>

record rtcdate =
  r_second :: uint
  r_minute :: uint
  r_hour :: uint
  r_day :: uint
  r_month :: uint
  r_year :: uint

definition months :: "string list" where
  "months = [''NULL'', ''Jan'', ''Feb'', ''Mar'', ''Apr'', ''May'', ''Jun'', ''Jul'', ''Aug'', ''Sep'', ''Oct'', ''Nov'', ''Dec'']"

definition days :: "string list" where
  "days = [''Sun'', ''Mon'', ''Tue'', ''Wed'', ''Thu'', ''Fri'', ''Sat'']"

definition PAD :: "uint \<Rightarrow> string" where
  "PAD x = (if x < 10 then ''0'' else '''')"

definition dayofweek :: "int \<Rightarrow> int \<Rightarrow> int \<Rightarrow> int" where
  "dayofweek y m d =
    (let (d, y) = (if m < 3 then (d + y, y - 1) else (d + (y - 2), y)) in
     (23 * m sdiv 9 + d + 4 + y sdiv 4 - y sdiv 100 + y sdiv 400) smod 7)"

text \<open>What main prints and the descriptor it prints it to: the date, or a message when the system call fails.\<close>

definition date_main :: "rtcdate option \<Rightarrow> int \<times> byte list" where
  "date_main res = (case res of
     None \<Rightarrow> (2, str ''Error: date call failed. date.c at line 31'' @ [0x0A])
   | Some r \<Rightarrow>
       let day = dayofweek (sint (r_year r)) (sint (r_month r)) (sint (r_day r));
           s = (if r_hour r < 12 then ''AM'' else ''PM'');
           h = r_hour r mod 12; h = (if h = 0 then 12 else h);
           num = (\<lambda>x. str (PAD x) @ printint x 10 True)
       in (1, str (days ! nat day) @ str '' '' @ num (r_day r) @ str '' '' @ str (months ! unat (r_month r)) @ str '' '' @
          printint (r_year r) 10 True @ str '' '' @ num h @ str '':'' @ num (r_minute r) @ str '':'' @ num (r_second r) @
          str '' '' @ str s @ str '' UTC'' @ [0x0A]))"

subsection \<open>The calendar\<close>

definition leap :: "int \<Rightarrow> bool" where
  "leap y \<longleftrightarrow> 4 dvd y \<and> \<not> 100 dvd y \<or> 400 dvd y"

definition month_days :: "int \<Rightarrow> int \<Rightarrow> int" where
  "month_days y m = (if m = 2 then (if leap y then 29 else 28) else if m \<in> {4, 6, 9, 11} then 30 else 31)"

fun next_day :: "int \<times> int \<times> int \<Rightarrow> int \<times> int \<times> int" where
  "next_day (y, m, d) = (if d < month_days y m then (y, m, d + 1) else if m < 12 then (y, m + 1, 1) else (y + 1, 1, 1))"

definition is_date :: "int \<times> int \<times> int \<Rightarrow> bool" where
  "is_date = (\<lambda>(y, m, d). 1 \<le> y \<and> 1 \<le> m \<and> m \<le> 12 \<and> 1 \<le> d \<and> d \<le> month_days y m)"

lemma sdiv_nonneg: "0 \<le> a \<Longrightarrow> 0 < (b :: int) \<Longrightarrow> a sdiv b = a div b"
  by (cases "a = 0") (simp_all add: signed_divide_int_def)

lemma smod_nonneg: "0 \<le> a \<Longrightarrow> 0 < (b :: int) \<Longrightarrow> a smod b = a mod b"
  by (cases "a = 0") (simp_all add: signed_modulo_int_def)

text \<open>The leap days up to year \<open>y\<close>.\<close>

definition leaps :: "int \<Rightarrow> int" where
  "leaps y = y div 4 - y div 100 + y div 400"

lemma div_pred:
  fixes y k :: int
  assumes "0 < k"
  shows "y div k = (y - 1) div k + (if k dvd y then 1 else 0)"
proof (cases "k dvd y")
  case True
  then have "y - 1 = k * (y div k - 1) + (k - 1)" by (simp add: algebra_simps)
  then have "(y - 1) div k = y div k - 1" using int_div_pos_eq [of "y - 1" k "y div k - 1" "k - 1"] assms by simp
  then show ?thesis using True by simp
next
  case False
  then have "0 < y mod k" using assms by (simp add: dvd_eq_mod_eq_0 order_less_le)
  moreover have "y - 1 = k * (y div k) + (y mod k - 1)" by simp
  ultimately have "(y - 1) div k = y div k" using int_div_pos_eq [of "y - 1" k "y div k" "y mod k - 1"] assms pos_mod_bound [OF assms, of y] by simp
  then show ?thesis using False by simp
qed

lemma leaps_pred: "leaps y = leaps (y - 1) + (if leap y then 1 else 0)"
proof -
  have "400 dvd y \<Longrightarrow> 100 dvd y" "100 dvd y \<Longrightarrow> 4 dvd y" by (auto intro: dvd_trans [of _ 400] dvd_trans [of _ 100])
  then show ?thesis using div_pred [of 4 y] div_pred [of 100 y] div_pred [of 400 y] by (auto simp: leaps_def leap_def)
qed

lemma leaps_nonneg: "0 \<le> y \<Longrightarrow> 0 \<le> leaps y"
proof -
  assume "0 \<le> y"
  then have "y div 100 \<le> y div 4" "0 \<le> y div 400" by (auto intro: zdiv_mono2)
  then show ?thesis by (simp add: leaps_def)
qed

definition week_no :: "int \<Rightarrow> int \<Rightarrow> int \<Rightarrow> int" where
  "week_no y m d = (if m < 3 then 23 * m div 9 + d + y + 4 + leaps (y - 1) else 23 * m div 9 + d + (y - 2) + 4 + leaps y)"

lemma dayofweek_eq:
  assumes "1 \<le> y" "1 \<le> m" "1 \<le> d"
  shows "dayofweek y m d = week_no y m d mod 7"
proof -
  have l: "0 \<le> leaps y" "0 \<le> leaps (y - 1)" "0 \<le> 23 * m div 9" using assms by (auto intro: leaps_nonneg)
  have e: "a + y div 4 - y div 100 + y div 400 = a + leaps y" for a y by (simp add: leaps_def)
  show ?thesis
  proof (cases "m < 3")
    case True
    then have "dayofweek y m d = (23 * m div 9 + (d + y) + 4 + leaps (y - 1)) mod 7"
      using assms l by (simp add: dayofweek_def sdiv_nonneg e smod_nonneg)
    then show ?thesis using True by (simp add: week_no_def add.assoc)
  next
    case False
    then have "dayofweek y m d = (23 * m div 9 + (d + (y - 2)) + 4 + leaps y) mod 7"
      using assms l unfolding dayofweek_def by (simp add: sdiv_nonneg e smod_nonneg)
    then show ?thesis using False by (simp add: week_no_def add.assoc)
  qed
qed

text \<open>The week moves on by one day each day.\<close>

lemma week_step: "b = a + 1 + 7 * k \<Longrightarrow> b mod 7 = (a mod 7 + 1) mod (7 :: int)"
  by (simp add: mod_add_left_eq)

lemma month_cases: "1 \<le> m \<Longrightarrow> m \<le> 12 \<Longrightarrow> m \<in> {1, 2, 3, 4, 5, 6, 7, 8, 9, 10, 11, 12}" for m :: int
  by simp presburger

lemma dayofweek_next:
  assumes "is_date (y, m, d)" "next_day (y, m, d) = (y', m', d')"
  shows "dayofweek y' m' d' = (dayofweek y m d + 1) mod 7"
proof -
  have a: "1 \<le> y" "1 \<le> m" "m \<le> 12" "1 \<le> d" "d \<le> month_days y m" using assms(1) by (auto simp: is_date_def)
  have "\<exists>k. week_no y' m' d' = week_no y m d + 1 + 7 * k"
  proof (cases "d < month_days y m")
    case True
    then have "y' = y" "m' = m" "d' = d + 1" using assms(2) by auto
    then show ?thesis by (intro exI [of _ 0]) (simp add: week_no_def)
  next
    case False
    then have d: "d = month_days y m" using a by simp
    have n: "(y', m', d') = (if m < 12 then (y, m + 1, 1) else (y + 1, 1, 1))" using assms(2) False by simp
    show ?thesis using month_cases [OF a(2,3)] n d leaps_pred [of y]
      by (elim insertE emptyE) (simp_all add: week_no_def month_days_def split: if_splits, presburger+)
  qed
  then obtain k where k: "week_no y' m' d' = week_no y m d + 1 + 7 * k" by blast
  have "1 \<le> y'" "1 \<le> m'" "1 \<le> d'" using a assms(2) by (auto split: if_splits)
  then show ?thesis using dayofweek_eq [of y m d] dayofweek_eq [of y' m' d'] a(1,2,4) week_step [OF k] by metis
qed

lemma next_day_date: "is_date x \<Longrightarrow> is_date (next_day x)"
  by (cases x) (auto simp: is_date_def month_days_def)

text \<open>
  C39: the day of the week. Counting the days of the Gregorian calendar, with its leap years, from Saturday the 1st of
  January 2000, the formula of date.c names the day that the count gives; it never leaves the table of names.
\<close>

theorem dayofweek_is_calendar:
  "(case (next_day ^^ n) (2000, 1, 1) of (y, m, d) \<Rightarrow> dayofweek y m d) = (6 + int n) mod 7"
proof -
  have "is_date ((next_day ^^ n) (2000, 1, 1)) \<and>
    (case (next_day ^^ n) (2000, 1, 1) of (y, m, d) \<Rightarrow> dayofweek y m d) = (6 + int n) mod 7"
  proof (induction n)
    case 0
    show ?case by (simp add: is_date_def month_days_def dayofweek_eq week_no_def leaps_def)
  next
    case (Suc n)
    obtain y m d where x: "(next_day ^^ n) (2000, 1, 1) = (y, m, d)" by (metis prod_cases3)
    obtain y' m' d' where x': "next_day (y, m, d) = (y', m', d')" by (metis prod_cases3)
    have "dayofweek y' m' d' = (6 + int (Suc n)) mod 7"
      using dayofweek_next [OF _ x'] Suc x mod_add_left_eq [of "6 + int n" 7 1] by (simp add: add.assoc)
    then show ?case using x x' Suc next_day_date [of "(y, m, d)"] by simp
  qed
  then show ?thesis by blast
qed

end
