(* ===== verification/Rtc.thy ===== *)
theory Rtc
  imports Date
begin

text \<open>
  Reading the real-time clock: cmos_read, fill_rtcdate and cmostime of lapic.c. The clock is hardware: \<open>rtc k reg\<close> is
  the byte that the k-th read of the boot finds in register \<open>reg\<close>, a parameter. The loop of cmostime waits for the clock
  and has no bound in the code; a run that never ends is \<open>None\<close>.
\<close>

unbundle bit_operations_syntax

type_synonym rtc = "nat \<Rightarrow> uint \<Rightarrow> byte"

definition CMOS_STATA :: uint where "CMOS_STATA = 0x0a"
definition CMOS_STATB :: uint where "CMOS_STATB = 0x0b"
definition CMOS_UIP :: uint where "CMOS_UIP = 0x80"
definition SECS :: uint where "SECS = 0x00"
definition MINS :: uint where "MINS = 0x02"
definition HOURS :: uint where "HOURS = 0x04"
definition DAY :: uint where "DAY = 0x07"
definition MONTH :: uint where "MONTH = 0x08"
definition YEAR :: uint where "YEAR = 0x09"

definition cmos_read :: "rtc \<Rightarrow> nat \<Rightarrow> uint \<Rightarrow> uint" where
  "cmos_read rtc k reg = ucast (rtc k reg)"

text \<open>The six reads of fill_rtcdate, the first of them the k-th.\<close>

definition fill_rtcdate :: "rtc \<Rightarrow> nat \<Rightarrow> rtcdate" where
  "fill_rtcdate rtc k = \<lparr>
     r_second = cmos_read rtc k SECS,
     r_minute = cmos_read rtc (k + 1) MINS,
     r_hour = cmos_read rtc (k + 2) HOURS,
     r_day = cmos_read rtc (k + 3) DAY,
     r_month = cmos_read rtc (k + 4) MONTH,
     r_year = cmos_read rtc (k + 5) YEAR\<rparr>"

definition CONV :: "uint \<Rightarrow> uint" where
  "CONV x = drop_bit 4 x * 10 + (x AND 0xf)"

text \<open>The loop of cmostime: two readings that agree, the clock not being updated after the first.\<close>

partial_function (option) cmos_stable :: "rtc \<Rightarrow> nat \<Rightarrow> rtcdate option" where
  "cmos_stable rtc k =
    (let t1 = fill_rtcdate rtc k in
     if cmos_read rtc (k + 6) CMOS_STATA AND CMOS_UIP \<noteq> 0 then cmos_stable rtc (k + 7)
     else
       let t2 = fill_rtcdate rtc (k + 7) in
       if t1 = t2 then Some t1 else cmos_stable rtc (k + 13))"

definition rtc_conv :: "bool \<Rightarrow> rtcdate \<Rightarrow> rtcdate" where
  "rtc_conv bcd t1 =
    (let t1 = (if bcd then \<lparr>r_second = CONV (r_second t1), r_minute = CONV (r_minute t1), r_hour = CONV (r_hour t1),
                        r_day = CONV (r_day t1), r_month = CONV (r_month t1), r_year = CONV (r_year t1)\<rparr>
               else t1)
     in t1\<lparr>r_year := r_year t1 + 2000\<rparr>)"

definition cmostime :: "rtc \<Rightarrow> nat \<Rightarrow> rtcdate option" where
  "cmostime rtc k =
    (let sb = cmos_read rtc k CMOS_STATB; bcd = (sb AND 4 = 0) in
     map_option (rtc_conv bcd) (cmos_stable rtc (k + 1)))"

subsection \<open>A clock that settles\<close>

text \<open>How the clock encodes a number below 100: two decimal digits of four bits each, or plain binary.\<close>

definition rtc_enc :: "bool \<Rightarrow> nat \<Rightarrow> byte" where
  "rtc_enc bcd x = (if bcd then of_nat (16 * (x div 10) + x mod 10) else of_nat x)"

definition shows_date :: "bool \<Rightarrow> rtcdate \<Rightarrow> (uint \<Rightarrow> byte) \<Rightarrow> bool" where
  "shows_date bcd d clk \<longleftrightarrow>
     (\<forall>(reg, x) \<in> {(SECS, r_second d), (MINS, r_minute d), (HOURS, r_hour d), (DAY, r_day d), (MONTH, r_month d), (YEAR, r_year d - 2000)}.
        x < 100 \<and> clk reg = rtc_enc bcd (unat x))"

lemma conv_digits: "x < 100 \<Longrightarrow> CONV (ucast (rtc_enc True x)) = of_nat x"
proof -
  assume "x < 100"
  have "\<forall>x \<in> set [0..<100]. CONV (ucast (rtc_enc True x)) = of_nat x" by code_simp
  then show ?thesis using \<open>x < 100\<close> by simp
qed

lemma plain_digits: "x < 100 \<Longrightarrow> (ucast (rtc_enc False x) :: uint) = of_nat x"
proof -
  assume "x < 100"
  have "\<forall>x \<in> set [0..<100]. (ucast (rtc_enc False x) :: uint) = of_nat x" by code_simp
  then show ?thesis using \<open>x < 100\<close> by simp
qed

definition steady_date :: "(uint \<Rightarrow> byte) \<Rightarrow> rtcdate" where
  "steady_date clk = fill_rtcdate (\<lambda>_. clk) 0"

lemma fill_steady: "\<forall>k\<ge>n. rtc k = clk \<Longrightarrow> n \<le> k \<Longrightarrow> fill_rtcdate rtc k = steady_date clk"
  by (simp add: fill_rtcdate_def steady_date_def cmos_read_def)

lemma conv_steady: "shows_date bcd d clk \<Longrightarrow> rtc_conv bcd (steady_date clk) = d"
  by (cases bcd) (simp_all add: shows_date_def rtc_conv_def steady_date_def fill_rtcdate_def cmos_read_def
      conv_digits plain_digits word_less_nat_alt)

text \<open>While the clock is being updated the loop goes on; once it is steady the loop ends with what the clock shows.\<close>

lemma cmos_stable_ends:
  assumes s: "\<forall>k\<ge>n. rtc k = clk" and u: "\<forall>k<n. cmos_read rtc k CMOS_STATA AND CMOS_UIP \<noteq> 0"
    and i: "ucast (clk CMOS_STATA) AND CMOS_UIP = 0"
  shows "cmos_stable rtc k = Some (steady_date clk)"
proof (induction "n - k" arbitrary: k rule: less_induct)
  case less
  show ?case
  proof (cases "n \<le> k")
    case True
    then show ?thesis using s i by (subst cmos_stable.simps) (simp add: fill_steady [OF s] cmos_read_def)
  next
    case False
    then have ih: "cmos_stable rtc (k + 7) = Some (steady_date clk)" "cmos_stable rtc (k + 13) = Some (steady_date clk)"
      using less by simp_all
    have "n \<le> k + 6" if "cmos_read rtc (k + 6) CMOS_STATA AND CMOS_UIP = 0" using u that by (meson leI)
    then have "fill_rtcdate rtc (k + 7) = steady_date clk" if "cmos_read rtc (k + 6) CMOS_STATA AND CMOS_UIP = 0"
      using that by (intro fill_steady [OF s]) simp
    then show ?thesis using ih by (subst cmos_stable.simps) (simp add: Let_def)
  qed
qed

text \<open>
  C38: reading the clock ends and is exact. Whatever the time registers hold while the clock's update flag is up, if the
  flag is down from some read on and the registers then show a date, in decimal digits or in binary as status register B
  says, cmostime returns and its result is that date, with the full year.
\<close>

theorem cmostime_reads_the_clock:
  assumes "\<forall>k\<ge>n. rtc k = clk" "\<forall>k<n. cmos_read rtc k CMOS_STATA AND CMOS_UIP \<noteq> 0"
    and "ucast (clk CMOS_STATA) AND CMOS_UIP = 0"
    and "\<forall>k. rtc k CMOS_STATB AND 4 = (if bcd then 0 else 4)" "shows_date bcd d clk"
  shows "cmostime rtc k = Some d"
proof -
  have e: "ucast x AND (4 :: uint) = ucast (x AND 4)" for x :: byte by (simp add: unsigned_and_eq)
  have "cmos_read rtc k CMOS_STATB AND 4 = 0 \<longleftrightarrow> bcd" using assms(4) by (simp add: cmos_read_def e)
  then show ?thesis using cmos_stable_ends [OF assms(1-3), of "k + 1"] conv_steady [OF assms(5)] by (simp add: cmostime_def)
qed

text \<open>A clock that shows 23:59:58 on the 29th of February 2024 in decimal digits, after eight reads during an update.\<close>

definition demo_clk :: "uint \<Rightarrow> byte" where
  "demo_clk reg = (if reg = SECS then 0x58 else if reg = MINS then 0x59 else if reg = HOURS then 0x23 else
     if reg = DAY then 0x29 else if reg = MONTH then 0x02 else if reg = YEAR then 0x24 else 0)"

definition demo_rtc :: rtc where
  "demo_rtc k = (if k < 8 then (\<lambda>reg. if reg = CMOS_STATB then 0 else 0xff) else demo_clk)"

theorem cmostime_reads_the_clock_witness:
  "cmostime demo_rtc 0 = Some \<lparr>r_second = 58, r_minute = 59, r_hour = 23, r_day = 29, r_month = 2, r_year = 2024\<rparr>"
proof (rule cmostime_reads_the_clock [of 8 demo_rtc demo_clk True])
  show "\<forall>k\<ge>8. demo_rtc k = demo_clk" by (simp add: demo_rtc_def)
  show "\<forall>k<8. cmos_read demo_rtc k CMOS_STATA AND CMOS_UIP \<noteq> 0"
    by (simp add: demo_rtc_def cmos_read_def CMOS_STATA_def CMOS_STATB_def CMOS_UIP_def)
  show "ucast (demo_clk CMOS_STATA) AND CMOS_UIP = 0" by code_simp
  show "\<forall>k. demo_rtc k CMOS_STATB AND 4 = (if True then 0 else 4)"
    by (simp add: demo_rtc_def demo_clk_def CMOS_STATB_def SECS_def MINS_def HOURS_def DAY_def MONTH_def YEAR_def)
  show "shows_date True \<lparr>r_second = 58, r_minute = 59, r_hour = 23, r_day = 29, r_month = 2, r_year = 2024\<rparr> demo_clk"
    by (simp add: shows_date_def demo_clk_def rtc_enc_def SECS_def MINS_def HOURS_def DAY_def MONTH_def YEAR_def)
qed

end
