(* ===== verification/Trap.thy ===== *)
theory Trap
  imports Kbd Rtc
begin

text \<open>
  Traps and system calls: tvinit and trap of trap.c, the table of system calls and syscall of syscall.c, sys_date of
  sysproc.c, and lapiceoi of lapic.c. What the devices and the processor give to one run of trap is the
  record \<open>hw\<close>: the clock, the bytes waiting at the keyboard and the serial port, and the register cr2. A system call
  that blocks leaves trap through the scheduler; \<open>trap_syscall_resume\<close> and \<open>trap_yield_resume\<close> are what trap does once
  the process runs again.
\<close>

unbundle bit_operations_syntax

record gatedesc =
  g_off_15_0 :: ushort
  g_cs :: ushort
  g_args :: nat
  g_rsv1 :: nat
  g_type :: nat
  g_s :: nat
  g_dpl :: uint
  g_p :: bool
  g_off_31_16 :: ushort

definition STS_IG32 :: nat where "STS_IG32 = 0xE"
definition STS_TG32 :: nat where "STS_TG32 = 0xF"

definition SETGATE :: "bool \<Rightarrow> ushort \<Rightarrow> uint \<Rightarrow> uint \<Rightarrow> gatedesc" where
  "SETGATE istrap sel off d = \<lparr>
     g_off_15_0 = ucast (off AND 0xffff), g_cs = sel, g_args = 0, g_rsv1 = 0,
     g_type = (if istrap then STS_TG32 else STS_IG32), g_s = 0, g_dpl = d, g_p = True,
     g_off_31_16 = ucast (drop_bit 16 off)\<rparr>"

text \<open>\<open>eois\<close> counts the interrupts acknowledged to the local APIC; \<open>has_lapic\<close> says that there is one.\<close>

record trapst = kbdst +
  idt :: "nat \<Rightarrow> gatedesc"
  has_lapic :: bool
  eois :: nat

record hw =
  hw_rtc :: rtc
  hw_kbd :: "byte list"
  hw_uart :: "byte list"
  hw_cr2 :: uint

definition T_SYSCALL :: uint where "T_SYSCALL = 64"
definition T_IRQ0 :: uint where "T_IRQ0 = 32"
definition IRQ_TIMER :: uint where "IRQ_TIMER = 0"
definition IRQ_KBD :: uint where "IRQ_KBD = 1"
definition IRQ_COM1 :: uint where "IRQ_COM1 = 4"
definition IRQ_IDE :: uint where "IRQ_IDE = 14"
definition IRQ_SPURIOUS :: uint where "IRQ_SPURIOUS = 31"
definition SCHED_INTERVAL :: uint where "SCHED_INTERVAL = 10"

lemmas trap_nums = T_SYSCALL_def T_IRQ0_def IRQ_TIMER_def IRQ_KBD_def IRQ_COM1_def IRQ_IDE_def IRQ_SPURIOUS_def

text \<open>The addresses of vectors.S are an argument of tvinit.\<close>

definition tvinit :: "(nat \<Rightarrow> uint) \<Rightarrow> ('z trapst_scheme, unit) kern" where
  "tvinit vectors =
     kseq (kfor (\<lambda>i. modify (\<lambda>s. s\<lparr>idt := (idt s)(i := SETGATE False (push_bit 3 (of_nat SEG_KCODE)) (vectors i) 0)\<rparr>)) [0..<256])
          (modify (\<lambda>s. s\<lparr>idt := (idt s)(unat T_SYSCALL := SETGATE True (push_bit 3 (of_nat SEG_KCODE)) (vectors (unat T_SYSCALL)) DPL_USER)\<rparr>))"

definition lapiceoi :: "('z trapst_scheme, unit) kern" where
  "lapiceoi = kwhen has_lapic (modify (\<lambda>s. s\<lparr>eois := eois s + 1\<rparr>))"

subsection \<open>System calls\<close>

definition sizeof_rtcdate :: cint where "sizeof_rtcdate = 24"

definition store_rtcdate :: "uint \<Rightarrow> rtcdate \<Rightarrow> ('z vmst_scheme, unit) kern" where
  "store_rtcdate a r =
     kseq (ustore32 a (r_second r))
     (kseq (ustore32 (a + 4) (r_minute r))
     (kseq (ustore32 (a + 8) (r_hour r))
     (kseq (ustore32 (a + 12) (r_day r))
     (kseq (ustore32 (a + 16) (r_month r))
           (ustore32 (a + 20) (r_year r))))))"

definition sys_date :: "rtc \<Rightarrow> ('z ftst_scheme, cint) kern" where
  "sys_date rtc =
     arg (argptr 0 sizeof_rtcdate) (\<lambda>d.
     case cmostime rtc 0 of
       None \<Rightarrow> (\<lambda>s. Spin)
     | Some r \<Rightarrow> kseq (store_rtcdate d r) (ret 0))"

text \<open>The table \<^verbatim>\<open>syscalls\<close>, by the numbers of syscall.h; its length is \<^verbatim>\<open>NELEM(syscalls)\<close>.\<close>

definition syscalls :: "hw \<Rightarrow> ('z trapst_scheme, cint) kern option list" where
  "syscalls h =
    [None,
     Some sys_fork,
     Some sys_exit,
     Some sys_wait,
     Some sys_pipe,
     Some (sys_read console_devsw),
     Some sys_kill,
     Some (sys_exec console_devsw),
     Some sys_fstat,
     Some (sys_chdir console_devsw),
     Some sys_dup,
     Some sys_getpid,
     Some sys_sbrk,
     Some sys_sleep,
     Some sys_uptime,
     Some (sys_open console_devsw),
     Some (sys_write console_devsw),
     Some (sys_mknod console_devsw),
     Some (sys_unlink console_devsw),
     Some (sys_link console_devsw),
     Some (sys_mkdir console_devsw),
     Some sys_close,
     Some sys_halt,
     Some (sys_date (hw_rtc h))]"

text \<open>The assignment of the result to the saved register eax of the process.\<close>

definition set_eax :: "uint \<Rightarrow> ('z ptab_scheme, unit) kern" where
  "set_eax r = (\<lambda>s. set32 (p_tf (proc_at s (curproc s)) + tf_eax) r s)"

definition syscall :: "hw \<Rightarrow> ('z trapst_scheme, unit) kern" where
  "syscall h = (\<lambda>s.
     let p = proc_at s (curproc s); eax = load32 (mem s) (p_tf p + tf_eax); num = sint eax in
     if num > 0 \<and> num < int (length (syscalls h :: ('z trapst_scheme, cint) kern option list)) \<and> syscalls h ! nat num \<noteq> (None :: ('z trapst_scheme, cint) kern option)
     then kbind (the (syscalls h ! nat num)) set_eax s
     else kseq (con_cprintf (''%d %s: unknown sys call %d'' @ nl) [W (p_pid p), S (p_name p), W eax])
               (set_eax (- 1)) s)"

subsection \<open>trap\<close>

definition tf_err :: uint where "tf_err = 52"

definition trapno :: "'z kmem_scheme \<Rightarrow> uint \<Rightarrow> uint" where
  "trapno s tf = load32 (mem s) (tf + tf_trapno)"

text \<open>\<^verbatim>\<open>tf->cs&3\<close>: 0 in the kernel, 3 in user mode.\<close>

definition tf_mode :: "'z kmem_scheme \<Rightarrow> uint \<Rightarrow> uint" where
  "tf_mode s tf = ucast (mem s (tf + tf_cs)) AND 3"

definition is_killed :: "'z ptab_scheme \<Rightarrow> bool" where
  "is_killed s = p_killed (proc_at s (curproc s))"

definition trap_timer :: "('z trapst_scheme, unit) kern" where
  "trap_timer =
     kseq (kwhen (\<lambda>s. cpu_me s = 0)
            (kseq (modify (\<lambda>s. s\<lparr>ticks := ticks s + 1\<rparr>))
                  (wakeup ChTicks)))
          lapiceoi"

definition trap_default :: "hw \<Rightarrow> uint \<Rightarrow> ('z trapst_scheme, unit) kern" where
  "trap_default h tf =
     kif (\<lambda>s. myproc s = None \<or> tf_mode s tf = 0)
       (kseq (\<lambda>s. con_cprintf (''unexpected trap %d from cpu %d eip %x (cr2=0x%x)'' @ nl)
                [W (trapno s tf), W (of_nat (cpu_me s)), W (load32 (mem s) (tf + tf_eip)), W (hw_cr2 h)] s)
             (panic ''trap''))
       (kseq (\<lambda>s. let p = proc_at s (curproc s) in
                con_cprintf (''pid %d %s: trap %d err %d on cpu %d eip 0x%x addr 0x%x--kill proc'' @ nl)
                  [W (p_pid p), S (p_name p), W (trapno s tf), W (load32 (mem s) (tf + tf_err)), W (of_nat (cpu_me s)),
                   W (load32 (mem s) (tf + tf_eip)), W (hw_cr2 h)] s)
             (\<lambda>s. updp (curproc s) (p_killed_update (\<lambda>_. True)) s))"

definition trap_switch :: "hw \<Rightarrow> uint \<Rightarrow> ('z trapst_scheme, unit) kern" where
  "trap_switch h tf = (\<lambda>s.
     let no = trapno s tf in
     (if no = T_IRQ0 + IRQ_TIMER then trap_timer
      else if no = T_IRQ0 + IRQ_IDE then lapiceoi
      else if no = T_IRQ0 + IRQ_IDE + 1 then ret ()
      else if no = T_IRQ0 + IRQ_KBD then kseq (kbdintr (hw_kbd h)) lapiceoi
      else if no = T_IRQ0 + IRQ_COM1 then kseq (uartintr (hw_uart h)) lapiceoi
      else if no = T_IRQ0 + 7 \<or> no = T_IRQ0 + IRQ_SPURIOUS then
        kseq (\<lambda>s. con_cprintf (''cpu%d: spurious interrupt at %x:%x'' @ nl)
               [W (of_nat (cpu_me s)), W (ucast (mem s (tf + tf_cs)) OR push_bit 8 (ucast (mem s (tf + tf_cs + 1)))), W (load32 (mem s) (tf + tf_eip))] s)
             lapiceoi
      else trap_default h tf) s)"

text \<open>The check that stands before and after the yield of trap.\<close>

definition exit_if_killed :: "uint \<Rightarrow> ('z trapst_scheme, unit) kern" where
  "exit_if_killed tf = kwhen (\<lambda>s. myproc s \<noteq> None \<and> is_killed s \<and> tf_mode s tf = DPL_USER) exit"

definition trap_syscall_end :: "('z trapst_scheme, unit) kern" where
  "trap_syscall_end = kwhen is_killed exit"

definition trap :: "hw \<Rightarrow> uint \<Rightarrow> ('z trapst_scheme, unit) kern" where
  "trap h tf =
     kif (\<lambda>s. trapno s tf = T_SYSCALL)
       (kseq (kwhen is_killed exit)
       (kseq (\<lambda>s. updp (curproc s) (p_tf_update (\<lambda>_. tf)) s)
       (kseq (syscall h)
             trap_syscall_end)))
       (kseq (trap_switch h tf)
       (kseq (exit_if_killed tf)
       (kseq (kwhen (\<lambda>s. myproc s \<noteq> None \<and> p_state (proc_at s (curproc s)) = RUNNING \<and>
                         trapno s tf = T_IRQ0 + IRQ_TIMER \<and> ticks s mod SCHED_INTERVAL = 0) yield)
             (exit_if_killed tf))))"

text \<open>The halves that run after the scheduler: \<open>m\<close> is the rest of the system call that slept.\<close>

definition trap_syscall_resume :: "('z trapst_scheme, cint) kern \<Rightarrow> ('z trapst_scheme, unit) kern" where
  "trap_syscall_resume m = kseq (kbind m set_eax) trap_syscall_end"

definition trap_yield_resume :: "uint \<Rightarrow> ('z trapst_scheme, unit) kern" where
  "trap_yield_resume tf = kseq (release PtableLock) (exit_if_killed tf)"

subsection \<open>A killed process does not get back to user mode\<close>

lemma sched_not_Ok: "sched s \<noteq> Ok u s'"
  by (simp add: sched_def kif_def panic_def)

lemma exit_not_Ok: "exit s \<noteq> Ok u s'"
proof
  assume "exit s = Ok u s'"
  then obtain t where "exit_finish t = Ok u s'"
    by (auto simp: exit_def kif_def panic_def kseq_eq_Ok split: if_splits)
  then show False by (auto simp: exit_finish_def kseq_eq_Ok panic_def)
qed

lemma kwhen_exit: "kwhen c exit s = Ok u s' \<Longrightarrow> s' = s \<and> \<not> c s'"
  by (cases "c s") (auto simp: kwhen_def kif_def exit_not_Ok)

lemma syscall_end_Ok: "trap_syscall_end s = Ok u s' \<Longrightarrow> \<not> is_killed s'"
  unfolding trap_syscall_end_def using kwhen_exit by blast

lemma exit_if_killed_Ok:
  "exit_if_killed tf s = Ok u s' \<Longrightarrow> tf_mode s' tf = DPL_USER \<Longrightarrow> myproc s' = None \<or> \<not> is_killed s'"
  unfolding exit_if_killed_def using kwhen_exit by blast

text \<open>
  C36: a killed process never returns to user mode. When trap returns, at once or after the process slept in a system
  call or gave up the processor, then after a system call, and after any other trap taken in user mode, the process on
  this processor has not been killed: the call of exit that stands in the way never returns. In particular a fault in
  user mode, which kills the process, is never returned from.
\<close>

theorem trap_killed_never_returns:
  assumes "trap h tf s = Ok () s' \<and> (trapno s tf = T_SYSCALL \<or> tf_mode s' tf = DPL_USER) \<or>
    trap_syscall_resume m s = Ok () s' \<or>
    trap_yield_resume tf s = Ok () s' \<and> tf_mode s' tf = DPL_USER"
  shows "myproc s' = None \<or> \<not> is_killed s'"
  using assms
  by (auto simp: trap_def trap_syscall_resume_def trap_yield_resume_def kif_def kseq_eq_Ok
      dest: syscall_end_Ok exit_if_killed_Ok split: if_splits)

subsection \<open>Unknown system calls\<close>

lemma length_syscalls: "length (syscalls h) = 24"
  by (simp add: syscalls_def)

lemma printed_fields:
  "printed xs s s' \<Longrightarrow> mem s' = mem s" "printed xs s s' \<Longrightarrow> procs s' = procs s" "printed xs s s' \<Longrightarrow> curproc s' = curproc s"
  by (elim printedE, hypsubst, simp add: curproc_def myproc_def)+


subsection \<open>A trap to run\<close>

text \<open>Process 0 in user mode, with its trap frame at address 256: a system call with \<open>eax\<close> in the register.\<close>

definition boot_trap :: "byte \<Rightarrow> trapst" where
  "boot_trap eax = (consst.extend boot_cons (kbdst_ext 0 (trapst_ext (\<lambda>_. SETGATE False 0 0 0) True 0 ())))
     \<lparr>mem := (\<lambda>_. 0)(256 + tf_trapno := 64, 256 + tf_cs := 27, 256 + tf_eax := eax),
      procs := map (p_tf_update (\<lambda>_. 256)) (procs boot_cons)\<rparr>"

definition no_hw :: hw where
  "no_hw = \<lparr>hw_rtc = (\<lambda>_ _. 0), hw_kbd = [], hw_uart = [], hw_cr2 = 0\<rparr>"

lemma boot_trap_fields:
  "curproc (boot_trap a) = 0" "myproc (boot_trap a) = Some 0" "p_tf (proc_at (boot_trap a) 0) = 256" "\<not> p_killed (proc_at (boot_trap a) 0)"
  "mem (boot_trap a) = (\<lambda>_. 0)(256 + tf_trapno := 64, 256 + tf_cs := 27, 256 + tf_eax := a)"
  "screen_ok (boot_trap a)" "held (boot_trap a) = {}" "length (procs (boot_trap a)) = 64"
  using boot_cons_table boot_cons_lines(3) boot_cons_fields(5)
  by (simp_all add: boot_trap_def consst.defs runs_def curproc_def myproc_def table_ok_def NPROC_def proc_at_def screen_ok_def)

text \<open>Process 0 asks for its pid.\<close>

theorem trap_killed_never_returns_witness:
  "\<exists>s'. trap no_hw 256 (boot_trap 11) = Ok () s' \<and> myproc s' \<noteq> None \<and> \<not> is_killed s'"
proof -
  let ?s = "boot_trap 11"
  have n: "trapno ?s 256 = T_SYSCALL" unfolding trapno_def boot_trap_fields by code_simp
  have e: "load32 (mem ?s) (256 + tf_eax) = 11" unfolding boot_trap_fields by code_simp
  let ?t = "?s\<lparr>procs := upd_nth 0 (p_tf_update (\<lambda>_. 256)) (procs ?s)\<rparr>"
  have t: "curproc ?t = 0" "p_tf (proc_at ?t 0) = 256" "\<not> p_killed (proc_at ?t 0)" "myproc ?t = Some 0"
    using boot_trap_fields [of 11] by (simp_all add: curproc_def myproc_def proc_at_def upd_nth_def)
  have "syscall no_hw ?t = kbind sys_getpid set_eax ?t"
    using e t by (simp add: syscall_def Let_def length_syscalls) (simp add: syscalls_def)
  then obtain m where m: "syscall no_hw ?t = Ok () (?t\<lparr>mem := m\<rparr>)"
    using t by (simp add: sys_getpid_def set_eax_def kstep)
  have "\<not> is_killed ?s" "\<not> is_killed (?t\<lparr>mem := m\<rparr>)"
    using t boot_trap_fields [of 11] by (simp_all add: is_killed_def curproc_def myproc_def proc_at_def)
  then have "trap no_hw 256 ?s = Ok () (?t\<lparr>mem := m\<rparr>)"
    using n m boot_trap_fields(1) [of 11] by (simp add: trap_def trap_syscall_end_def kstep)
  moreover from this have "myproc (?t\<lparr>mem := m\<rparr>) = None \<or> \<not> is_killed (?t\<lparr>mem := m\<rparr>)"
    using trap_killed_never_returns [of no_hw 256 ?s] n by blast
  ultimately show ?thesis using t(4) by (auto simp: myproc_def)
qed


end
