(* ===== verification/Spec2Isabelle.thy ===== *)
theory Spec2Isabelle
  imports Spinlock Memory Kalloc Vm Proc_Props Life Console_Props Grep Sh_Print Trap
begin

text \<open>
  A verification library for an xv6 teaching kernel and its user programs.
\<close>

end
